theory Spec2Isabelle
  imports Main "HOL-Library.AList" "HOL-Library.Product_Lexorder" "HOL-Library.Option_ord"
    "HOL-Library.List_Lexorder" "HOL-Library.Char_ord"
begin

section \<open>Grammars as dictionaries\<close>

text \<open>
  A grammar is a Python dictionary from a nonterminal (the string it derives) to its
  right-hand side, a list of symbols (strings). It is modelled as an association list
  with pairwise distinct keys: \<open>G[k] = v\<close> is \<open>AList.update k v G\<close>, \<open>k in G\<close> is
  \<open>map_of G k \<noteq> None\<close>, \<open>G.update(H)\<close> is \<open>AList.merge G H\<close> and \<open>len(G)\<close> is the
  length of the list.
\<close>

type_synonym symbol = string
type_synonym grammar = "(symbol \<times> symbol list) list"

datatype error = TypeError | KeyError | IndexError | ValueError | Exception string

definition has_key :: "('k \<times> 'v) list \<Rightarrow> 'k \<Rightarrow> bool" where
  "has_key G k = (map_of G k \<noteq> None)"

text \<open>\<open>grammarSize\<close> of performance.py: the sum of the lengths of all right-hand sides.\<close>

definition grammarSize :: "grammar \<Rightarrow> nat" where
  "grammarSize G = sum_list (map (\<lambda>(k, v). length v) G)"

section \<open>bisection.py\<close>

function recurse :: "string \<Rightarrow> grammar \<Rightarrow> grammar" where
  "recurse S grammar =
     (if length S \<le> 1 then grammar
      else recurse (drop (length S div 2) S)
             (recurse (take (length S div 2) S)
                (AList.update S [take (length S div 2) S, drop (length S div 2) S] grammar)))"
  by pat_completeness auto
termination
  by (relation "measure (\<lambda>(S, g). length S)") auto

declare recurse.simps [simp del]

definition getBisectionGrammar :: "string \<Rightarrow> grammar" where
  "getBisectionGrammar S = recurse S []"

text \<open>
  The specification's reading of Bisection: the substrings met by recursively splitting
  at the floor midpoint, and the grammar that maps each of them of length at least two
  to its two halves.
\<close>

function bisection_substrings :: "string \<Rightarrow> string set" where
  "bisection_substrings T =
     (if length T \<le> 1 then {T}
      else insert T (bisection_substrings (take (length T div 2) T)
                     \<union> bisection_substrings (drop (length T div 2) T)))"
  by pat_completeness auto
termination
  by (relation "measure length") auto

declare bisection_substrings.simps [simp del]

definition bisection_spec :: "string \<Rightarrow> string \<Rightarrow> string list option" where
  "bisection_spec S T =
     (if T \<in> bisection_substrings S \<and> 2 \<le> length T
      then Some [take (length T div 2) T, drop (length T div 2) T] else None)"

section \<open>lehman1.py: the superstring kernel\<close>

text \<open>
  \<open>computeOverlap\<close>: Python compares the triples with \<open>max\<close>, that is lexicographically;
  \<open>s1[-i:]\<close> for \<open>1 \<le> i < len(s1)\<close> is the suffix of length \<open>i\<close>.
\<close>

definition computeOverlap :: "string \<Rightarrow> string \<Rightarrow> nat \<times> nat \<times> nat" where
  "computeOverlap s1 s2 =
     fold (\<lambda>i max_overlap.
             if drop (length s1 - i) s1 = take i s2
             then max max_overlap (i, length s1 - i, 0) else max_overlap)
          [1 ..< min (length s1) (length s2)]
          (0, length s1, 0)"

text \<open>
  \<open>pairWithMaximumOverlap\<close>: the running maximum starts at \<open>(-1, None, None)\<close>; in
  Python 2 \<open>None\<close> is smaller than every integer, as \<open>None\<close> is below \<open>Some\<close> in the
  order on options. Indexing the list with \<open>None\<close> raises \<open>TypeError\<close>.
\<close>

definition maxOverlapTriple :: "string list \<Rightarrow> int \<times> nat option \<times> nat option" where
  "maxOverlapTriple Ss =
     fold (\<lambda>i max_overlap.
             fold (\<lambda>j max_overlap.
                     max max_overlap (int (fst (computeOverlap (Ss ! i) (Ss ! j))), Some i, Some j))
                  [i + 1 ..< length Ss] max_overlap)
          [0 ..< length Ss]
          (- 1, None, None)"

definition pairWithMaximumOverlap :: "string list \<Rightarrow> error + (string \<times> string)" where
  "pairWithMaximumOverlap Ss =
     (case maxOverlapTriple Ss of
        (m, Some i, Some j) \<Rightarrow> Inr (Ss ! i, Ss ! j)
      | _ \<Rightarrow> Inl TypeError)"

fun splitTooBigs :: "string list \<Rightarrow> nat \<Rightarrow> string list" where
  "splitTooBigs [] split_len = []"
| "splitTooBigs (s # strings) split_len =
     (if length s > split_len
      then take (length s div 2) s # drop (length s div 2) s # splitTooBigs strings split_len
      else s # splitTooBigs strings split_len)"

text \<open>The triple that \<open>pairWithMaximumOverlap\<close> compares for the pair of indices \<open>(i, j)\<close>.\<close>

definition ovTriple :: "string list \<Rightarrow> nat \<Rightarrow> nat \<Rightarrow> int \<times> nat option \<times> nat option" where
  "ovTriple Ss i j = (int (fst (computeOverlap (Ss ! i) (Ss ! j))), Some i, Some j)"

section \<open>sakamoto.py\<close>

text \<open>
  Python sets are lists without duplicates, kept in insertion order. The order in which
  Python iterates over a set depends on the hashes of its elements, so every loop over a
  set goes through an enumeration function that is a parameter of the model: \<open>ordI\<close> for
  sets of index pairs and \<open>ordS\<close> for sets of symbol pairs. The theorems hold for every
  enumeration that lists exactly the elements of the set. Loops over dictionaries whose
  result does not depend on the order (they accumulate a disjunction, or select the entry
  of one key) follow the association list.
\<close>

type_synonym seg = "int \<times> int"
type_synonym ids = "(seg \<times> nat) list"

datatype verdict = Irregular | Unselected | Selected | Other | NoVerdict

datatype which = WFree | WLeft | WRight

definition set_add :: "'a \<Rightarrow> 'a list \<Rightarrow> 'a list" where
  "set_add x xs = (if x \<in> set xs then xs else xs @ [x])"

fun fold_err :: "('a \<Rightarrow> 's \<Rightarrow> error + 's) \<Rightarrow> 'a list \<Rightarrow> 's \<Rightarrow> error + 's" where
  "fold_err f [] s = Inr s"
| "fold_err f (x # xs) s = (case f x s of Inl e \<Rightarrow> Inl e | Inr s' \<Rightarrow> fold_err f xs s')"

text \<open>
  \<open>xs[i]\<close> in Python: an index from \<open>-len(xs)\<close> to \<open>-1\<close> is taken from the end of the
  list, and an index outside \<open>-len(xs) .. len(xs) - 1\<close> raises \<open>IndexError\<close>.
\<close>

definition py_get :: "'a list \<Rightarrow> int \<Rightarrow> error + 'a" where
  "py_get xs i =
     (if 0 \<le> i \<and> i < int (length xs) then Inr (xs ! nat i)
      else if i < 0 \<and> - int (length xs) \<le> i then Inr (xs ! nat (int (length xs) + i))
      else Inl IndexError)"

definition py_pop :: "'a list \<Rightarrow> nat \<Rightarrow> error + 'a list" where
  "py_pop xs k = (if k < length xs then Inr (take k xs @ drop (k + 1) xs) else Inl IndexError)"

text \<open>The pairs \<open>(w[i], w[i+1])\<close> for \<open>i\<close> in \<open>xrange(len(w) - 1)\<close>.\<close>

definition adjacent :: "symbol list \<Rightarrow> (symbol \<times> symbol) list" where
  "adjacent w = map (\<lambda>i. (w ! i, w ! (i + 1))) [0 ..< length w - 1]"

definition produceTrivialGrammar :: "symbol list \<Rightarrow> grammar" where
  "produceTrivialGrammar w =
     fold (\<lambda>i P. AList.update (concat (take i w)) [concat (take (i - 1) w), w ! (i - 1)] P)
          [2 ..< length w + 1] []"

fun hasRepeatingPairs_loop :: "(symbol \<times> symbol) list \<Rightarrow> (symbol \<times> symbol) list \<Rightarrow> bool" where
  "hasRepeatingPairs_loop sequences [] = False"
| "hasRepeatingPairs_loop sequences (pair # rest) =
     (if pair \<in> set sequences then True
      else hasRepeatingPairs_loop (set_add pair sequences) rest)"

definition hasRepeatingPairs :: "symbol list \<Rightarrow> bool" where
  "hasRepeatingPairs w = hasRepeatingPairs_loop [] (adjacent w)"

function findMaxRepeating_loop :: "symbol list \<Rightarrow> nat \<Rightarrow> nat \<Rightarrow> nat \<times> nat" where
  "findMaxRepeating_loop w i j =
     (if j < length w \<and> w ! j = w ! i then findMaxRepeating_loop w i (j + 1) else (i, j - 1))"
  by pat_completeness auto
termination
  by (relation "measure (\<lambda>(w, i, j). length w - j)") auto

declare findMaxRepeating_loop.simps [simp del]

definition findMaxRepeating :: "symbol list \<Rightarrow> nat \<Rightarrow> nat \<times> nat" where
  "findMaxRepeating w i = findMaxRepeating_loop w i (i + 1)"

definition hasRepeatingSymbol :: "symbol list \<Rightarrow> (nat \<times> nat) option" where
  "hasRepeatingSymbol w =
     (if length w < 2 then None
      else List.find (\<lambda>r. fst r \<noteq> snd r) (map (findMaxRepeating w) [0 ..< length w - 1]))"

text \<open>
  \<open>produceRepeatingSymbolGrammar\<close> recurses on the characters of the string \<open>S\<close>. On a
  string shorter than two characters the Python recursion never reaches its base case and
  ends in a \<open>RuntimeError\<close> (maximum recursion depth).
\<close>

function produceRepeatingSymbolGrammar :: "grammar \<Rightarrow> string \<Rightarrow> error + grammar" where
  "produceRepeatingSymbolGrammar P S =
     (if length S < 2 then Inl (Exception ''RuntimeError'')
      else if length S = 2 then Inr (AList.update S [[S ! 0], [S ! 1]] P)
      else if length S mod 2 = 0 then
        (case produceRepeatingSymbolGrammar
                (AList.update S [take (length S div 2) S, drop (length S div 2) S] P)
                (take (length S div 2) S) of
           Inl e \<Rightarrow> Inl e
         | Inr P1 \<Rightarrow> produceRepeatingSymbolGrammar P1 (drop (length S div 2) S))
      else produceRepeatingSymbolGrammar
             (AList.update S [take (length S - 1) S, [S ! (length S - 1)]] P)
             (take (length S - 1) S))"
  by pat_completeness auto
termination
  by (relation "measure (\<lambda>(P, S). length S)") auto

declare produceRepeatingSymbolGrammar.simps [simp del]

text \<open>
  One round of the loop of \<open>repetition\<close>: the run \<open>w[i..j]\<close> is replaced by the single
  symbol \<open>w[i] * (j - i + 1)\<close>.
\<close>

definition collapse_run :: "symbol list \<Rightarrow> nat \<Rightarrow> nat \<Rightarrow> symbol list" where
  "collapse_run w i j = take i w @ [concat (replicate (j - i + 1) (w ! i))] @ drop (j + 1) w"

lemma findMaxRepeating_loop_bounds:
  "j \<le> length w \<Longrightarrow> i < j \<Longrightarrow>
   i \<le> snd (findMaxRepeating_loop w i j) \<and> snd (findMaxRepeating_loop w i j) < length w
   \<and> fst (findMaxRepeating_loop w i j) = i"
proof (induction w i j rule: findMaxRepeating_loop.induct)
  case (1 w i j)
  show ?case
  proof (cases "j < length w \<and> w ! j = w ! i")
    case True
    then show ?thesis using "1.IH" "1.prems" by (subst (1 2 3) findMaxRepeating_loop.simps) simp
  next
    case False
    then show ?thesis using "1.prems" by (subst (1 2 3) findMaxRepeating_loop.simps) auto
  qed
qed

lemma hasRepeatingSymbol_bounds:
  assumes "hasRepeatingSymbol w = Some (i, j)"
  shows "i < j \<and> j < length w"
proof -
  from assms have len: "2 \<le> length w"
    and f: "List.find (\<lambda>r. fst r \<noteq> snd r) (map (findMaxRepeating w) [0 ..< length w - 1]) = Some (i, j)"
    by (auto simp: hasRepeatingSymbol_def split: if_splits)
  from f have "\<exists>k < length w - 1. findMaxRepeating w k = (i, j) \<and> fst (i, j) \<noteq> snd (i, j)"
    unfolding find_Some_iff by (auto simp del: fst_conv snd_conv)
  then obtain k where k: "k < length w - 1" "findMaxRepeating w k = (i, j)" "i \<noteq> j"
    by auto
  have "k \<le> snd (findMaxRepeating_loop w k (k + 1)) \<and> snd (findMaxRepeating_loop w k (k + 1)) < length w
        \<and> fst (findMaxRepeating_loop w k (k + 1)) = k"
    using k(1) by (intro findMaxRepeating_loop_bounds) auto
  with k show ?thesis by (auto simp: findMaxRepeating_def)
qed

function repetition_loop :: "symbol list \<Rightarrow> grammar \<Rightarrow> error + (symbol list \<times> grammar)" where
  "repetition_loop w P =
     (case hasRepeatingSymbol w of
        None \<Rightarrow> Inr (w, P)
      | Some (i, j) \<Rightarrow>
          (case produceRepeatingSymbolGrammar P (concat (replicate (j - i + 1) (w ! i))) of
             Inl e \<Rightarrow> Inl e
           | Inr P' \<Rightarrow> repetition_loop (collapse_run w i j) P'))"
  by pat_completeness auto
termination
proof (relation "measure (\<lambda>(w, P). length w)")
  show "wf (measure (\<lambda>(w, P). length w))" by simp
next
  fix w :: "symbol list" and P :: grammar and x2 x y x2a and P' :: grammar
  assume "hasRepeatingSymbol w = Some x2" and "(x, y) = x2"
  then have "x < y \<and> y < length w" using hasRepeatingSymbol_bounds [of w x y] by simp
  then show "((collapse_run w x y, P'), (w, P)) \<in> measure (\<lambda>(w, P). length w)"
    by (simp add: collapse_run_def, arith)
qed

declare repetition_loop.simps [simp del]

definition repetition :: "symbol list \<Rightarrow> error + (symbol list \<times> grammar)" where
  "repetition w = repetition_loop w []"

text \<open>
  \<open>createSortedSegmentList\<close>: Python sorts the tuples \<open>(count, (a, b))\<close> lexicographically
  (strings by their characters' codes) and reverses the list. The segments are pairwise
  distinct, so the sorted list does not depend on the order of the dictionary.
\<close>

definition createSortedSegmentList :: "symbol list \<Rightarrow> (nat \<times> (symbol \<times> symbol)) list" where
  "createSortedSegmentList w =
     (let segmentCounts =
            fold (\<lambda>segment segmentCounts.
                    case map_of segmentCounts segment of
                      Some c \<Rightarrow> AList.update segment (c + 1) segmentCounts
                    | None \<Rightarrow> AList.update segment 1 segmentCounts)
                 (adjacent w) [];
          segmentList = map (\<lambda>(segment, c). (c, segment)) segmentCounts
      in rev (sort segmentList))"

definition make_set_c :: "symbol \<times> symbol \<Rightarrow> symbol list \<Rightarrow> seg list" where
  "make_set_c seg w =
     fold (\<lambda>i C. if (w ! i, w ! (i + 1)) = seg then set_add (int i, int i + 1) C else C)
          [0 ..< length w - 1] []"

definition make_sets ::
  "(seg list \<Rightarrow> seg list) \<Rightarrow> symbol list \<Rightarrow> seg list \<Rightarrow> seg list \<Rightarrow> seg list \<Rightarrow> seg list \<Rightarrow> ids
     \<Rightarrow> seg list \<times> seg list \<times> seg list" where
  "make_sets ordI w C F L R Assignments =
     fold (\<lambda>i (F, L, R).
             if fst i - 1 > 0 \<and> has_key Assignments (fst i - 1, fst i) then (F, set_add i L, R)
             else if fst i + 2 < int (length w) \<and> has_key Assignments (fst i + 1, fst i + 2)
               then (F, L, set_add i R)
             else (set_add i F, L, R))
          (ordI C) (F, L, R)"

text \<open>
  \<open>subgroup\<close>: \<open>assignments[a]\<close> raises \<open>KeyError\<close> when \<open>a\<close> has no id. The function
  returns \<open>None\<close> when neither flag is set.
\<close>

definition subgroup :: "seg \<Rightarrow> ids \<Rightarrow> ids \<Rightarrow> error + verdict" where
  "subgroup a assignments D =
     (case map_of assignments a of
        None \<Rightarrow> Inl KeyError
      | Some index \<Rightarrow>
          (case fold (\<lambda>(x, y) (inD, ninD).
                        if y = index
                        then (if has_key D x then True else inD,
                              if \<not> has_key D x then True else ninD)
                        else (inD, ninD))
                     assignments (False, False) of
             (inD, ninD) \<Rightarrow>
               Inr (if inD \<and> ninD then Irregular
                    else if \<not> inD \<and> ninD then Unselected
                    else if inD \<and> \<not> ninD then Selected
                    else NoVerdict)))"

definition group_contents :: "seg \<Rightarrow> symbol list \<Rightarrow> ids \<Rightarrow> ids \<Rightarrow> error + verdict" where
  "group_contents seg w assignments dictionary =
     (case fold_err (\<lambda>(x, y) otherseg.
                       if fst x = fst seg \<and> snd x = snd seg
                       then (case map_of assignments seg of
                               None \<Rightarrow> Inl KeyError
                             | Some v \<Rightarrow> if y \<noteq> v then Inr x else Inr otherseg)
                       else Inr otherseg)
                    assignments seg of
        Inl e \<Rightarrow> Inl e
      | Inr otherseg \<Rightarrow>
          (case subgroup otherseg assignments dictionary of
             Inl e \<Rightarrow> Inl e
           | Inr v \<Rightarrow>
               Inr (if v = Irregular then Irregular
                    else if v = Unselected then Unselected
                    else NoVerdict)))"

text \<open>
  \<open>check_all\<close>: \<open>a\<close> is one of the sets \<open>Left\<close> and \<open>Right\<close>, told apart by identity; the
  model gets the tag and the enumerated elements. With any other set the variable
  \<open>check\<close> is unbound.
\<close>

fun check_all :: "which \<Rightarrow> seg list \<Rightarrow> ids \<Rightarrow> ids \<Rightarrow> error + verdict" where
  "check_all a [] assignments dictionary = Inr Other"
| "check_all a ((x, y) # rest) assignments dictionary =
     (case (case a of WLeft \<Rightarrow> Inr (x - 1, x) | WRight \<Rightarrow> Inr (y, y + 1)
                   | WFree \<Rightarrow> Inl (Exception ''NameError'')) of
        Inl e \<Rightarrow> Inl e
      | Inr check \<Rightarrow>
          (case subgroup check assignments dictionary of
             Inl e \<Rightarrow> Inl e
           | Inr v \<Rightarrow> if v = Irregular then Inr Irregular
                      else check_all a rest assignments dictionary))"

text \<open>
  The body of the loops of \<open>assignment\<close> over \<open>Left\<close> and over \<open>Right\<close>: \<open>nb\<close> is the
  neighbouring segment (\<open>leftseg\<close> or \<open>rightseg\<close>), \<open>X\<close> the set being processed. The three
  \<open>if\<close> statements run in sequence, each on the assignments as the previous one left them.
\<close>

definition assign_fixed ::
  "which \<Rightarrow> seg list \<Rightarrow> nat \<Rightarrow> nat \<Rightarrow> symbol list \<Rightarrow> ids \<Rightarrow> seg \<Rightarrow> seg \<Rightarrow> ids \<times> ids
     \<Rightarrow> error + (ids \<times> ids)" where
  "assign_fixed a X d1 d2 w dictionary nb seq st =
     (case st of (assignments, D) \<Rightarrow>
       (case subgroup nb assignments dictionary of
          Inl e \<Rightarrow> Inl e
        | Inr v1 \<Rightarrow>
           (let assignments = (if v1 = Irregular then AList.update seq d2 assignments
                               else assignments)
            in case subgroup nb assignments dictionary of
                 Inl e \<Rightarrow> Inl e
               | Inr v2 \<Rightarrow>
                  (let assignments = (if v2 = Unselected then AList.update seq d1 assignments
                                      else assignments);
                       D = (if v2 = Unselected then AList.update seq d1 D else D)
                   in case subgroup nb assignments dictionary of
                        Inl e \<Rightarrow> Inl e
                      | Inr v3 \<Rightarrow>
                          if v3 = Selected then
                            (case group_contents nb w assignments dictionary of
                               Inl e \<Rightarrow> Inl e
                             | Inr g \<Rightarrow>
                                 if g = Irregular then Inr (AList.update seq d2 assignments, D)
                                 else if g = Unselected
                                   then Inr (AList.update seq d1 assignments, D)
                                 else (case check_all a X assignments dictionary of
                                         Inl e \<Rightarrow> Inl e
                                       | Inr c \<Rightarrow>
                                           if c = Irregular
                                           then Inr (AList.update seq d2 assignments, D)
                                           else Inr (AList.update seq d1 assignments, D)))
                          else Inr (assignments, D)))))"

text \<open>
  \<open>assignment\<close> returns the new dictionary \<open>D\<close> and changes \<open>assignments\<close> in place; the
  model returns both.
\<close>

definition assignment ::
  "(seg list \<Rightarrow> seg list) \<Rightarrow> which \<Rightarrow> seg list \<Rightarrow> seg list \<Rightarrow> seg list \<Rightarrow> ids \<Rightarrow> nat \<Rightarrow> nat
     \<Rightarrow> symbol list \<Rightarrow> ids \<Rightarrow> error + (ids \<times> ids)" where
  "assignment ordI X FreeS LeftS RightS assignments d1 d2 w dictionary =
     (let st0 = (if X = WFree
                 then fold (\<lambda>x (assignments, D). (AList.update x d1 assignments, AList.update x d1 D))
                        (ordI FreeS) (assignments, [])
                 else (assignments, []))
      in case (if X = WLeft
               then fold_err (\<lambda>(x, y) st.
                                assign_fixed WLeft (ordI LeftS) d1 d2 w dictionary (x - 1, x) (x, y) st)
                      (ordI LeftS) st0
               else Inr st0) of
           Inl e \<Rightarrow> Inl e
         | Inr st1 \<Rightarrow>
             if X = WRight
             then fold_err (\<lambda>(x, y) st.
                              assign_fixed WRight (ordI RightS) d1 d2 w dictionary (y, y + 1) (x, x + 1) st)
                    (ordI RightS) st1
             else Inr st1)"

text \<open>One round of the \<open>while\<close> loop of \<open>arrangement\<close>, for the segment popped from \<open>L\<close>.\<close>

definition arrangement_round ::
  "(seg list \<Rightarrow> seg list) \<Rightarrow> symbol list \<Rightarrow> nat \<times> (symbol \<times> symbol) \<Rightarrow> ids \<times> ids \<times> nat list
     \<Rightarrow> error + (ids \<times> ids \<times> nat list)" where
  "arrangement_round ordI w entry st =
     (case st of (D, Assignments, ID) \<Rightarrow>
       (let segment = snd entry;
            id1 = length ID;
            ID = set_add id1 ID;
            id2 = id1 + 1;
            ID = set_add id2 ID;
            C = make_set_c segment w
        in case make_sets ordI w C [] [] [] Assignments of
             (FreeS, LeftS, RightS) \<Rightarrow>
               (case assignment ordI WFree FreeS LeftS RightS Assignments id1 id2 w D of
                  Inl e \<Rightarrow> Inl e
                | Inr (Assignments, D1) \<Rightarrow>
                   (let D = AList.merge D D1
                    in case assignment ordI WLeft FreeS LeftS RightS Assignments id1 id2 w D of
                         Inl e \<Rightarrow> Inl e
                       | Inr (Assignments, D2) \<Rightarrow>
                          (let D = AList.merge D D2
                           in case assignment ordI WRight FreeS LeftS RightS Assignments id1 id2 w D of
                                Inl e \<Rightarrow> Inl e
                              | Inr (Assignments, D3) \<Rightarrow>
                                  Inr (AList.merge D D3, Assignments, ID))))))"

text \<open>
  The loop that removes duplicates from \<open>vals\<close> while iterating over it: Python's list
  iterator keeps an index into the list that is being shortened.
\<close>

function dedupe_values :: "nat \<Rightarrow> nat list \<Rightarrow> nat list" where
  "dedupe_values idx vals =
     (if idx < length vals
      then dedupe_values (idx + 1)
             ((remove1 (vals ! idx) ^^ (count_list vals (vals ! idx) - 1)) vals)
      else vals)"
  by pat_completeness auto
termination
proof (relation "measure (\<lambda>(idx, vals). length vals - idx)")
  show "wf (measure (\<lambda>(idx, vals). length vals - idx))" by simp
next
  fix idx :: nat and vals :: "nat list"
  assume h: "idx < length vals"
  have "length ((remove1 v ^^ n) xs) \<le> length xs" for v :: nat and n xs
  proof (induction n)
    case 0
    show ?case by simp
  next
    case (Suc n)
    have "length (remove1 v ((remove1 v ^^ n) xs)) \<le> length ((remove1 v ^^ n) xs)"
      by (simp add: length_remove1)
    with Suc show ?case by simp
  qed
  then have "length ((remove1 (vals ! idx) ^^ (count_list vals (vals ! idx) - 1)) vals) \<le> length vals" .
  with h show "((idx + 1, (remove1 (vals ! idx) ^^ (count_list vals (vals ! idx) - 1)) vals),
                idx, vals) \<in> measure (\<lambda>(idx, vals). length vals - idx)"
    by simp
qed

declare dedupe_values.simps [simp del]

text \<open>The set \<open>segments\<close> of the symbol pairs named by the entries of \<open>D\<close>.\<close>

definition collect_segments :: "symbol list \<Rightarrow> ids \<Rightarrow> nat list \<Rightarrow> error + (symbol \<times> symbol) list" where
  "collect_segments w D vals =
     fold_err (\<lambda>v segments.
                 fold_err (\<lambda>(x, d) segments.
                             if d = v
                             then (case py_get w (fst x) of
                                     Inl e \<Rightarrow> Inl e
                                   | Inr a \<Rightarrow>
                                       (case py_get w (snd x) of
                                          Inl e \<Rightarrow> Inl e
                                        | Inr b \<Rightarrow> Inr (set_add (a, b) segments)))
                             else Inr segments)
                          D segments)
              vals []"

text \<open>
  The body of the loop over \<open>segments\<close>: the positions of the pair are collected, the
  first symbol of each occurrence is overwritten by the new nonterminal, the second one
  is popped, and the production is stored.
\<close>

definition replace_segment ::
  "symbol \<times> symbol \<Rightarrow> symbol list \<times> grammar \<Rightarrow> error + (symbol list \<times> grammar)" where
  "replace_segment s st =
     (case st of (w, P) \<Rightarrow>
       (let locs = filter (\<lambda>i. (w ! i, w ! (i + 1)) = s) [0 ..< length w - 1];
            w = fold (\<lambda>l w. w[l := fst s @ snd s]) locs w
        in case fold_err (\<lambda>li w. py_pop w (locs ! li - li + 1)) [0 ..< length locs] w of
             Inl e \<Rightarrow> Inl e
           | Inr w \<Rightarrow> Inr (w, AList.update (fst s @ snd s) [fst s, snd s] P)))"

text \<open>
  \<open>arrangement\<close> changes \<open>w\<close> and \<open>ID\<close> in place and returns \<open>P\<close>; the model returns the
  three of them.
\<close>

definition arrangement ::
  "(seg list \<Rightarrow> seg list) \<Rightarrow> ((symbol \<times> symbol) list \<Rightarrow> (symbol \<times> symbol) list)
     \<Rightarrow> symbol list \<Rightarrow> nat list \<Rightarrow> error + (symbol list \<times> grammar \<times> nat list)" where
  "arrangement ordI ordS w ID =
     (case fold_err (arrangement_round ordI w) (createSortedSegmentList w) ([], [], ID) of
        Inl e \<Rightarrow> Inl e
      | Inr (D, Assignments, ID) \<Rightarrow>
          (case collect_segments w D (dedupe_values 0 (map snd D)) of
             Inl e \<Rightarrow> Inl e
           | Inr segments \<Rightarrow>
               (case fold_err replace_segment (ordS segments) (w, []) of
                  Inl e \<Rightarrow> Inl e
                | Inr (w, P) \<Rightarrow> Inr (w, P, ID))))"

text \<open>
  The loop of \<open>levelwiseRepair\<close>. A run that does not leave the loop has the value
  \<open>None\<close>.
\<close>

partial_function (option) levelwiseRepair_loop ::
  "(seg list \<Rightarrow> seg list) \<Rightarrow> ((symbol \<times> symbol) list \<Rightarrow> (symbol \<times> symbol) list)
     \<Rightarrow> symbol list \<Rightarrow> grammar \<Rightarrow> nat list \<Rightarrow> (error + (symbol list \<times> grammar)) option" where
  "levelwiseRepair_loop ordI ordS w P ID =
     (if hasRepeatingPairs w
      then (case repetition w of
              Inl e \<Rightarrow> Some (Inl e)
            | Inr (w, P1) \<Rightarrow>
               (case arrangement ordI ordS w ID of
                  Inl e \<Rightarrow> Some (Inl e)
                | Inr (w, P2, ID) \<Rightarrow>
                    levelwiseRepair_loop ordI ordS w (AList.merge (AList.merge P P1) P2) ID))
      else Some (Inr (w, P)))"

declare levelwiseRepair_loop.simps [code]

definition levelwiseRepair ::
  "(seg list \<Rightarrow> seg list) \<Rightarrow> ((symbol \<times> symbol) list \<Rightarrow> (symbol \<times> symbol) list)
     \<Rightarrow> symbol list \<Rightarrow> (error + grammar) option" where
  "levelwiseRepair ordI ordS w =
     (case levelwiseRepair_loop ordI ordS w [] [] of
        None \<Rightarrow> None
      | Some (Inl e) \<Rightarrow> Some (Inl e)
      | Some (Inr (w, P)) \<Rightarrow>
          if length w = 1 then Some (Inr P)
          else Some (Inr (AList.merge P (produceTrivialGrammar w))))"

text \<open>
  \<open>getSakamotoGrammar\<close> is called on a Python string; \<open>list(w)\<close> turns it into the list
  of its characters, each a string of length one.
\<close>

definition getSakamotoGrammar ::
  "(seg list \<Rightarrow> seg list) \<Rightarrow> ((symbol \<times> symbol) list \<Rightarrow> (symbol \<times> symbol) list)
     \<Rightarrow> string \<Rightarrow> (error + grammar) option" where
  "getSakamotoGrammar ordI ordS S = levelwiseRepair ordI ordS (map (\<lambda>c. [c]) S)"

text \<open>The neighbouring segment that the loops over \<open>Left\<close> and \<open>Right\<close> look at.\<close>

fun neighbour :: "which \<Rightarrow> seg \<Rightarrow> seg" where
  "neighbour WLeft (x, y) = (x - 1, x)"
| "neighbour WRight (x, y) = (y, y + 1)"
| "neighbour WFree (x, y) = (x, y)"

text \<open>An index pair \<open>(k, k + 1)\<close> that names two adjacent symbols of \<open>w\<close>.\<close>

definition is_position :: "symbol list \<Rightarrow> seg \<Rightarrow> bool" where
  "is_position w x = (\<exists>k. x = (int k, int k + 1) \<and> k + 1 < length w)"

text \<open>An enumeration of a set lists exactly its elements.\<close>

definition enumerates :: "('a list \<Rightarrow> 'a list) \<Rightarrow> bool" where
  "enumerates ord = (\<forall>xs. set (ord xs) = set xs)"

section \<open>lehman1.py: the hierarchy and the grammar\<close>

text \<open>
  \<open>blumSmallestSuperstringAndBreaking\<close>: \<open>strings.remove(s)\<close> removes the first occurrence
  of \<open>s\<close> and raises \<open>ValueError\<close> when there is none; the dictionary of offsets is read
  with \<open>[]\<close>, which raises \<open>KeyError\<close> on a missing key.
\<close>

function blum_loop ::
  "string list \<Rightarrow> (string \<times> nat list) list \<Rightarrow> error + (string list \<times> (string \<times> nat list) list)" where
  "blum_loop strings substringSubstringIndices =
     (if length strings > 1 then
        (case pairWithMaximumOverlap strings of
           Inl e \<Rightarrow> Inl e
         | Inr (s1, s2) \<Rightarrow>
             if s1 \<notin> set strings then Inl ValueError
             else if s2 \<notin> set (remove1 s1 strings) then Inl ValueError
             else
               (let overlap = computeOverlap s1 s2;
                    new = take (fst (snd overlap)) s1 @ s2;
                    strings' = remove1 s2 (remove1 s1 strings) @ [new];
                    indices = (if has_key substringSubstringIndices new
                               then substringSubstringIndices
                               else AList.update new [] substringSubstringIndices)
                in case (map_of indices new, map_of indices s1, map_of indices s2) of
                     (Some old, Some i1, Some i2) \<Rightarrow>
                       blum_loop strings'
                         (AList.update new (old @ i1 @ map (\<lambda>i. i + fst (snd overlap)) i2) indices)
                   | _ \<Rightarrow> Inl KeyError))
      else Inr (strings, substringSubstringIndices))"
  by pat_completeness auto
termination
  apply (relation "measure (\<lambda>(strings, ix). length strings)")
   apply simp
  apply (auto simp: length_remove1)
  done

declare blum_loop.simps [simp del]

definition blumSmallestSuperstringAndBreaking :: "string list \<Rightarrow> error + string list" where
  "blumSmallestSuperstringAndBreaking Ss =
     (case blum_loop Ss (fold (\<lambda>s ix. AList.update s [0] ix) Ss []) of
        Inl e \<Rightarrow> Inl e
      | Inr (strings, substringSubstringIndices) \<Rightarrow>
          (case strings of
             [] \<Rightarrow> Inl IndexError
           | superstring # rest \<Rightarrow>
               (case map_of substringSubstringIndices superstring of
                  None \<Rightarrow> Inl KeyError
                | Some ix \<Rightarrow>
                    (let substringIndices = sort (remdups ([0] @ ix @ [length superstring]))
                     in Inr (map (\<lambda>(start, end). take (end - start) (drop start superstring))
                               (zip (butlast substringIndices) (tl substringIndices)))))))"
text \<open>
  \<open>generateCs\<close>: \<open>k\<close> starts at \<open>2 ** (int(math.ceil(math.log(n, 2))) - 1)\<close>. The
  logarithm is a floating-point computation, whose rounding is not fixed here: the integer
  \<open>int(math.ceil(math.log(n, 2)))\<close> is the parameter \<open>lg\<close> of the model, and the exact
  \<open>ceil_log2\<close> is the instance without rounding. When the exponent \<open>lg n - 1\<close> is negative
  (as for \<open>n = 1\<close>, where the logarithm is \<open>0.0\<close>), Python gets a float \<open>k\<close> below \<open>1\<close>, which
  like \<open>0\<close> does not enter the loop; for \<open>n = 0\<close> \<open>math.log\<close> raises \<open>ValueError\<close>.
\<close>

function ceil_log2 :: "nat \<Rightarrow> nat" where
  "ceil_log2 n = (if n \<le> 1 then 0 else 1 + ceil_log2 ((n + 1) div 2))"
  by pat_completeness auto
termination
  by (relation "measure (\<lambda>n. n)") auto

declare ceil_log2.simps [simp del]

function generateCs_loop :: "nat \<Rightarrow> string list list \<Rightarrow> error + string list list" where
  "generateCs_loop k Cs =
     (if k \<ge> 2 then
        (case blumSmallestSuperstringAndBreaking (last Cs) of
           Inl e \<Rightarrow> Inl e
         | Inr pk \<Rightarrow> generateCs_loop (k div 2) (Cs @ [splitTooBigs pk k]))
      else Inr Cs)"
  by pat_completeness auto
termination
  by (relation "measure (\<lambda>(k, Cs). k)") auto

declare generateCs_loop.simps [simp del]

definition generateCs :: "(nat \<Rightarrow> int) \<Rightarrow> string \<Rightarrow> error + string list list" where
  "generateCs lg S =
     (let n = length S
      in if n = 0 then Inl ValueError
         else generateCs_loop (if lg n - 1 < 0 then 0 else 2 ^ nat (lg n - 1)) [[S]])"

definition findPrefixStart :: "string \<Rightarrow> string list \<Rightarrow> error + nat" where
  "findPrefixStart s small_strings =
     (case List.find (\<lambda>i. s = take (length s) (concat (drop i small_strings)))
             [0 ..< length small_strings] of
        Some i \<Rightarrow> Inr i
      | None \<Rightarrow> Inl (Exception ''String not found as a prefix''))"

function findLongestPrefix_loop :: "string list \<Rightarrow> nat \<Rightarrow> nat \<Rightarrow> nat \<times> nat" where
  "findLongestPrefix_loop small_strings sPrefixEnd remSLen =
     (if sPrefixEnd < length small_strings \<and> length (small_strings ! sPrefixEnd) \<le> remSLen
      then findLongestPrefix_loop small_strings (sPrefixEnd + 1)
             (remSLen - length (small_strings ! sPrefixEnd))
      else (sPrefixEnd, remSLen))"
  by pat_completeness auto
termination
  by (relation "measure (\<lambda>(ss, e, r). length ss - e)") auto

declare findLongestPrefix_loop.simps [simp del]

definition findLongestPrefix :: "string \<Rightarrow> string list \<Rightarrow> error + (nat \<times> nat \<times> nat)" where
  "findLongestPrefix s small_strings =
     (case findPrefixStart s small_strings of
        Inl e \<Rightarrow> Inl e
      | Inr sPrefixStart \<Rightarrow>
          (case findLongestPrefix_loop small_strings sPrefixStart (length s) of
             (sPrefixEnd, remSLen) \<Rightarrow> Inr (sPrefixStart, sPrefixEnd, length s - remSLen)))"

text \<open>
  \<open>generateSubstringConstructionGrammar\<close> works on a list of strings. On the empty list
  the Python recursion never reaches its base case and ends in a \<open>RuntimeError\<close>.
\<close>

function recursiveCall :: "string list \<Rightarrow> grammar \<Rightarrow> error + grammar" where
  "recursiveCall S grammar =
     (if length S = 0 then Inl (Exception ''RuntimeError'')
      else if length S = 1 then Inr grammar
      else
        (let mid = length S div 2;
             grammar = fold (\<lambda>i grammar.
                               AList.update (concat (take (mid - i) (drop i S)))
                                 [S ! i, concat (take (mid - (i + 1)) (drop (i + 1) S))] grammar)
                            [0 ..< mid - 1] grammar;
             grammar = fold (\<lambda>i grammar.
                               AList.update (concat (take (i + 1 - mid) (drop mid S)))
                                 [concat (take (i - mid) (drop mid S)), S ! i] grammar)
                            [mid + 1 ..< length S] grammar
         in case recursiveCall (take mid S) grammar of
              Inl e \<Rightarrow> Inl e
            | Inr grammar \<Rightarrow> recursiveCall (drop mid S) grammar))"
  by pat_completeness auto
termination
proof (relation "measure (\<lambda>(S, g). length S)", goal_cases)
  case 1
  show ?case by simp
next
  case (2 S grammar mid g1 g2)
  from 2(1,2) have "2 \<le> length S" by arith
  with 2(3) show ?case by simp
next
  case (3 S grammar mid g1 g2 g3)
  from 3(1,2) have "2 \<le> length S" by arith
  with 3(3) show ?case by simp
qed

declare recursiveCall.simps [simp del]

definition generateSubstringConstructionGrammar :: "string list \<Rightarrow> error + grammar" where
  "generateSubstringConstructionGrammar S = recursiveCall S []"

text \<open>\<open>grammar[s].append(x)\<close>.\<close>

definition dict_append :: "grammar \<Rightarrow> symbol \<Rightarrow> symbol \<Rightarrow> error + grammar" where
  "dict_append grammar s x =
     (case map_of grammar s of
        None \<Rightarrow> Inl KeyError
      | Some rhs \<Rightarrow> Inr (AList.update s (rhs @ [x]) grammar))"

text \<open>
  The search for the split point in the case of three or more segments: the loop leaves
  \<open>half1\<close> and \<open>half2\<close> at the first split that passes the test, or at the last split
  tried.
\<close>

fun find_split :: "grammar \<Rightarrow> string list \<Rightarrow> nat \<Rightarrow> nat \<Rightarrow> nat list \<Rightarrow> (string \<times> string) option" where
  "find_split grammar C start end [] = None"
| "find_split grammar C start end (split # rest) =
     (let half1 = concat (take (split - start) (drop start C));
          half2 = concat (take (end - split) (drop split C))
      in if (split = start + 1 \<or> has_key grammar half1) \<and> (split = end - 1 \<or> has_key grammar half2)
         then Some (half1, half2)
         else (case find_split grammar C start end rest of
                 None \<Rightarrow> Some (half1, half2)
               | Some r \<Rightarrow> Some r))"

text \<open>The body of the loop \<open>for C in Cs[i+1:]\<close>, on the state \<open>(grammar, sRemainder)\<close>.\<close>

definition stitch_level :: "symbol \<Rightarrow> string list \<Rightarrow> grammar \<times> string \<Rightarrow> error + (grammar \<times> string)" where
  "stitch_level s C st =
     (case st of (grammar, sRemainder) \<Rightarrow>
       (case findLongestPrefix sRemainder C of
          Inl e \<Rightarrow> Inl e
        | Inr (start, end, used) \<Rightarrow>
            if start = end then Inr (grammar, sRemainder)
            else if start + 1 = end then
              (case dict_append grammar s (C ! start) of
                 Inl e \<Rightarrow> Inl e
               | Inr grammar \<Rightarrow> Inr (grammar, drop used sRemainder))
            else if start + 2 = end then
              (case dict_append grammar s (C ! start) of
                 Inl e \<Rightarrow> Inl e
               | Inr grammar \<Rightarrow>
                   (case dict_append grammar s (C ! (start + 1)) of
                      Inl e \<Rightarrow> Inl e
                    | Inr grammar \<Rightarrow> Inr (grammar, drop used sRemainder)))
            else
              (case find_split grammar C start end [start + 1 ..< end] of
                 None \<Rightarrow> Inl (Exception ''NameError'')
               | Some (half1, half2) \<Rightarrow>
                   (case dict_append grammar s half1 of
                      Inl e \<Rightarrow> Inl e
                    | Inr grammar \<Rightarrow>
                        (case dict_append grammar s half2 of
                           Inl e \<Rightarrow> Inl e
                         | Inr grammar \<Rightarrow> Inr (grammar, drop used sRemainder))))))"

text \<open>The body of the loop over the strings \<open>s = Cs[i][j]\<close>.\<close>

definition stitch_string :: "string list list \<Rightarrow> nat \<Rightarrow> symbol \<Rightarrow> grammar \<Rightarrow> error + grammar" where
  "stitch_string Cs i s grammar =
     (if length s = 1 then Inr grammar
      else
        (case fold_err (stitch_level s) (drop (i + 1) Cs) (AList.update s [] grammar, s) of
           Inl e \<Rightarrow> Inl e
         | Inr (grammar, sRemainder) \<Rightarrow>
             (case map_of grammar s of
                None \<Rightarrow> Inl KeyError
              | Some rhs \<Rightarrow> Inr (AList.update s (rhs @ map (\<lambda>c. [c]) sRemainder) grammar))))"

definition closure_violation :: "grammar \<Rightarrow> bool" where
  "closure_violation grammar =
     list_ex (\<lambda>(k, rhs). list_ex (\<lambda>v. length v > 1 \<and> \<not> has_key grammar v) rhs) grammar"

definition getLehman1Grammar :: "(nat \<Rightarrow> int) \<Rightarrow> string \<Rightarrow> error + grammar" where
  "getLehman1Grammar lg S =
     (case generateCs lg S of
        Inl e \<Rightarrow> Inl e
      | Inr Cs \<Rightarrow>
          (case fold_err (\<lambda>C grammar.
                            case generateSubstringConstructionGrammar C of
                              Inl e \<Rightarrow> Inl e
                            | Inr g \<Rightarrow> Inr (AList.merge grammar g))
                         (Cs @ [map (\<lambda>c. [c]) S]) [] of
             Inl e \<Rightarrow> Inl e
           | Inr grammar \<Rightarrow>
               (case fold_err (\<lambda>i grammar. fold_err (stitch_string Cs i) (Cs ! i) grammar)
                       [0 ..< length Cs] grammar of
                  Inl e \<Rightarrow> Inl e
                | Inr grammar \<Rightarrow>
                    if closure_violation grammar then Inl (Exception ''FUUU'')
                    else Inr grammar)))"

section \<open>exhaustive.py\<close>

function generateAllGrammars :: "string \<Rightarrow> grammar list" where
  "generateAllGrammars goal =
     (if length goal = 1 then [[]]
      else concat (map (\<lambda>i.
             concat (map (\<lambda>g.
               map (\<lambda>h. AList.merge (AList.merge [(goal, [take i goal, drop i goal])] h) g)
                   (generateAllGrammars (drop i goal)))
               (generateAllGrammars (take i goal))))
             [1 ..< length goal]))"
  by pat_completeness auto
termination
  by (relation "measure length") auto

declare generateAllGrammars.simps [simp del]

text \<open>
  \<open>stageCount\<close> follows the productions of \<open>G\<close>. The model gives its value where every
  symbol of a right-hand side is shorter than the left-hand side, as in every grammar the
  enumeration yields, and \<open>None\<close> where the recursion could go on for ever. \<open>max\<close> of an
  empty list raises \<open>ValueError\<close>.
\<close>

function stageCount :: "grammar \<Rightarrow> symbol \<Rightarrow> (error + nat) option" where
  "stageCount G s =
     (case map_of G s of
        None \<Rightarrow> Some (Inr 0)
      | Some rhs \<Rightarrow>
          if rhs = [] then Some (Inl ValueError)
          else if list_ex (\<lambda>t. length s \<le> length t) rhs then None
          else
            (let counts = map (\<lambda>t. if length t < length s then stageCount G t else None) rhs
             in if list_ex (\<lambda>c. c = None) counts then None
                else if list_ex (\<lambda>c. case c of Some (Inl e) \<Rightarrow> True | _ \<Rightarrow> False) counts
                  then Some (Inl ValueError)
                else Some (Inr (Max (set (map (\<lambda>c. case c of Some (Inr n) \<Rightarrow> n | _ \<Rightarrow> 0) counts)) + 1))))"
  by pat_completeness auto
termination
  by (relation "measure (\<lambda>(G, s). length s)") auto

declare stageCount.simps [simp del]

text \<open>
  \<open>getExhaustiveGrammar\<close>: \<open>min\<close> with a key returns the first element whose key is
  smallest, and raises \<open>ValueError\<close> on an empty list. The keys \<open>(len(G), stageCount(G, S))\<close>
  are compared lexicographically.
\<close>

fun keyed :: "symbol \<Rightarrow> grammar list \<Rightarrow> (error + (grammar \<times> nat \<times> nat) list) option" where
  "keyed S [] = Some (Inr [])"
| "keyed S (G # Gs) =
     (case stageCount G S of
        None \<Rightarrow> None
      | Some (Inl e) \<Rightarrow> Some (Inl e)
      | Some (Inr n) \<Rightarrow>
          (case keyed S Gs of
             None \<Rightarrow> None
           | Some (Inl e) \<Rightarrow> Some (Inl e)
           | Some (Inr ks) \<Rightarrow> Some (Inr ((G, length G, n) # ks))))"

definition first_min :: "(grammar \<times> nat \<times> nat) list \<Rightarrow> error + grammar" where
  "first_min ks =
     (case ks of
        [] \<Rightarrow> Inl ValueError
      | k # rest \<Rightarrow> Inr (fst (fold (\<lambda>c best. if snd c < snd best then c else best) rest k)))"

definition getExhaustiveGrammar :: "string \<Rightarrow> (error + grammar) option" where
  "getExhaustiveGrammar S =
     (case keyed S (generateAllGrammars S) of
        None \<Rightarrow> None
      | Some (Inl e) \<Rightarrow> Some (Inl e)
      | Some (Inr ks) \<Rightarrow> Some (first_min ks))"

section \<open>Expansion and acyclicity of a grammar\<close>

text \<open>
  Modelled from the spec: the expander, which the repository does not contain. A symbol of
  length at least two is replaced by its right-hand side until only single characters
  remain; a symbol of length at least two without a production is an unresolved
  nonterminal. The first argument bounds the depth of the derivation: \<open>None\<close> means that
  the bound was reached.
\<close>

fun expand :: "nat \<Rightarrow> grammar \<Rightarrow> symbol \<Rightarrow> (error + string) option"
  and expand_list :: "nat \<Rightarrow> grammar \<Rightarrow> symbol list \<Rightarrow> (error + string) option" where
  "expand 0 G s = None"
| "expand (Suc n) G s =
     (if length s < 2 then Some (Inr s)
      else (case map_of G s of
              None \<Rightarrow> Some (Inl (Exception ''UnresolvedNonterminal''))
            | Some rhs \<Rightarrow> expand_list n G rhs))"
| "expand_list n G [] = Some (Inr [])"
| "expand_list n G (x # xs) =
     (case expand n G x of
        None \<Rightarrow> None
      | Some (Inl e) \<Rightarrow> Some (Inl e)
      | Some (Inr a) \<Rightarrow>
          (case expand_list n G xs of
             None \<Rightarrow> None
           | Some (Inl e) \<Rightarrow> Some (Inl e)
           | Some (Inr b) \<Rightarrow> Some (Inr (a @ b))))"

text \<open>
  The relation of the acyclicity claim: \<open>N\<close> is a key of the grammar and \<open>M\<close>, of length at
  least two, is a symbol of its right-hand side.
\<close>

definition derives :: "grammar \<Rightarrow> (symbol \<times> symbol) set" where
  "derives G = {(N, M). \<exists>rhs. map_of G N = Some rhs \<and> M \<in> set rhs \<and> 2 \<le> length M}"

text \<open>
  A well-formed grammar: the symbols of every right-hand side are non-empty, there are at
  least two of them, their concatenation is the left-hand side, and every one of length at
  least two is a key.
\<close>

definition valid_grammar :: "grammar \<Rightarrow> bool" where
  "valid_grammar G =
     (\<forall>N rhs. map_of G N = Some rhs \<longrightarrow>
        concat rhs = N \<and> 2 \<le> length rhs
        \<and> (\<forall>M \<in> set rhs. M \<noteq> [] \<and> (2 \<le> length M \<longrightarrow> has_key G M)))"

definition binary_grammar :: "grammar \<Rightarrow> bool" where
  "binary_grammar G = (\<forall>N rhs. (N, rhs) \<in> set G \<longrightarrow> length rhs = 2)"

section \<open>Auxiliary notions for the proofs about Lehman1\<close>

text \<open>The string \<open>s\<close> occurs in \<open>x\<close> at offset \<open>o\<close>.\<close>

definition occurs_at :: "string \<Rightarrow> string \<Rightarrow> nat \<Rightarrow> bool" where
  "occurs_at s x off = (take (length s) (drop off x) = s)"

text \<open>
  The invariant of the merge loop of \<open>blumSmallestSuperstringAndBreaking\<close> on the input
  \<open>Ss\<close>: every string of the working list has offsets, every offset lies within its
  string, and every input string occurs in a string of the working list at one of its
  offsets.
\<close>

definition blum_inv :: "string list \<Rightarrow> string list \<Rightarrow> (string \<times> nat list) list \<Rightarrow> bool" where
  "blum_inv Ss strings ix =
     (strings \<noteq> []
      \<and> (\<forall>x \<in> set strings. has_key ix x)
      \<and> (\<forall>x offs. map_of ix x = Some offs \<longrightarrow> (\<forall>off \<in> set offs. off \<le> length x))
      \<and> (\<forall>s \<in> set Ss. \<exists>x \<in> set strings. \<exists>offs. map_of ix x = Some offs
              \<and> (\<exists>off \<in> set offs. occurs_at s x off)))"

text \<open>The pieces of \<open>x\<close> between consecutive offsets of the list \<open>si\<close>.\<close>

definition slices :: "string \<Rightarrow> nat list \<Rightarrow> string list" where
  "slices x si = map (\<lambda>(start, end). take (end - start) (drop start x)) (zip (butlast si) (tl si))"

text \<open>
  The test of \<open>findPrefixStart\<close>: \<open>s\<close> is a prefix of the concatenation of the strings of
  \<open>C\<close> from some position on.
\<close>

definition found_in :: "string \<Rightarrow> string list \<Rightarrow> bool" where
  "found_in s C = (\<exists>p < length C. take (length s) (concat (drop p C)) = s)"

text \<open>The concatenation of the strings \<open>C[a:b]\<close>.\<close>

definition seg_join :: "string list \<Rightarrow> nat \<Rightarrow> nat \<Rightarrow> string" where
  "seg_join C a b = concat (take (b - a) (drop a C))"

text \<open>
  The invariant of the hierarchy built by \<open>generateCs\<close>: every level is a non-empty list of
  non-empty strings, and every string of a level is found in the next level.
\<close>

definition levels_ok :: "string list list \<Rightarrow> bool" where
  "levels_ok Cs =
     (Cs \<noteq> []
      \<and> (\<forall>C \<in> set Cs. C \<noteq> [] \<and> (\<forall>t \<in> set C. t \<noteq> []))
      \<and> (\<forall>m. Suc m < length Cs \<longrightarrow> (\<forall>s \<in> set (Cs ! m). found_in s (Cs ! Suc m))))"

text \<open>
  The invariant of the grammar under construction: no key is listed twice, every
  production is sound (non-empty
  symbols whose concatenation is the key, a key of length at least two), has at least two
  symbols unless its key is still to be processed, and every symbol of length at least
  two is a key or is still to be processed. The set \<open>R\<close> holds the strings still to be
  processed.
\<close>

definition pre_valid :: "symbol set \<Rightarrow> grammar \<Rightarrow> bool" where
  "pre_valid R G =
     (distinct (map fst G)
      \<and> (\<forall>N rhs. map_of G N = Some rhs \<longrightarrow>
        concat rhs = N \<and> (\<forall>M \<in> set rhs. M \<noteq> []) \<and> 2 \<le> length N
        \<and> (2 \<le> length rhs \<or> N \<in> R)
        \<and> (\<forall>M \<in> set rhs. 2 \<le> length M \<longrightarrow> has_key G M \<or> M \<in> R)))"

text \<open>
  What the substring construction on \<open>C\<close> provides: every run of three or more strings
  of \<open>C\<close> has a split point whose two sides are single strings of \<open>C\<close> or keys.
\<close>

definition split_ok :: "string list \<Rightarrow> grammar \<Rightarrow> bool" where
  "split_ok C G =
     (\<forall>a b. a + 3 \<le> b \<and> b \<le> length C \<longrightarrow>
        (\<exists>m. a < m \<and> m < b
           \<and> (m = a + 1 \<or> has_key G (seg_join C a m))
           \<and> (m = b - 1 \<or> has_key G (seg_join C m b))))"

text \<open>The strings of the levels \<open>Cs[i:]\<close>.\<close>

definition pending :: "string list list \<Rightarrow> nat \<Rightarrow> symbol set" where
  "pending Cs i = \<Union> (set ` set (drop i Cs))"

text \<open>
  The invariant of the loop \<open>for C in Cs[i+1:]\<close> that builds the production of \<open>s\<close>, after
  the level \<open>C\<close>: the symbols appended so far and \<open>sRemainder\<close> make up \<open>s\<close>, every symbol
  is non-empty and, when of length at least two, a key or a string of a later level (the
  set \<open>L\<close>), no other production has changed since the grammar \<open>G0\<close>, and \<open>sRemainder\<close> is
  a prefix of a string of \<open>C\<close>.
\<close>

definition stitch_inv ::
  "symbol set \<Rightarrow> grammar \<Rightarrow> symbol \<Rightarrow> string list \<Rightarrow> grammar \<times> string \<Rightarrow> bool" where
  "stitch_inv L G0 s C st =
     (case st of (G, sRemainder) \<Rightarrow>
        distinct (map fst G)
        \<and> (\<exists>rhs. map_of G s = Some rhs \<and> concat rhs @ sRemainder = s
              \<and> (\<forall>M \<in> set rhs. M \<noteq> [] \<and> (2 \<le> length M \<longrightarrow> has_key G M \<or> M \<in> L))
              \<and> (2 \<le> length rhs \<or> set rhs \<subseteq> L))
        \<and> (\<forall>N. N \<noteq> s \<longrightarrow> map_of G N = map_of G0 N)
        \<and> (\<exists>t \<in> set C. \<exists>k \<le> length t. sRemainder = take k t))"

section \<open>Auxiliary notions for the proofs about Sakamoto\<close>

text \<open>
  A grammar of binary productions \<open>a @ b \<rightarrow> [a, b]\<close> with non-empty \<open>a\<close> and \<open>b\<close>, no key
  listed twice, in which every symbol of length at least two is a key or belongs to the
  set \<open>R\<close>.
\<close>

definition closed_over :: "symbol set \<Rightarrow> grammar \<Rightarrow> bool" where
  "closed_over R G =
     (distinct (map fst G)
      \<and> (\<forall>N rhs. map_of G N = Some rhs \<longrightarrow>
            (\<exists>a b. rhs = [a, b] \<and> a \<noteq> [] \<and> b \<noteq> [] \<and> a @ b = N
                \<and> (2 \<le> length a \<longrightarrow> has_key G a \<or> a \<in> R)
                \<and> (2 \<le> length b \<longrightarrow> has_key G b \<or> b \<in> R))))"

section \<open>Verified properties\<close>

subsection \<open>Bisection: the grammar is the recursive midpoint split\<close>

lemma recurse_distinct:
  "distinct (map fst g) \<Longrightarrow> distinct (map fst (recurse S g))"
proof (induction S g rule: recurse.induct)
  case (1 S g)
  show ?case
  proof (cases "length S \<le> 1")
    case True
    with "1.prems" show ?thesis by (simp add: recurse.simps)
  next
    case False
    let ?g1 = "AList.update S [take (length S div 2) S, drop (length S div 2) S] g"
    have d1: "distinct (map fst ?g1)" using "1.prems" by (rule distinct_update)
    have d2: "distinct (map fst (recurse (take (length S div 2) S) ?g1))"
      using "1.IH"(1) [OF False d1] .
    have "distinct (map fst (recurse (drop (length S div 2) S)
             (recurse (take (length S div 2) S) ?g1)))"
      using "1.IH"(2) [OF False d2] .
    with False show ?thesis by (subst recurse.simps) simp
  qed
qed

lemma recurse_map_of:
  "map_of (recurse S g) T =
     (if T \<in> bisection_substrings S \<and> 2 \<le> length T
      then Some [take (length T div 2) T, drop (length T div 2) T] else map_of g T)"
proof (induction S g arbitrary: T rule: recurse.induct)
  case (1 S g)
  show ?case
  proof (cases "length S \<le> 1")
    case True
    then show ?thesis
      by (subst recurse.simps, subst bisection_substrings.simps) auto
  next
    case False
    note IH1 = "1.IH"(1) [OF False]
    note IH2 = "1.IH"(2) [OF False]
    show ?thesis
      apply (subst recurse.simps, subst bisection_substrings.simps)
      using False
      apply (simp add: IH1 IH2 update_conv')
      done
  qed
qed

text \<open>
  C9: for every non-empty \<open>S\<close>, \<open>getBisectionGrammar S\<close> is exactly the grammar of the
  recursive floor-midpoint split: a string is a key iff it is met in the recursion and has
  length at least two, it is then mapped to its two halves, each key is stored once, and
  \<open>abababab\<close> gets exactly three productions.
\<close>

theorem bisection_is_midpoint_split:
  assumes "1 \<le> length S"
  shows "map_of (getBisectionGrammar S) = bisection_spec S
       \<and> distinct (map fst (getBisectionGrammar S))
       \<and> getBisectionGrammar ''abababab'' =
           [(''abababab'', [''abab'', ''abab'']), (''abab'', [''ab'', ''ab'']), (''ab'', [''a'', ''b''])]"
proof (intro conjI)
  show "map_of (getBisectionGrammar S) = bisection_spec S"
    by (rule ext) (simp add: getBisectionGrammar_def recurse_map_of bisection_spec_def)
  show "distinct (map fst (getBisectionGrammar S))"
    unfolding getBisectionGrammar_def by (rule recurse_distinct) simp
  show "getBisectionGrammar ''abababab'' =
           [(''abababab'', [''abab'', ''abab'']), (''abab'', [''ab'', ''ab'']), (''ab'', [''a'', ''b''])]"
    by (simp add: getBisectionGrammar_def recurse.simps)
qed

theorem bisection_is_midpoint_split_witness:
  "1 \<le> length ''ab''
   \<and> map_of (getBisectionGrammar ''ab'') = bisection_spec ''ab''
   \<and> distinct (map fst (getBisectionGrammar ''ab''))"
  using bisection_is_midpoint_split [of "''ab''"] by simp

subsection \<open>The greedy merge picks the last pair of maximum overlap\<close>

lemma fold_max_Max:
  fixes g :: "'a \<Rightarrow> 'b::linorder"
  shows "fold (\<lambda>x acc. max acc (g x)) xs a = Max (insert a (g ` set xs))"
proof (induction xs arbitrary: a)
  case Nil
  show ?case by simp
next
  case (Cons x xs)
  have "Max (insert (max a (g x)) (g ` set xs)) = Max (insert a (insert (g x) (g ` set xs)))"
  proof (cases "set xs = {}")
    case True
    then show ?thesis by (simp add: max.commute)
  next
    case False
    then show ?thesis by (simp add: max.assoc)
  qed
  then show ?case by (simp add: Cons.IH)
qed

lemma inner_Max:
  "fold (\<lambda>j max_overlap. max max_overlap (ovTriple Ss i j)) [i + 1 ..< n] a
     = Max (insert a (ovTriple Ss i ` {i + 1 ..< n}))"
  using fold_max_Max [of "ovTriple Ss i" "[i + 1 ..< n]" a] by simp

lemma Max_insert_Max:
  fixes A :: "'a::linorder set"
  assumes "finite A" "A \<noteq> {}" "finite B"
  shows "Max (insert (Max A) B) = Max (A \<union> B)"
proof (cases "B = {}")
  case True
  then show ?thesis by simp
next
  case False
  have "Max (A \<union> B) = max (Max A) (Max B)"
    using assms False by (intro Max_Un)
  moreover have "Max (insert (Max A) B) = max (Max A) (Max B)"
    using assms False by (simp add: Max_insert)
  ultimately show ?thesis by simp
qed

lemma outer_Max:
  "fold (\<lambda>i acc. Max (insert acc (ovTriple Ss i ` {i + 1 ..< n}))) is a
     = Max (insert a (\<Union>i \<in> set is. ovTriple Ss i ` {i + 1 ..< n}))"
proof (induction "is" arbitrary: a)
  case Nil
  show ?case by simp
next
  case (Cons i "is")
  let ?A = "ovTriple Ss i ` {i + 1 ..< n}"
  let ?B = "(\<Union>i \<in> set is. ovTriple Ss i ` {i + 1 ..< n})"
  have "Max (insert (Max (insert a ?A)) ?B) = Max (insert a ?A \<union> ?B)"
    by (rule Max_insert_Max) auto
  also have "insert a ?A \<union> ?B = insert a (\<Union>i \<in> set (i # is). ovTriple Ss i ` {i + 1 ..< n})"
    by auto
  finally show ?case by (simp only: fold_Cons o_apply Cons.IH)
qed

lemma maxOverlapTriple_Max:
  "maxOverlapTriple Ss =
     Max (insert (- 1, None, None)
            (\<Union>i \<in> {0 ..< length Ss}. ovTriple Ss i ` {i + 1 ..< length Ss}))"
  unfolding maxOverlapTriple_def ovTriple_def [symmetric] inner_Max
  using outer_Max [of Ss "length Ss" "[0 ..< length Ss]"] by simp


lemma ovTriple_le_iff:
  "ovTriple Ss i' j' \<le> ovTriple Ss i j \<longleftrightarrow>
     fst (computeOverlap (Ss ! i') (Ss ! j')) < fst (computeOverlap (Ss ! i) (Ss ! j))
     \<or> (fst (computeOverlap (Ss ! i') (Ss ! j')) = fst (computeOverlap (Ss ! i) (Ss ! j))
         \<and> (i' < i \<or> (i' = i \<and> j' \<le> j)))"
  by (auto simp: ovTriple_def less_eq_prod_def)

lemma ovTriple_mem:
  assumes "i < j" "j < n"
  shows "ovTriple Ss i j \<in> (\<Union>i \<in> {0 ..< n}. ovTriple Ss i ` {i + 1 ..< n})"
proof -
  have "i \<in> {0 ..< n}" and "j \<in> {i + 1 ..< n}" using assms by auto
  then show ?thesis by blast
qed

text \<open>
  C6 (as amended): on a list of at least two strings \<open>pairWithMaximumOverlap\<close> returns a
  pair of maximum overlap, and among the pairs of maximum overlap it returns the one whose
  index pair \<open>(i, j)\<close> is lexicographically greatest, that is the last one scanned.
\<close>

theorem pairWithMaximumOverlap_prefers_last:
  assumes "2 \<le> length Ss"
  shows "\<exists>i j. i < j \<and> j < length Ss
           \<and> pairWithMaximumOverlap Ss = Inr (Ss ! i, Ss ! j)
           \<and> (\<forall>i' j'. i' < j' \<and> j' < length Ss \<longrightarrow>
                 fst (computeOverlap (Ss ! i') (Ss ! j')) < fst (computeOverlap (Ss ! i) (Ss ! j))
                 \<or> (fst (computeOverlap (Ss ! i') (Ss ! j')) = fst (computeOverlap (Ss ! i) (Ss ! j))
                     \<and> (i' < i \<or> (i' = i \<and> j' \<le> j))))"
proof -
  let ?n = "length Ss"
  let ?P = "(\<Union>i \<in> {0 ..< ?n}. ovTriple Ss i ` {i + 1 ..< ?n})"
  let ?A = "insert (- 1, None, None) ?P"
  have fin: "finite ?A" by auto
  have mem: "Max ?A \<in> ?A" using fin by (intro Max_in) auto
  have in01: "ovTriple Ss 0 1 \<in> ?P" using assms by (intro ovTriple_mem) auto
  have "(- 1, None, None) < ovTriple Ss 0 1"
    by (simp add: ovTriple_def less_prod_def)
  moreover have "ovTriple Ss 0 1 \<le> Max ?A" using fin in01 by (intro Max_ge) auto
  ultimately have "Max ?A \<noteq> (- 1, None, None)" by auto
  with mem have "Max ?A \<in> ?P" by blast
  then obtain i j where ij: "i < j" "j < ?n" and eq: "Max ?A = ovTriple Ss i j"
    by (auto simp: Suc_le_eq)
  have top: "maxOverlapTriple Ss = ovTriple Ss i j"
    using eq by (simp only: maxOverlapTriple_Max)
  have res: "pairWithMaximumOverlap Ss = Inr (Ss ! i, Ss ! j)"
    by (simp add: pairWithMaximumOverlap_def top ovTriple_def)
  have "\<forall>i' j'. i' < j' \<and> j' < ?n \<longrightarrow> ovTriple Ss i' j' \<le> ovTriple Ss i j"
  proof (intro allI impI)
    fix i' j' assume h: "i' < j' \<and> j' < ?n"
    then have "ovTriple Ss i' j' \<in> ?P" by (intro ovTriple_mem) auto
    then have "ovTriple Ss i' j' \<in> ?A" by (rule insertI2)
    then have "ovTriple Ss i' j' \<le> Max ?A" using fin by (intro Max_ge)
    then show "ovTriple Ss i' j' \<le> ovTriple Ss i j" by (simp only: eq)
  qed
  then show ?thesis using ij res unfolding ovTriple_le_iff by blast
qed

theorem pairWithMaximumOverlap_prefers_last_witness:
  "2 \<le> length [''ab'', ''cd'', ''ef''] \<and>
   (\<exists>i j. i < j \<and> j < length [''ab'', ''cd'', ''ef'']
           \<and> pairWithMaximumOverlap [''ab'', ''cd'', ''ef''] = Inr ([''ab'', ''cd'', ''ef''] ! i, [''ab'', ''cd'', ''ef''] ! j))"
  using pairWithMaximumOverlap_prefers_last [of "[''ab'', ''cd'', ''ef'']"] by auto

text \<open>
  C6 as stated fails: all pairs of \<open>ab\<close>, \<open>cd\<close>, \<open>ef\<close> have overlap 0, the first pair
  scanned is \<open>(ab, cd)\<close>, and the pair returned is \<open>(cd, ef)\<close>.
\<close>

theorem pairWithMaximumOverlap_first_found_counterexample:
  "fst (computeOverlap ''ab'' ''cd'') = fst (computeOverlap ''cd'' ''ef'')
   \<and> pairWithMaximumOverlap [''ab'', ''cd'', ''ef''] = Inr (''cd'', ''ef'')
   \<and> pairWithMaximumOverlap [''ab'', ''cd'', ''ef''] \<noteq> Inr (''ab'', ''cd'')"
  by (simp add: pairWithMaximumOverlap_def maxOverlapTriple_def computeOverlap_def
        less_eq_prod_def max_def upt_rec)

subsection \<open>\<open>splitTooBigs\<close> splits once\<close>

text \<open>
  C7 as stated fails: with threshold 1 the string \<open>ghij\<close> is split once, and its half
  \<open>gh\<close> is longer than the threshold.
\<close>

theorem splitTooBigs_not_repeated_counterexample:
  "''gh'' \<in> set (splitTooBigs [''ghij''] 1) \<and> \<not> length ''gh'' \<le> 1"
  by simp

text \<open>
  C7 (as amended): \<open>splitTooBigs\<close> splits each string longer than \<open>k\<close> once at its floor
  midpoint and does not split again. The result is the concatenation, in the order of \<open>L\<close>,
  of the two halves \<open>s[:len(s)/2]\<close>, \<open>s[len(s)/2:]\<close> for each string \<open>s\<close> longer than \<open>k\<close> and
  of \<open>s\<close> itself for each other string; if no input string is longer than \<open>2 * k\<close>, every
  string of the result has length at most \<open>k\<close>.
\<close>

theorem splitTooBigs_once:
  "splitTooBigs L k
     = concat (map (\<lambda>s. if k < length s
                          then [take (length s div 2) s, drop (length s div 2) s]
                          else [s]) L)
   \<and> ((\<forall>s \<in> set L. length s \<le> 2 * k) \<longrightarrow> (\<forall>t \<in> set (splitTooBigs L k). length t \<le> k))"
proof (induction L)
  case Nil
  show ?case by simp
next
  case (Cons s L)
  show ?case
  proof (cases "k < length s")
    case True
    have c: "length (take (length s div 2) s) \<le> k" "length (drop (length s div 2) s) \<le> k"
      if "length s \<le> 2 * k" using that by auto
    show ?thesis using True Cons.IH c
      by (simp del: length_take length_drop)
  next
    case False
    with Cons.IH show ?thesis by auto
  qed
qed

theorem splitTooBigs_once_witness:
  "list_all (\<lambda>s. length s \<le> 2 * 2) [''ab'', ''def'', ''ghij'']
   \<and> list_all (\<lambda>t. length t \<le> 2) (splitTooBigs [''ab'', ''def'', ''ghij''] 2)"
  using splitTooBigs_once [of "[''ab'', ''def'', ''ghij'']" 2] by (simp add: list_all_iff)

subsection \<open>Sakamoto: empty input and the classification of occurrences\<close>

text \<open>
  C10: on the empty string neither \<open>getBisectionGrammar\<close> nor \<open>getSakamotoGrammar\<close> raises
  an error, and both return the empty grammar, whatever the iteration order of the sets.
\<close>

theorem empty_input_gives_empty_grammar:
  "getBisectionGrammar '''' = [] \<and> getSakamotoGrammar ordI ordS '''' = Some (Inr [])"
  by (simp add: getBisectionGrammar_def recurse.simps getSakamotoGrammar_def levelwiseRepair_def
      levelwiseRepair_loop.simps hasRepeatingPairs_def adjacent_def produceTrivialGrammar_def)

text \<open>
  C8 fails on the code: \<open>make_sets\<close> tests \<open>i - 1 > 0\<close>, so the occurrence at index 1 is
  never left-fixed. In \<open>w = a b c a b\<close>, when the pair \<open>bc\<close> is classified the segment
  \<open>w[0..1]\<close> has the id 0, and the occurrence \<open>(1, 2)\<close> lands in \<open>Right\<close>, not in \<open>Left\<close>.
\<close>

theorem make_sets_index_one_not_left:
  "has_key ([((0, 1), 0), ((3, 4), 0), ((2, 3), 2)] :: ids) (1 - 1, 1)
   \<and> make_sets (\<lambda>C. C) [''a'', ''b'', ''c'', ''a'', ''b''] [(1, 2)] [] [] []
        [((0, 1), 0), ((3, 4), 0), ((2, 3), 2)] = ([], [], [(1, 2)])"
  by (simp add: make_sets_def has_key_def set_add_def)

subsection \<open>Sakamoto: every round of the loop shortens the sequence\<close>

lemma produceRepeatingSymbolGrammar_ok:
  "2 \<le> length S \<Longrightarrow> \<exists>P'. produceRepeatingSymbolGrammar P S = Inr P'"
proof (induction P S rule: produceRepeatingSymbolGrammar.induct)
  case (1 P S)
  show ?case
  proof (cases "length S = 2")
    case True
    then show ?thesis by (subst produceRepeatingSymbolGrammar.simps) simp
  next
    case False
    with "1.prems" have len: "\<not> length S < 2" "length S \<noteq> 2" "3 \<le> length S" by auto
    show ?thesis
    proof (cases "length S mod 2 = 0")
      case True
      let ?P1 = "AList.update S [take (length S div 2) S, drop (length S div 2) S] P"
      have l1: "2 \<le> length (take (length S div 2) S)" using len True by auto
      have l2: "2 \<le> length (drop (length S div 2) S)" using len True by auto
      from "1.IH"(1) [OF len(1,2) True l1]
      obtain P1 where P1: "produceRepeatingSymbolGrammar ?P1 (take (length S div 2) S) = Inr P1"
        by blast
      from "1.IH"(2) [OF len(1,2) True P1 l2]
      obtain P2 where P2: "produceRepeatingSymbolGrammar P1 (drop (length S div 2) S) = Inr P2"
        by blast
      show ?thesis using len True P1 P2 by (subst produceRepeatingSymbolGrammar.simps) simp
    next
      case odd: False
      have l1: "2 \<le> length (take (length S - 1) S)" using len by auto
      from "1.IH"(3) [OF len(1,2) odd l1] show ?thesis
        using len odd by (subst produceRepeatingSymbolGrammar.simps) simp
    qed
  qed
qed

lemma length_concat_replicate: "length (concat (replicate n xs)) = n * length xs"
  by (induction n) auto

lemma repetition_loop_ok:
  "\<forall>s \<in> set w. s \<noteq> [] \<Longrightarrow>
   \<exists>w' P'. repetition_loop w P = Inr (w', P') \<and> length w' \<le> length w \<and> (\<forall>s \<in> set w'. s \<noteq> [])"
proof (induction w P rule: repetition_loop.induct)
  case (1 w P)
  show ?case
  proof (cases "hasRepeatingSymbol w")
    case None
    then show ?thesis using "1.prems" by (subst repetition_loop.simps) simp
  next
    case (Some ij)
    obtain i j where ij: "ij = (i, j)" by (cases ij)
    with Some have b: "i < j" "j < length w" using hasRepeatingSymbol_bounds [of w i j] by auto
    let ?A = "concat (replicate (j - i + 1) (w ! i))"
    have "w ! i \<in> set w" using b by simp
    then have ne: "w ! i \<noteq> []" using "1.prems" by blast
    then have "1 \<le> length (w ! i)" by (cases "w ! i") auto
    moreover have "2 \<le> j - i + 1" using b by simp
    ultimately have "2 * 1 \<le> (j - i + 1) * length (w ! i)" by (intro mult_le_mono)
    then have lenA: "2 \<le> length ?A" by (simp add: length_concat_replicate)
    then obtain P' where P': "produceRepeatingSymbolGrammar P ?A = Inr P'"
      using produceRepeatingSymbolGrammar_ok by blast
    have Ane: "?A \<noteq> []" using lenA by auto
    have sub: "set (collapse_run w i j) \<subseteq> insert ?A (set w)"
      unfolding collapse_run_def using set_take_subset [of i w] set_drop_subset [of "j + 1" w] by auto
    have ne': "\<forall>s \<in> set (collapse_run w i j). s \<noteq> []"
    proof
      fix s assume "s \<in> set (collapse_run w i j)"
      with sub have "s = ?A \<or> s \<in> set w" by (meson insertE subsetD)
      then show "s \<noteq> []" using Ane "1.prems" by (elim disjE) simp_all
    qed
    have lenc: "length (collapse_run w i j) \<le> length w"
      using b by (simp add: collapse_run_def)
    from "1.IH" [OF Some ij [symmetric] P' ne']
    obtain w' P'' where r: "repetition_loop (collapse_run w i j) P' = Inr (w', P'')"
      "length w' \<le> length (collapse_run w i j)" "\<forall>s \<in> set w'. s \<noteq> []" by blast
    show ?thesis using Some ij P' r lenc by (subst repetition_loop.simps) simp
  qed
qed

lemma has_key_update: "has_key (AList.update k v A) k' \<longleftrightarrow> k' = k \<or> has_key A k'"
  by (simp add: has_key_def update_conv')

lemma has_key_iff: "has_key A k \<longleftrightarrow> k \<in> fst ` set A"
  by (simp add: has_key_def map_of_eq_None_iff)

lemma subgroup_ok: "has_key assignments a \<Longrightarrow> \<exists>v. subgroup a assignments D = Inr v"
  by (auto simp: subgroup_def has_key_def split: prod.splits)

lemma group_contents_fold_ok:
  assumes "has_key assignments seg" "set xs \<subseteq> set assignments" "has_key assignments o1"
  shows "\<exists>o2. fold_err (\<lambda>(x, y) otherseg.
                       if fst x = fst seg \<and> snd x = snd seg
                       then (case map_of assignments seg of
                               None \<Rightarrow> Inl KeyError
                             | Some v \<Rightarrow> if y \<noteq> v then Inr x else Inr otherseg)
                       else Inr otherseg) xs o1 = Inr o2 \<and> has_key assignments o2"
  using assms
proof (induction xs arbitrary: o1)
  case Nil
  then show ?case by simp
next
  case (Cons p xs)
  obtain x y where p: "p = (x, y)" by (cases p)
  from Cons.prems(1) obtain v where v: "map_of assignments seg = Some v" by (auto simp: has_key_def)
  have hx: "has_key assignments x" using Cons.prems(2) p by (force simp: has_key_iff)
  have sub: "set xs \<subseteq> set assignments" using Cons.prems(2) by simp
  let ?f = "\<lambda>(x, y) otherseg.
                       if fst x = fst seg \<and> snd x = snd seg
                       then (case map_of assignments seg of
                               None \<Rightarrow> Inl KeyError
                             | Some v \<Rightarrow> if y \<noteq> v then Inr x else Inr otherseg)
                       else Inr otherseg"
  define o' where "o' = (if fst x = fst seg \<and> snd x = snd seg \<and> y \<noteq> v then x else o1)"
  have o': "?f p o1 = Inr o'" "has_key assignments o'"
    using hx Cons.prems(3) by (simp_all add: p v o'_def)
  from Cons.IH [OF Cons.prems(1) sub o'(2)] o'(1) show ?case
    by (simp only: fold_err.simps sum.case)
qed

lemma group_contents_ok:
  assumes "has_key assignments seg"
  shows "\<exists>v. group_contents seg w assignments dictionary = Inr v"
proof -
  from group_contents_fold_ok [OF assms subset_refl assms]
  obtain o2 where o2: "fold_err (\<lambda>(x, y) otherseg.
                       if fst x = fst seg \<and> snd x = snd seg
                       then (case map_of assignments seg of
                               None \<Rightarrow> Inl KeyError
                             | Some v \<Rightarrow> if y \<noteq> v then Inr x else Inr otherseg)
                       else Inr otherseg) assignments seg = Inr o2" "has_key assignments o2"
    by blast
  from subgroup_ok [OF o2(2)] obtain v where "subgroup o2 assignments dictionary = Inr v" by blast
  with o2(1) show ?thesis by (simp add: group_contents_def)
qed

lemma check_all_ok:
  assumes "a \<noteq> WFree" "\<forall>p \<in> set X. has_key assignments (neighbour a p)"
  shows "\<exists>v. check_all a X assignments dictionary = Inr v"
  using assms
proof (induction X)
  case Nil
  show ?case by simp
next
  case (Cons p X)
  obtain x y where p: "p = (x, y)" by (cases p)
  have "has_key assignments (neighbour a (x, y))" using Cons.prems p by simp
  then obtain v where v: "subgroup (neighbour a (x, y)) assignments dictionary = Inr v"
    using subgroup_ok by blast
  from Cons have IH: "\<exists>v. check_all a X assignments dictionary = Inr v" by simp
  show ?case using Cons.prems(1) v IH p by (cases a) auto
qed

lemma assign_fixed_ok:
  assumes a: "a \<noteq> WFree" and nb: "has_key assignments nb"
    and X: "\<forall>p \<in> set X. has_key assignments (neighbour a p)"
  shows "\<exists>A' D'. assign_fixed a X d1 d2 w dictionary nb seq (assignments, D) = Inr (A', D')
           \<and> (\<forall>k. has_key assignments k \<longrightarrow> has_key A' k)
           \<and> fst ` set D' \<subseteq> insert seq (fst ` set D)
           \<and> fst ` set D \<subseteq> fst ` set D'"
proof -
  obtain v1 where v1: "subgroup nb assignments dictionary = Inr v1"
    using subgroup_ok [OF nb] by blast
  define A1 where "A1 = (if v1 = Irregular then AList.update seq d2 assignments else assignments)"
  have m1: "\<forall>k. has_key assignments k \<longrightarrow> has_key A1 k"
    by (simp add: A1_def has_key_update)
  obtain v2 where v2: "subgroup nb A1 dictionary = Inr v2"
    using subgroup_ok [of A1 nb] m1 nb by blast
  define A2 where "A2 = (if v2 = Unselected then AList.update seq d1 A1 else A1)"
  define D2 where "D2 = (if v2 = Unselected then AList.update seq d1 D else D)"
  have m2: "\<forall>k. has_key assignments k \<longrightarrow> has_key A2 k"
    using m1 by (simp add: A2_def has_key_update)
  have dD2: "fst ` set D2 \<subseteq> insert seq (fst ` set D)" "fst ` set D \<subseteq> fst ` set D2"
    by (auto simp: D2_def dom_update)
  obtain v3 where v3: "subgroup nb A2 dictionary = Inr v3"
    using subgroup_ok [of A2 nb] m2 nb by blast
  obtain g where g: "group_contents nb w A2 dictionary = Inr g"
    using group_contents_ok [of A2 nb] m2 nb by blast
  have "\<forall>p \<in> set X. has_key A2 (neighbour a p)" using X m2 by blast
  then obtain c where c: "check_all a X A2 dictionary = Inr c"
    using check_all_ok [OF a] by blast
  define A3 where "A3 =
     (if v3 = Selected then
        (if g = Irregular then AList.update seq d2 A2
         else if g = Unselected then AList.update seq d1 A2
         else if c = Irregular then AList.update seq d2 A2 else AList.update seq d1 A2)
      else A2)"
  have m3: "\<forall>k. has_key assignments k \<longrightarrow> has_key A3 k"
    using m2 by (simp add: A3_def has_key_update)
  have "assign_fixed a X d1 d2 w dictionary nb seq (assignments, D) = Inr (A3, D2)"
    unfolding assign_fixed_def
    by (simp add: v1 Let_def A1_def [symmetric] v2 A2_def [symmetric] D2_def [symmetric] v3 g c A3_def)
  with m3 dD2 show ?thesis by blast
qed

lemma assign_loop_ok:
  assumes a: "a \<noteq> WFree"
    and X: "\<forall>p \<in> set X. has_key A (neighbour a p)"
    and xs: "\<forall>p \<in> set xs. has_key A (nbf p)"
  shows "\<exists>A' D'. fold_err (\<lambda>p st. assign_fixed a X d1 d2 w dictionary (nbf p) (sqf p) st) xs (A, D)
                   = Inr (A', D')
           \<and> (\<forall>k. has_key A k \<longrightarrow> has_key A' k)
           \<and> fst ` set D' \<subseteq> fst ` set D \<union> sqf ` set xs
           \<and> fst ` set D \<subseteq> fst ` set D'"
  using X xs
proof (induction xs arbitrary: A D)
  case Nil
  show ?case by simp
next
  case (Cons p xs)
  have nb: "has_key A (nbf p)" using Cons.prems(2) by simp
  from assign_fixed_ok [OF a nb Cons.prems(1), of d1 d2 w dictionary "sqf p" D]
  obtain A1 D1 where s1: "assign_fixed a X d1 d2 w dictionary (nbf p) (sqf p) (A, D) = Inr (A1, D1)"
    and m1: "\<forall>k. has_key A k \<longrightarrow> has_key A1 k"
    and d1: "fst ` set D1 \<subseteq> insert (sqf p) (fst ` set D)" "fst ` set D \<subseteq> fst ` set D1"
    by blast
  have X1: "\<forall>p \<in> set X. has_key A1 (neighbour a p)" using Cons.prems(1) m1 by blast
  have xs1: "\<forall>p \<in> set xs. has_key A1 (nbf p)" using Cons.prems(2) m1 by (meson list.set_intros(2))
  from Cons.IH [OF X1 xs1, of D1]
  obtain A' D' where r: "fold_err (\<lambda>p st. assign_fixed a X d1 d2 w dictionary (nbf p) (sqf p) st) xs (A1, D1)
                   = Inr (A', D')"
    and m: "\<forall>k. has_key A1 k \<longrightarrow> has_key A' k"
    and d: "fst ` set D' \<subseteq> fst ` set D1 \<union> sqf ` set xs" "fst ` set D1 \<subseteq> fst ` set D'"
    by blast
  have "fold_err (\<lambda>p st. assign_fixed a X d1 d2 w dictionary (nbf p) (sqf p) st) (p # xs) (A, D)
          = Inr (A', D')"
    using s1 r by simp
  moreover have "\<forall>k. has_key A k \<longrightarrow> has_key A' k" using m1 m by blast
  moreover have "fst ` set D' \<subseteq> fst ` set D \<union> sqf ` set (p # xs)"
  proof -
    have "D' \<subseteq> D0 \<union> insert q S" if "D' \<subseteq> D1 \<union> S" "D1 \<subseteq> insert q D0"
      for D' D1 D0 S :: "seg set" and q
      using that by blast
    from this [OF d(1) d1(1)] show ?thesis by (simp only: list.set image_insert)
  qed
  moreover have "fst ` set D \<subseteq> fst ` set D'" using d1(2) d(2) by (rule subset_trans)
  ultimately show ?case by blast
qed

lemma assign_free_fold:
  "\<exists>A' D'. fold (\<lambda>x (assignments, D). (AList.update x d1 assignments, AList.update x d1 D)) xs (A, D0)
             = (A', D')
     \<and> (\<forall>k. has_key A k \<longrightarrow> has_key A' k)
     \<and> fst ` set D' = fst ` set D0 \<union> set xs"
proof (induction xs arbitrary: A D0)
  case Nil
  show ?case by simp
next
  case (Cons x xs)
  from Cons.IH [of "AList.update x d1 A" "AList.update x d1 D0"]
  show ?case by (auto simp: has_key_update dom_update)
qed

lemma assignment_ok:
  assumes L: "\<forall>p \<in> set (ordI LeftS). has_key A (neighbour WLeft p)"
    and R: "\<forall>p \<in> set (ordI RightS). has_key A (neighbour WRight p)"
  shows "\<exists>A' D'. assignment ordI X FreeS LeftS RightS A d1 d2 w dictionary = Inr (A', D')
           \<and> (\<forall>k. has_key A k \<longrightarrow> has_key A' k)
           \<and> fst ` set D' \<subseteq> set (ordI FreeS) \<union> set (ordI LeftS)
                 \<union> (\<lambda>p. (fst p, fst p + 1)) ` set (ordI RightS)
           \<and> (X = WFree \<longrightarrow> fst ` set D' = set (ordI FreeS))"
proof (cases X)
  case WFree
  from assign_free_fold [of d1 "ordI FreeS" A "[]"]
  obtain A' D' where
    "fold (\<lambda>x (assignments, D). (AList.update x d1 assignments, AList.update x d1 D)) (ordI FreeS) (A, [])
             = (A', D')" "\<forall>k. has_key A k \<longrightarrow> has_key A' k" "fst ` set D' = set (ordI FreeS)"
    by auto
  then show ?thesis using WFree by (auto simp: assignment_def)
next
  case WLeft
  have eq: "(\<lambda>(x, y) st. assign_fixed WLeft (ordI LeftS) d1 d2 w dictionary (x - 1, x) (x, y) st)
          = (\<lambda>p st. assign_fixed WLeft (ordI LeftS) d1 d2 w dictionary (neighbour WLeft p) ((\<lambda>p. p) p) st)"
    by (auto simp: fun_eq_iff)
  from assign_loop_ok [of WLeft "ordI LeftS" A "ordI LeftS" "neighbour WLeft" d1 d2 w dictionary "\<lambda>p. p" "[]"] L
  obtain A' D' where
    "fold_err (\<lambda>p st. assign_fixed WLeft (ordI LeftS) d1 d2 w dictionary (neighbour WLeft p) ((\<lambda>p. p) p) st)
        (ordI LeftS) (A, []) = Inr (A', D')"
    "\<forall>k. has_key A k \<longrightarrow> has_key A' k" "fst ` set D' \<subseteq> set (ordI LeftS)"
    by auto
  then show ?thesis using WLeft by (auto simp: assignment_def eq)
next
  case WRight
  have eq: "(\<lambda>(x, y) st. assign_fixed WRight (ordI RightS) d1 d2 w dictionary (y, y + 1) (x, x + 1) st)
          = (\<lambda>p st. assign_fixed WRight (ordI RightS) d1 d2 w dictionary (neighbour WRight p)
                      ((\<lambda>p. (fst p, fst p + 1)) p) st)"
    by (auto simp: fun_eq_iff)
  from assign_loop_ok [of WRight "ordI RightS" A "ordI RightS" "neighbour WRight" d1 d2 w dictionary
      "\<lambda>p. (fst p, fst p + 1)" "[]"] R
  obtain A' D' where
    "fold_err (\<lambda>p st. assign_fixed WRight (ordI RightS) d1 d2 w dictionary (neighbour WRight p)
                      ((\<lambda>p. (fst p, fst p + 1)) p) st)
        (ordI RightS) (A, []) = Inr (A', D')"
    "\<forall>k. has_key A k \<longrightarrow> has_key A' k"
    "fst ` set D' \<subseteq> (\<lambda>p. (fst p, fst p + 1)) ` set (ordI RightS)"
    by auto
  then show ?thesis using WRight by (auto simp: assignment_def eq)
qed

lemma set_set_add: "set (set_add x xs) = insert x (set xs)"
  by (auto simp: set_add_def)

lemma make_set_c_fold:
  "set (fold (\<lambda>i C. if (w ! i, w ! (i + 1)) = seg then set_add (int i, int i + 1) C else C) xs C0)
     = set C0 \<union> (\<lambda>i. (int i, int i + 1)) ` {i \<in> set xs. (w ! i, w ! (i + 1)) = seg}"
  by (induction xs arbitrary: C0) (auto simp: set_set_add)

lemma set_make_set_c:
  "set (make_set_c seg w) = (\<lambda>i. (int i, int i + 1)) ` {i. i < length w - 1 \<and> (w ! i, w ! (i + 1)) = seg}"
  unfolding make_set_c_def make_set_c_fold by auto

lemma make_set_c_positions:
  assumes "x \<in> set (make_set_c seg w)"
  shows "is_position w x \<and> snd x = fst x + 1"
  using assms unfolding set_make_set_c is_position_def by auto

lemma make_set_c_nonempty:
  assumes "seg \<in> set (adjacent w)"
  shows "set (make_set_c seg w) \<noteq> {}"
  using assms unfolding set_make_set_c adjacent_def by auto

lemma make_sets_props:
  assumes "make_sets (\<lambda>C. xs) w C F0 L0 R0 A = (F, L, R)"
  shows "set F \<union> set L \<union> set R = set F0 \<union> set L0 \<union> set R0 \<union> set xs
    \<and> ((\<forall>i \<in> set L0. has_key A (fst i - 1, fst i)) \<longrightarrow> (\<forall>i \<in> set L. has_key A (fst i - 1, fst i)))
    \<and> ((\<forall>i \<in> set R0. has_key A (fst i + 1, fst i + 2)) \<longrightarrow> (\<forall>i \<in> set R. has_key A (fst i + 1, fst i + 2)))
    \<and> (A = [] \<longrightarrow> set F = set F0 \<union> set xs)"
  using assms
proof (induction xs arbitrary: F0 L0 R0)
  case Nil
  then show ?case by (simp add: make_sets_def)
next
  case (Cons i xs)
  let ?cl = "fst i - 1 > 0 \<and> has_key A (fst i - 1, fst i)"
  let ?cr = "fst i + 2 < int (length w) \<and> has_key A (fst i + 1, fst i + 2)"
  define F1 where "F1 = (if \<not> ?cl \<and> \<not> ?cr then set_add i F0 else F0)"
  define L1 where "L1 = (if ?cl then set_add i L0 else L0)"
  define R1 where "R1 = (if \<not> ?cl \<and> ?cr then set_add i R0 else R0)"
  have step: "make_sets (\<lambda>C. i # xs) w C F0 L0 R0 A = make_sets (\<lambda>C. xs) w C F1 L1 R1 A"
    by (simp add: make_sets_def F1_def L1_def R1_def)
  with Cons.prems have "make_sets (\<lambda>C. xs) w C F1 L1 R1 A = (F, L, R)" by simp
  from Cons.IH [OF this]
  have 1: "set F \<union> set L \<union> set R = set F1 \<union> set L1 \<union> set R1 \<union> set xs"
    and 2: "(\<forall>i \<in> set L1. has_key A (fst i - 1, fst i)) \<longrightarrow> (\<forall>i \<in> set L. has_key A (fst i - 1, fst i))"
    and 3: "(\<forall>i \<in> set R1. has_key A (fst i + 1, fst i + 2)) \<longrightarrow> (\<forall>i \<in> set R. has_key A (fst i + 1, fst i + 2))"
    and 4: "A = [] \<longrightarrow> set F = set F1 \<union> set xs"
    by blast+
  have a: "set F \<union> set L \<union> set R = set F0 \<union> set L0 \<union> set R0 \<union> set (i # xs)"
    using 1 by (auto simp: F1_def L1_def R1_def set_set_add split: if_splits)
  have b: "(\<forall>i \<in> set L0. has_key A (fst i - 1, fst i)) \<longrightarrow> (\<forall>i \<in> set L. has_key A (fst i - 1, fst i))"
  proof -
    have "(\<forall>i \<in> set L0. has_key A (fst i - 1, fst i)) \<longrightarrow> (\<forall>i \<in> set L1. has_key A (fst i - 1, fst i))"
      by (simp add: L1_def set_set_add)
    with 2 show ?thesis by blast
  qed
  have c: "(\<forall>i \<in> set R0. has_key A (fst i + 1, fst i + 2)) \<longrightarrow> (\<forall>i \<in> set R. has_key A (fst i + 1, fst i + 2))"
  proof -
    have "(\<forall>i \<in> set R0. has_key A (fst i + 1, fst i + 2)) \<longrightarrow> (\<forall>i \<in> set R1. has_key A (fst i + 1, fst i + 2))"
      by (simp add: R1_def set_set_add)
    with 3 show ?thesis by blast
  qed
  have d: "A = [] \<longrightarrow> set F = set F0 \<union> set (i # xs)"
  proof
    assume e: "A = []"
    then have "set F1 = insert i (set F0)" by (simp add: F1_def has_key_def set_set_add)
    with 4 e show "set F = set F0 \<union> set (i # xs)" by auto
  qed
  from a b c d show ?case by (intro conjI)
qed

lemma make_sets_ord: "make_sets ordI w C F0 L0 R0 A = make_sets (\<lambda>C'. ordI C) w C F0 L0 R0 A"
  by (simp add: make_sets_def)

lemma count_fold_keys:
  "fst ` set (fold (\<lambda>segment segmentCounts.
                    case map_of segmentCounts segment of
                      Some c \<Rightarrow> AList.update segment (c + 1) segmentCounts
                    | None \<Rightarrow> AList.update segment 1 segmentCounts) xs (acc :: ((symbol \<times> symbol) \<times> nat) list))
     = fst ` set acc \<union> set xs"
proof (induction xs arbitrary: acc)
  case Nil
  show ?case by simp
next
  case (Cons x xs)
  show ?case by (simp add: Cons.IH dom_update split: option.splits)
qed

lemma createSortedSegmentList_segments:
  "snd ` set (createSortedSegmentList w) = set (adjacent w)"
proof -
  have "snd ` (\<lambda>(segment, c). (c, segment)) ` A = fst ` A" for A :: "((symbol \<times> symbol) \<times> nat) set"
    by force
  then show ?thesis
    using count_fold_keys [of "adjacent w" "[]"]
    by (simp add: createSortedSegmentList_def Let_def)
qed

lemma adjacent_nonempty: "2 \<le> length w \<Longrightarrow> adjacent w \<noteq> []"
  by (simp add: adjacent_def)

lemma arrangement_round_ok:
  assumes ord: "enumerates ordI"
    and D: "\<forall>x \<in> fst ` set D. is_position w x"
  shows "\<exists>D' A' ID'. arrangement_round ordI w entry (D, A, ID) = Inr (D', A', ID')
           \<and> fst ` set D \<subseteq> fst ` set D'
           \<and> (\<forall>x \<in> fst ` set D'. is_position w x)
           \<and> (A = [] \<and> snd entry \<in> set (adjacent w) \<longrightarrow> D' \<noteq> [])"
proof -
  let ?C = "make_set_c (snd entry) w"
  obtain F L R where flr: "make_sets ordI w ?C [] [] [] A = (F, L, R)"
    by (cases "make_sets ordI w ?C [] [] [] A") auto
  have oC: "set (ordI ?C) = set ?C" and oF: "set (ordI F) = set F"
    and oL: "set (ordI L) = set L" and oR: "set (ordI R) = set R"
    using ord by (simp_all add: enumerates_def)
  from flr have flr': "make_sets (\<lambda>C'. ordI ?C) w ?C [] [] [] A = (F, L, R)"
    by (simp add: make_sets_ord [symmetric])
  from make_sets_props [OF flr']
  have u: "set F \<union> set L \<union> set R = set ?C"
    and kl: "\<forall>i \<in> set L. has_key A (fst i - 1, fst i)"
    and kr: "\<forall>i \<in> set R. has_key A (fst i + 1, fst i + 2)"
    and fe: "A = [] \<longrightarrow> set F = set ?C"
    using oC by auto
  have pos: "\<forall>x \<in> set ?C. is_position w x \<and> snd x = fst x + 1"
    using make_set_c_positions by blast
  have nl: "\<forall>p \<in> set (ordI L). has_key A (neighbour WLeft p)"
  proof
    fix p assume "p \<in> set (ordI L)"
    then have "has_key A (fst p - 1, fst p)" using kl oL by blast
    then show "has_key A (neighbour WLeft p)" by (cases p) simp
  qed
  have nr: "\<forall>p \<in> set (ordI R). has_key A (neighbour WRight p)"
  proof
    fix p assume p: "p \<in> set (ordI R)"
    then have "has_key A (fst p + 1, fst p + 2)" using kr oR by blast
    moreover have "snd p = fst p + 1" using p oR u pos by blast
    ultimately show "has_key A (neighbour WRight p)" by (cases p) (simp add: add.commute)
  qed
  have rseq: "(\<lambda>p. (fst p, fst p + 1)) ` set (ordI R) \<subseteq> set ?C"
  proof
    fix q assume "q \<in> (\<lambda>p. (fst p, fst p + 1)) ` set (ordI R)"
    then obtain p where p: "p \<in> set (ordI R)" "q = (fst p, fst p + 1)" by blast
    then have pc: "p \<in> set ?C" "snd p = fst p + 1" using oR u pos by blast+
    then have "q = p" using p(2) by (simp add: prod_eq_iff)
    with pc show "q \<in> set ?C" by simp
  qed
  have bound: "set (ordI F) \<union> set (ordI L) \<union> (\<lambda>p. (fst p, fst p + 1)) ` set (ordI R) \<subseteq> set ?C"
    using u oF oL rseq by blast
  let ?id1 = "length ID"
  let ?id2 = "length ID + 1"
  let ?ID' = "set_add ?id2 (set_add ?id1 ID)"
  from assignment_ok [where ordI = ordI and LeftS = L and RightS = R and A = A and X = WFree
      and FreeS = F and ?d1.0 = ?id1 and ?d2.0 = ?id2 and w = w and dictionary = D, OF nl nr]
  obtain A1 D1 where a1: "assignment ordI WFree F L R A ?id1 ?id2 w D = Inr (A1, D1)"
    and m1: "\<forall>k. has_key A k \<longrightarrow> has_key A1 k"
    and d1: "fst ` set D1 = set (ordI F)"
    by blast
  have nl1: "\<forall>p \<in> set (ordI L). has_key A1 (neighbour WLeft p)" using nl m1 by blast
  have nr1: "\<forall>p \<in> set (ordI R). has_key A1 (neighbour WRight p)" using nr m1 by blast
  let ?D1 = "AList.merge D D1"
  from assignment_ok [where ordI = ordI and LeftS = L and RightS = R and A = A1 and X = WLeft
      and FreeS = F and ?d1.0 = ?id1 and ?d2.0 = ?id2 and w = w and dictionary = ?D1, OF nl1 nr1]
  obtain A2 D2 where a2: "assignment ordI WLeft F L R A1 ?id1 ?id2 w ?D1 = Inr (A2, D2)"
    and m2: "\<forall>k. has_key A1 k \<longrightarrow> has_key A2 k"
    and d2: "fst ` set D2 \<subseteq> set (ordI F) \<union> set (ordI L) \<union> (\<lambda>p. (fst p, fst p + 1)) ` set (ordI R)"
    by blast
  have nl2: "\<forall>p \<in> set (ordI L). has_key A2 (neighbour WLeft p)" using nl1 m2 by blast
  have nr2: "\<forall>p \<in> set (ordI R). has_key A2 (neighbour WRight p)" using nr1 m2 by blast
  let ?D2 = "AList.merge ?D1 D2"
  from assignment_ok [where ordI = ordI and LeftS = L and RightS = R and A = A2 and X = WRight
      and FreeS = F and ?d1.0 = ?id1 and ?d2.0 = ?id2 and w = w and dictionary = ?D2, OF nl2 nr2]
  obtain A3 D3 where a3: "assignment ordI WRight F L R A2 ?id1 ?id2 w ?D2 = Inr (A3, D3)"
    and d3: "fst ` set D3 \<subseteq> set (ordI F) \<union> set (ordI L) \<union> (\<lambda>p. (fst p, fst p + 1)) ` set (ordI R)"
    by blast
  let ?D3 = "AList.merge ?D2 D3"
  have res: "arrangement_round ordI w entry (D, A, ID) = Inr (?D3, A3, ?ID')"
    using a1 a2 a3 by (simp add: arrangement_round_def Let_def flr)
  have keys: "fst ` set ?D3 = fst ` set D \<union> fst ` set D1 \<union> fst ` set D2 \<union> fst ` set D3"
    by (simp add: dom_merge)
  have sub: "fst ` set D \<subseteq> fst ` set ?D3" unfolding keys by blast
  have "fst ` set ?D3 \<subseteq> fst ` set D \<union> set ?C"
    unfolding keys using d1 d2 d3 bound by blast
  then have val: "\<forall>x \<in> fst ` set ?D3. is_position w x" using D pos by blast
  have ne: "A = [] \<and> snd entry \<in> set (adjacent w) \<longrightarrow> ?D3 \<noteq> []"
  proof
    assume h: "A = [] \<and> snd entry \<in> set (adjacent w)"
    then have "set F \<noteq> {}" using fe make_set_c_nonempty [of "snd entry" w] by simp
    then have "fst ` set D1 \<noteq> {}" using d1 oF by simp
    then have "fst ` set ?D3 \<noteq> {}" unfolding keys by blast
    then show "?D3 \<noteq> []" by auto
  qed
  from res sub val ne show ?thesis by blast
qed

lemma arrangement_rounds_ok:
  assumes ord: "enumerates ordI"
    and D: "\<forall>x \<in> fst ` set D. is_position w x"
  shows "\<exists>D' A' ID'. fold_err (arrangement_round ordI w) es (D, A, ID) = Inr (D', A', ID')
           \<and> fst ` set D \<subseteq> fst ` set D'
           \<and> (\<forall>x \<in> fst ` set D'. is_position w x)"
  using D
proof (induction es arbitrary: D A ID)
  case Nil
  then show ?case by simp
next
  case (Cons e es)
  from arrangement_round_ok [OF ord Cons.prems, of e A ID]
  obtain D1 A1 ID1 where r1: "arrangement_round ordI w e (D, A, ID) = Inr (D1, A1, ID1)"
    and s1: "fst ` set D \<subseteq> fst ` set D1" and v1: "\<forall>x \<in> fst ` set D1. is_position w x"
    by blast
  from Cons.IH [OF v1, of A1 ID1]
  obtain D' A' ID' where r: "fold_err (arrangement_round ordI w) es (D1, A1, ID1) = Inr (D', A', ID')"
    and s: "fst ` set D1 \<subseteq> fst ` set D'" and v: "\<forall>x \<in> fst ` set D'. is_position w x"
    by blast
  have "fold_err (arrangement_round ordI w) (e # es) (D, A, ID) = Inr (D', A', ID')"
    using r1 r by simp
  moreover have "fst ` set D \<subseteq> fst ` set D'" using s1 s by (rule subset_trans)
  ultimately show ?case using v by blast
qed

lemma arrangement_rounds_nonempty:
  assumes ord: "enumerates ordI" and len: "2 \<le> length w"
  shows "\<exists>D' A' ID'. fold_err (arrangement_round ordI w) (createSortedSegmentList w) ([], [], ID)
                        = Inr (D', A', ID')
           \<and> (\<forall>x \<in> fst ` set D'. is_position w x) \<and> D' \<noteq> []"
proof -
  have "set (adjacent w) \<noteq> {}" using adjacent_nonempty [OF len] by simp
  then have "createSortedSegmentList w \<noteq> []"
    using createSortedSegmentList_segments [of w] by auto
  then obtain e es where es: "createSortedSegmentList w = e # es"
    by (cases "createSortedSegmentList w") auto
  have "snd e \<in> snd ` set (createSortedSegmentList w)" by (simp add: es)
  then have e: "snd e \<in> set (adjacent w)" by (simp only: createSortedSegmentList_segments)
  have D0: "\<forall>x \<in> fst ` set ([] :: ids). is_position w x" by simp
  from arrangement_round_ok [OF ord D0, of e "[]" ID] e
  obtain D1 A1 ID1 where r1: "arrangement_round ordI w e ([], [], ID) = Inr (D1, A1, ID1)"
    and v1: "\<forall>x \<in> fst ` set D1. is_position w x" and n1: "D1 \<noteq> []"
    by blast
  from arrangement_rounds_ok [OF ord v1, of es A1 ID1]
  obtain D' A' ID' where r: "fold_err (arrangement_round ordI w) es (D1, A1, ID1) = Inr (D', A', ID')"
    and s: "fst ` set D1 \<subseteq> fst ` set D'" and v: "\<forall>x \<in> fst ` set D'. is_position w x"
    by blast
  have "D' \<noteq> []" using n1 s by (cases D1) auto
  moreover have "fold_err (arrangement_round ordI w) (createSortedSegmentList w) ([], [], ID)
                        = Inr (D', A', ID')"
    using r1 r by (simp add: es)
  ultimately show ?thesis using v by blast
qed

lemma count_list_remove1: "count_list (remove1 v xs) v = count_list xs v - 1"
  by (induction xs) auto

lemma set_remove1_duplicate:
  "2 \<le> count_list xs v \<Longrightarrow> set (remove1 v xs) = set xs"
proof (induction xs)
  case Nil
  then show ?case by simp
next
  case (Cons x xs)
  show ?case
  proof (cases "x = v")
    case True
    with Cons.prems have "count_list xs v \<noteq> 0" by simp
    then have "v \<in> set xs" by (simp add: count_list_0_iff)
    with True show ?thesis by auto
  next
    case False
    with Cons show ?thesis by auto
  qed
qed

lemma remove_extra_set:
  "n < count_list xs v \<Longrightarrow>
   set ((remove1 v ^^ n) xs) = set xs \<and> count_list ((remove1 v ^^ n) xs) v = count_list xs v - n"
proof (induction n)
  case 0
  show ?case by simp
next
  case (Suc n)
  then have IH: "set ((remove1 v ^^ n) xs) = set xs"
    "count_list ((remove1 v ^^ n) xs) v = count_list xs v - n" by simp_all
  have "2 \<le> count_list ((remove1 v ^^ n) xs) v" using Suc.prems IH(2) by simp
  from set_remove1_duplicate [OF this] IH show ?case
    by (simp add: count_list_remove1)
qed

lemma set_dedupe_values: "set (dedupe_values idx vals) = set vals"
proof (induction idx vals rule: dedupe_values.induct)
  case (1 idx vals)
  show ?case
  proof (cases "idx < length vals")
    case True
    let ?v = "vals ! idx"
    have "?v \<in> set vals" using True by simp
    then have "count_list vals ?v \<noteq> 0" by (simp add: count_list_0_iff)
    then have "count_list vals ?v - 1 < count_list vals ?v" by simp
    from remove_extra_set [OF this]
    have "set ((remove1 ?v ^^ (count_list vals ?v - 1)) vals) = set vals" by simp
    with "1.IH" [OF True] True show ?thesis by (subst dedupe_values.simps) simp
  next
    case False
    then show ?thesis by (subst dedupe_values.simps) simp
  qed
qed

lemma py_get_nat: "k < length xs \<Longrightarrow> py_get xs (int k) = Inr (xs ! k)"
  by (simp add: py_get_def)

lemma position_pair:
  assumes "is_position w x"
  shows "\<exists>a b. py_get w (fst x) = Inr a \<and> py_get w (snd x) = Inr b \<and> (a, b) \<in> set (adjacent w)"
proof -
  from assms obtain k where k: "x = (int k, int k + 1)" "k + 1 < length w"
    by (auto simp: is_position_def)
  have "py_get w (snd x) = Inr (w ! (k + 1))" using k by (simp add: py_get_def nat_add_distrib)
  moreover have "py_get w (fst x) = Inr (w ! k)" using k py_get_nat [of k w] by simp
  moreover have "(w ! k, w ! (k + 1)) \<in> set (adjacent w)"
    using k(2) by (auto simp: adjacent_def)
  ultimately show ?thesis by blast
qed

lemma collect_inner_ok:
  assumes "\<forall>x \<in> fst ` set ds. is_position w x"
  shows "\<exists>segs'. fold_err (\<lambda>(x, d) segments.
                             if d = v
                             then (case py_get w (fst x) of
                                     Inl e \<Rightarrow> Inl e
                                   | Inr a \<Rightarrow>
                                       (case py_get w (snd x) of
                                          Inl e \<Rightarrow> Inl e
                                        | Inr b \<Rightarrow> Inr (set_add (a, b) segments)))
                             else Inr segments) ds segs = Inr segs'
           \<and> set segs \<subseteq> set segs' \<and> set segs' \<subseteq> set segs \<union> set (adjacent w)
           \<and> (v \<in> snd ` set ds \<longrightarrow> segs' \<noteq> [])"
  using assms
proof (induction ds arbitrary: segs)
  case Nil
  show ?case by simp
next
  case (Cons p ds)
  obtain x d where p: "p = (x, d)" by (cases p)
  let ?f = "\<lambda>(x, d) segments.
                             if d = v
                             then (case py_get w (fst x) of
                                     Inl e \<Rightarrow> Inl e
                                   | Inr a \<Rightarrow>
                                       (case py_get w (snd x) of
                                          Inl e \<Rightarrow> Inl e
                                        | Inr b \<Rightarrow> Inr (set_add (a, b) segments)))
                             else Inr segments"
  have "is_position w x" using Cons.prems p by simp
  from position_pair [OF this] obtain a b where
    ab: "py_get w (fst x) = Inr a" "py_get w (snd x) = Inr b" "(a, b) \<in> set (adjacent w)" by blast
  define s1 where "s1 = (if d = v then set_add (a, b) segs else segs)"
  have step: "?f p segs = Inr s1" by (simp add: p ab s1_def)
  have s1: "set segs \<subseteq> set s1" "set s1 \<subseteq> set segs \<union> set (adjacent w)" "d = v \<longrightarrow> s1 \<noteq> []"
    using ab(3) by (auto simp: s1_def set_set_add set_add_def)
  have "\<forall>x \<in> fst ` set ds. is_position w x" using Cons.prems by simp
  from Cons.IH [OF this, of s1]
  obtain segs' where r: "fold_err ?f ds s1 = Inr segs'"
    and i: "set s1 \<subseteq> set segs'" "set segs' \<subseteq> set s1 \<union> set (adjacent w)"
      "v \<in> snd ` set ds \<longrightarrow> segs' \<noteq> []" by blast
  have "fold_err ?f (p # ds) segs = Inr segs'" using step r by (simp only: fold_err.simps sum.case)
  moreover have "set segs \<subseteq> set segs'" using s1(1) i(1) by (rule subset_trans)
  moreover have "set segs' \<subseteq> set segs \<union> set (adjacent w)" using s1(2) i(2) by blast
  moreover have "v \<in> snd ` set (p # ds) \<longrightarrow> segs' \<noteq> []"
  proof
    assume "v \<in> snd ` set (p # ds)"
    then have "d = v \<or> v \<in> snd ` set ds" by (auto simp: p)
    then show "segs' \<noteq> []"
    proof
      assume "d = v"
      then have "s1 \<noteq> []" using s1(3) by simp
      then show ?thesis using i(1) by (cases s1) auto
    next
      assume "v \<in> snd ` set ds"
      then show ?thesis using i(3) by simp
    qed
  qed
  ultimately show ?case by blast
qed

lemma collect_outer_ok:
  assumes D: "\<forall>x \<in> fst ` set D. is_position w x"
  shows "\<exists>segs'. fold_err (\<lambda>v segments.
                 fold_err (\<lambda>(x, d) segments.
                             if d = v
                             then (case py_get w (fst x) of
                                     Inl e \<Rightarrow> Inl e
                                   | Inr a \<Rightarrow>
                                       (case py_get w (snd x) of
                                          Inl e \<Rightarrow> Inl e
                                        | Inr b \<Rightarrow> Inr (set_add (a, b) segments)))
                             else Inr segments)
                          D segments) vs segs = Inr segs'
           \<and> set segs \<subseteq> set segs' \<and> set segs' \<subseteq> set segs \<union> set (adjacent w)
           \<and> (set vs \<inter> snd ` set D \<noteq> {} \<longrightarrow> segs' \<noteq> [])"
proof (induction vs arbitrary: segs)
  case Nil
  show ?case by simp
next
  case (Cons v vs)
  let ?g = "\<lambda>v segments.
                 fold_err (\<lambda>(x, d) segments.
                             if d = v
                             then (case py_get w (fst x) of
                                     Inl e \<Rightarrow> Inl e
                                   | Inr a \<Rightarrow>
                                       (case py_get w (snd x) of
                                          Inl e \<Rightarrow> Inl e
                                        | Inr b \<Rightarrow> Inr (set_add (a, b) segments)))
                             else Inr segments)
                          D segments"
  from collect_inner_ok [OF D, of v segs]
  obtain s1 where step: "?g v segs = Inr s1"
    and s1: "set segs \<subseteq> set s1" "set s1 \<subseteq> set segs \<union> set (adjacent w)"
      "v \<in> snd ` set D \<longrightarrow> s1 \<noteq> []" by blast
  from Cons.IH [of s1]
  obtain segs' where r: "fold_err ?g vs s1 = Inr segs'"
    and i: "set s1 \<subseteq> set segs'" "set segs' \<subseteq> set s1 \<union> set (adjacent w)"
      "set vs \<inter> snd ` set D \<noteq> {} \<longrightarrow> segs' \<noteq> []" by blast
  have "fold_err ?g (v # vs) segs = Inr segs'" using step r by (simp only: fold_err.simps sum.case)
  moreover have "set segs \<subseteq> set segs'" using s1(1) i(1) by (rule subset_trans)
  moreover have "set segs' \<subseteq> set segs \<union> set (adjacent w)" using s1(2) i(2) by blast
  moreover have "set (v # vs) \<inter> snd ` set D \<noteq> {} \<longrightarrow> segs' \<noteq> []"
  proof
    assume "set (v # vs) \<inter> snd ` set D \<noteq> {}"
    then have "v \<in> snd ` set D \<or> set vs \<inter> snd ` set D \<noteq> {}" by auto
    then show "segs' \<noteq> []"
    proof
      assume "v \<in> snd ` set D"
      then have "s1 \<noteq> []" using s1(3) by simp
      then show ?thesis using i(1) by (cases s1) auto
    next
      assume "set vs \<inter> snd ` set D \<noteq> {}"
      then show ?thesis using i(3) by simp
    qed
  qed
  ultimately show ?case by blast
qed

lemma collect_segments_ok:
  assumes D: "\<forall>x \<in> fst ` set D. is_position w x"
  shows "\<exists>segs. collect_segments w D (dedupe_values 0 (map snd D)) = Inr segs
           \<and> set segs \<subseteq> set (adjacent w) \<and> (D \<noteq> [] \<longrightarrow> segs \<noteq> [])"
proof -
  have "set (dedupe_values 0 (map snd D)) \<inter> snd ` set D = snd ` set D"
    by (simp add: set_dedupe_values)
  moreover have "D \<noteq> [] \<longrightarrow> snd ` set D \<noteq> {}" by simp
  ultimately have ne: "D \<noteq> [] \<longrightarrow> set (dedupe_values 0 (map snd D)) \<inter> snd ` set D \<noteq> {}"
    by simp
  from collect_outer_ok [OF D, of "dedupe_values 0 (map snd D)" "[]"] ne
  show ?thesis unfolding collect_segments_def by auto
qed

lemma fold_err_append:
  "fold_err f (xs @ ys) s = (case fold_err f xs s of Inl e \<Rightarrow> Inl e | Inr s' \<Rightarrow> fold_err f ys s')"
  by (induction xs arbitrary: s) (auto split: sum.splits)

lemma strictly_sorted_nth_ge:
  "sorted_wrt (<) (xs :: nat list) \<Longrightarrow> i < length xs \<Longrightarrow> i \<le> xs ! i"
proof (induction i)
  case 0
  show ?case by simp
next
  case (Suc i)
  then have "xs ! i < xs ! Suc i" by (simp add: sorted_wrt_nth_less)
  moreover have "i \<le> xs ! i" using Suc by simp
  ultimately show ?case by simp
qed

lemma pops_ok:
  assumes sorted: "sorted_wrt (<) locs" and bound: "\<forall>l \<in> set locs. l + 1 < length w"
    and m: "m \<le> length locs"
  shows "\<exists>w'. fold_err (\<lambda>li w. py_pop w (locs ! li - li + 1)) [0 ..< m] w = Inr w'
           \<and> length w' + m = length w \<and> set w' \<subseteq> set w"
  using m
proof (induction m)
  case 0
  show ?case by simp
next
  case (Suc m)
  then obtain w1 where r: "fold_err (\<lambda>li w. py_pop w (locs ! li - li + 1)) [0 ..< m] w = Inr w1"
    and l: "length w1 + m = length w" and s: "set w1 \<subseteq> set w" by auto
  have mlt: "m < length locs" using Suc.prems by simp
  then have ge: "m \<le> locs ! m" using strictly_sorted_nth_ge [OF sorted] by blast
  have "locs ! m \<in> set locs" using mlt by simp
  then have "locs ! m + 1 < length w" using bound by blast
  with ge l have k: "locs ! m - m + 1 < length w1" by arith
  define w2 where "w2 = take (locs ! m - m + 1) w1 @ drop (locs ! m - m + 1 + 1) w1"
  have p: "py_pop w1 (locs ! m - m + 1) = Inr w2" using k by (simp add: py_pop_def w2_def)
  have l2: "length w2 + Suc m = length w" using k l by (simp add: w2_def)
  have "set w2 \<subseteq> set w1"
    unfolding w2_def using set_take_subset [of _ w1] set_drop_subset [of _ w1] by auto
  then have s2: "set w2 \<subseteq> set w" using s by blast
  have "fold_err (\<lambda>li w. py_pop w (locs ! li - li + 1)) [0 ..< Suc m] w = Inr w2"
    using r p by (simp add: fold_err_append)
  with l2 s2 show ?case by blast
qed

lemma overwrite_fold:
  "length (fold (\<lambda>l w. w[l := new]) locs w) = length w
   \<and> set (fold (\<lambda>l w. w[l := new]) locs w) \<subseteq> (if locs = [] then set w else insert new (set w))"
proof (induction locs arbitrary: w)
  case Nil
  show ?case by simp
next
  case (Cons l locs)
  have "set (w[l := new]) \<subseteq> insert new (set w)" by (rule set_update_subset_insert)
  with Cons [of "w[l := new]"] show ?case by (auto split: if_splits)
qed

lemma replace_segment_ok:
  "\<exists>w' P'. replace_segment s (w, P) = Inr (w', P')
     \<and> length w' \<le> length w
     \<and> (s \<in> set (adjacent w) \<longrightarrow> length w' < length w)
     \<and> ((\<forall>x \<in> set w. x \<noteq> []) \<longrightarrow> (\<forall>x \<in> set w'. x \<noteq> []))"
proof -
  define locs where "locs = filter (\<lambda>i. (w ! i, w ! (i + 1)) = s) [0 ..< length w - 1]"
  define w1 where "w1 = fold (\<lambda>l w. w[l := fst s @ snd s]) locs w"
  have sorted: "sorted_wrt (<) locs"
    unfolding locs_def by (intro sorted_wrt_filter) (simp add: sorted_wrt_upt)
  have l1: "length w1 = length w"
    and s1: "set w1 \<subseteq> (if locs = [] then set w else insert (fst s @ snd s) (set w))"
    using overwrite_fold [of "fst s @ snd s" locs w] by (simp_all add: w1_def)
  have bound: "\<forall>l \<in> set locs. l + 1 < length w1" by (auto simp: locs_def l1)
  from pops_ok [OF sorted bound le_refl]
  obtain w' where r: "fold_err (\<lambda>li w. py_pop w (locs ! li - li + 1)) [0 ..< length locs] w1 = Inr w'"
    and l: "length w' + length locs = length w1" and sub: "set w' \<subseteq> set w1" by blast
  have res: "replace_segment s (w, P) = Inr (w', AList.update (fst s @ snd s) [fst s, snd s] P)"
    using r unfolding replace_segment_def w1_def locs_def by (simp add: Let_def)
  have a: "length w' \<le> length w" using l l1 by simp
  have b: "s \<in> set (adjacent w) \<longrightarrow> length w' < length w"
  proof
    assume "s \<in> set (adjacent w)"
    then have "locs \<noteq> []" by (auto simp: adjacent_def locs_def filter_empty_conv)
    then have "0 < length locs" by simp
    with l l1 show "length w' < length w" by arith
  qed
  have c: "(\<forall>x \<in> set w. x \<noteq> []) \<longrightarrow> (\<forall>x \<in> set w'. x \<noteq> [])"
  proof (intro impI ballI)
    fix x assume ne: "\<forall>x \<in> set w. x \<noteq> []" and x: "x \<in> set w'"
    show "x \<noteq> []"
    proof (cases "locs = []")
      case True
      then show ?thesis using s1 sub x ne by auto
    next
      case False
      then obtain i where "i \<in> set locs" by (cases locs) auto
      then have i: "i < length w" "w ! i = fst s" by (auto simp: locs_def)
      have "w ! i \<in> set w" using i(1) by (rule nth_mem)
      then have "fst s \<in> set w" using i(2) by simp
      then have "fst s @ snd s \<noteq> []" using ne by auto
      moreover have "x = fst s @ snd s \<or> x \<in> set w" using s1 sub x False by auto
      ultimately show ?thesis using ne by auto
    qed
  qed
  from res a b c show ?thesis by blast
qed

lemma replace_segments_ok:
  "\<exists>w' P'. fold_err replace_segment segs (w, P) = Inr (w', P')
     \<and> length w' \<le> length w
     \<and> (segs \<noteq> [] \<and> hd segs \<in> set (adjacent w) \<longrightarrow> length w' < length w)
     \<and> ((\<forall>x \<in> set w. x \<noteq> []) \<longrightarrow> (\<forall>x \<in> set w'. x \<noteq> []))"
proof (induction segs arbitrary: w P)
  case Nil
  show ?case by simp
next
  case (Cons s segs)
  from replace_segment_ok [of s w P]
  obtain w1 P1 where r1: "replace_segment s (w, P) = Inr (w1, P1)"
    and a1: "length w1 \<le> length w" and b1: "s \<in> set (adjacent w) \<longrightarrow> length w1 < length w"
    and c1: "(\<forall>x \<in> set w. x \<noteq> []) \<longrightarrow> (\<forall>x \<in> set w1. x \<noteq> [])" by blast
  from Cons.IH [of w1 P1]
  obtain w' P' where r: "fold_err replace_segment segs (w1, P1) = Inr (w', P')"
    and a: "length w' \<le> length w1"
    and c: "(\<forall>x \<in> set w1. x \<noteq> []) \<longrightarrow> (\<forall>x \<in> set w'. x \<noteq> [])" by blast
  have "fold_err replace_segment (s # segs) (w, P) = Inr (w', P')" using r1 r by simp
  moreover have "length w' \<le> length w" using a a1 by simp
  moreover have "s # segs \<noteq> [] \<and> hd (s # segs) \<in> set (adjacent w) \<longrightarrow> length w' < length w"
    using a b1 by auto
  moreover have "(\<forall>x \<in> set w. x \<noteq> []) \<longrightarrow> (\<forall>x \<in> set w'. x \<noteq> [])" using c1 c by blast
  ultimately show ?case by blast
qed

lemma arrangement_ok:
  assumes oI: "enumerates ordI" and oS: "enumerates ordS"
  shows "\<exists>w' P' ID'. arrangement ordI ordS w ID = Inr (w', P', ID')
           \<and> length w' \<le> length w
           \<and> (2 \<le> length w \<longrightarrow> length w' < length w)
           \<and> ((\<forall>x \<in> set w. x \<noteq> []) \<longrightarrow> (\<forall>x \<in> set w'. x \<noteq> []))"
proof -
  have D0: "\<forall>x \<in> fst ` set ([] :: ids). is_position w x" by simp
  from arrangement_rounds_ok [OF oI D0, of "createSortedSegmentList w" "[]" ID]
  obtain D A ID' where r1: "fold_err (arrangement_round ordI w) (createSortedSegmentList w) ([], [], ID)
                        = Inr (D, A, ID')"
    and v: "\<forall>x \<in> fst ` set D. is_position w x" by blast
  have ne: "2 \<le> length w \<longrightarrow> D \<noteq> []"
    using arrangement_rounds_nonempty [OF oI, of w ID] r1 by auto
  from collect_segments_ok [OF v]
  obtain segs where r2: "collect_segments w D (dedupe_values 0 (map snd D)) = Inr segs"
    and sub: "set segs \<subseteq> set (adjacent w)" and sne: "D \<noteq> [] \<longrightarrow> segs \<noteq> []" by blast
  have os: "set (ordS segs) = set segs" using oS by (simp add: enumerates_def)
  from replace_segments_ok [of "ordS segs" w "[]"]
  obtain w' P' where r3: "fold_err replace_segment (ordS segs) (w, []) = Inr (w', P')"
    and a: "length w' \<le> length w"
    and b: "ordS segs \<noteq> [] \<and> hd (ordS segs) \<in> set (adjacent w) \<longrightarrow> length w' < length w"
    and c: "(\<forall>x \<in> set w. x \<noteq> []) \<longrightarrow> (\<forall>x \<in> set w'. x \<noteq> [])" by blast
  have res: "arrangement ordI ordS w ID = Inr (w', P', ID')"
    by (simp add: arrangement_def r1 r2 r3)
  have "2 \<le> length w \<longrightarrow> length w' < length w"
  proof
    assume "2 \<le> length w"
    then have "segs \<noteq> []" using ne sne by simp
    then have "set (ordS segs) \<noteq> {}" using os by simp
    then have n: "ordS segs \<noteq> []" by auto
    then have "hd (ordS segs) \<in> set (ordS segs)" by simp
    then have "hd (ordS segs) \<in> set (adjacent w)" using os sub by blast
    with n b show "length w' < length w" by simp
  qed
  with res a c show ?thesis by blast
qed

lemma hasRepeatingPairs_loop_iff:
  "hasRepeatingPairs_loop sequences ps \<longleftrightarrow> \<not> distinct ps \<or> set sequences \<inter> set ps \<noteq> {}"
  by (induction ps arbitrary: sequences) (auto simp: set_set_add)

lemma hasRepeatingPairs_iff: "hasRepeatingPairs w \<longleftrightarrow> \<not> distinct (adjacent w)"
  by (simp add: hasRepeatingPairs_def hasRepeatingPairs_loop_iff)

lemma hasRepeatingPairs_length:
  assumes "hasRepeatingPairs w"
  shows "3 \<le> length w"
proof (rule ccontr)
  assume "\<not> 3 \<le> length w"
  then have "length (adjacent w) \<le> 1" by (simp add: adjacent_def)
  then have "distinct (adjacent w)" by (cases "adjacent w") auto
  with assms show False by (simp add: hasRepeatingPairs_iff)
qed

lemma round_shrinks:
  assumes oI: "enumerates ordI" and oS: "enumerates ordS"
    and ne: "\<forall>x \<in> set w. x \<noteq> []" and rp: "hasRepeatingPairs w"
  shows "\<exists>w1 P1 w2 P2 ID'. repetition w = Inr (w1, P1)
           \<and> arrangement ordI ordS w1 ID = Inr (w2, P2, ID')
           \<and> length w2 < length w \<and> (\<forall>x \<in> set w2. x \<noteq> [])"
proof -
  from repetition_loop_ok [OF ne, of "[]"]
  obtain w1 P1 where r1: "repetition w = Inr (w1, P1)" and l1: "length w1 \<le> length w"
    and ne1: "\<forall>x \<in> set w1. x \<noteq> []" by (auto simp: repetition_def)
  from arrangement_ok [OF oI oS, of w1 ID]
  obtain w2 P2 ID' where r2: "arrangement ordI ordS w1 ID = Inr (w2, P2, ID')"
    and l2: "length w2 \<le> length w1" and s2: "2 \<le> length w1 \<longrightarrow> length w2 < length w1"
    and ne2: "(\<forall>x \<in> set w1. x \<noteq> []) \<longrightarrow> (\<forall>x \<in> set w2. x \<noteq> [])" by blast
  have "3 \<le> length w" using rp by (rule hasRepeatingPairs_length)
  with l1 l2 s2 have "length w2 < length w" by arith
  with r1 r2 ne1 ne2 show ?thesis by blast
qed

lemma levelwiseRepair_loop_terminates:
  assumes oI: "enumerates ordI" and oS: "enumerates ordS"
  shows "\<forall>x \<in> set w. x \<noteq> [] \<Longrightarrow>
         \<exists>w' P'. levelwiseRepair_loop ordI ordS w P ID = Some (Inr (w', P'))"
proof (induction "length w" arbitrary: w P ID rule: less_induct)
  case less
  show ?case
  proof (cases "hasRepeatingPairs w")
    case False
    then show ?thesis by (subst levelwiseRepair_loop.simps) simp
  next
    case True
    from round_shrinks [OF oI oS less.prems True, of ID]
    obtain w1 P1 w2 P2 ID' where r1: "repetition w = Inr (w1, P1)"
      and r2: "arrangement ordI ordS w1 ID = Inr (w2, P2, ID')"
      and l: "length w2 < length w" and ne2: "\<forall>x \<in> set w2. x \<noteq> []" by blast
    from less.hyps [OF l ne2, of "AList.merge (AList.merge P P1) P2" ID']
    show ?thesis using True r1 r2 by (subst levelwiseRepair_loop.simps) simp
  qed
qed

text \<open>
  C3: whatever the iteration order of the sets, \<open>getSakamotoGrammar\<close> terminates on every
  string, and it returns a grammar. Every round of the outer loop of \<open>levelwiseRepair\<close>
  (entered when some pair of adjacent symbols occurs twice) runs without error and leaves
  a strictly shorter \<open>w\<close>, and whenever \<open>w\<close> has at least two symbols the arrangement pass
  alone shortens it: it selects a pair and replaces an occurrence.
\<close>

theorem sakamoto_terminates:
  assumes "enumerates ordI" and "enumerates ordS"
  shows "(\<exists>G. getSakamotoGrammar ordI ordS S = Some (Inr G))
       \<and> (\<forall>w ID. (\<forall>x \<in> set w. x \<noteq> []) \<and> hasRepeatingPairs w \<longrightarrow>
             (\<exists>w1 P1 w2 P2 ID'. repetition w = Inr (w1, P1)
                 \<and> arrangement ordI ordS w1 ID = Inr (w2, P2, ID') \<and> length w2 < length w))
       \<and> (\<forall>w ID. 2 \<le> length w \<longrightarrow>
             (\<exists>w2 P2 ID'. arrangement ordI ordS w ID = Inr (w2, P2, ID') \<and> length w2 < length w))"
proof (intro conjI allI impI)
  have "\<forall>x \<in> set (map (\<lambda>c. [c]) S). x \<noteq> []" by simp
  from levelwiseRepair_loop_terminates [OF assms this, of "[]" "[]"]
  obtain w' P' where "levelwiseRepair_loop ordI ordS (map (\<lambda>c. [c]) S) [] [] = Some (Inr (w', P'))"
    by blast
  then show "\<exists>G. getSakamotoGrammar ordI ordS S = Some (Inr G)"
    by (simp add: getSakamotoGrammar_def levelwiseRepair_def)
next
  fix w ID
  assume h: "(\<forall>x \<in> set w. x \<noteq> []) \<and> hasRepeatingPairs w"
  then have "\<forall>x \<in> set w. x \<noteq> []" "hasRepeatingPairs w" by simp_all
  from round_shrinks [OF assms this, of ID]
  show "\<exists>w1 P1 w2 P2 ID'. repetition w = Inr (w1, P1)
                 \<and> arrangement ordI ordS w1 ID = Inr (w2, P2, ID') \<and> length w2 < length w"
    by blast
next
  fix w :: "symbol list" and ID :: "nat list"
  assume "2 \<le> length w"
  with arrangement_ok [OF assms, of w ID]
  show "\<exists>w2 P2 ID'. arrangement ordI ordS w ID = Inr (w2, P2, ID') \<and> length w2 < length w"
    by blast
qed

theorem sakamoto_terminates_witness:
  "enumerates (\<lambda>xs :: seg list. xs) \<and> enumerates (\<lambda>xs :: (symbol \<times> symbol) list. xs)
   \<and> (\<exists>G. getSakamotoGrammar (\<lambda>xs. xs) (\<lambda>xs. xs) ''abab'' = Some (Inr G))"
proof -
  have a: "enumerates (\<lambda>xs :: seg list. xs)" by (simp add: enumerates_def)
  have b: "enumerates (\<lambda>xs :: (symbol \<times> symbol) list. xs)" by (simp add: enumerates_def)
  from sakamoto_terminates [OF a b, of "''abab''"] a b show ?thesis by blast
qed

subsection \<open>Well-formed grammars expand to their start symbol and are acyclic\<close>

lemma concat_two_longer:
  assumes "2 \<le> length rhs" "\<forall>M \<in> set rhs. M \<noteq> []" "M \<in> set rhs"
  shows "length M < length (concat rhs)"
  using assms
proof (induction rhs arbitrary: M)
  case Nil
  then show ?case by simp
next
  case (Cons x rhs)
  have xne: "x \<noteq> []" using Cons.prems(2) by simp
  from Cons.prems(1) obtain y ys where ys: "rhs = y # ys" by (cases rhs) auto
  have yne: "y \<noteq> []" using Cons.prems(2) ys by simp
  show ?case
  proof (cases "M = x")
    case True
    have "0 < length y" using yne by simp
    then show ?thesis using True ys by simp
  next
    case False
    then have M: "M \<in> set rhs" using Cons.prems(3) by simp
    have "length M \<le> length (concat rhs)"
    proof (cases "2 \<le> length rhs")
      case True
      from Cons.IH [OF True _ M] Cons.prems(2) show ?thesis by simp
    next
      case False
      then have "rhs = [y]" using ys by (cases ys) auto
      with M show ?thesis by simp
    qed
    moreover have "0 < length x" using xne by simp
    ultimately show ?thesis by (simp del: length_greater_0_conv)
  qed
qed

lemma valid_grammar_shorter:
  assumes "valid_grammar G" "map_of G N = Some rhs" "M \<in> set rhs"
  shows "length M < length N"
proof -
  from assms(1,2) have c: "concat rhs = N" and l: "2 \<le> length rhs"
    and ne: "\<forall>M \<in> set rhs. M \<noteq> []"
    unfolding valid_grammar_def by blast+
  from concat_two_longer [OF l ne assms(3)] c show ?thesis by simp
qed

lemma valid_grammar_acyclic:
  assumes "valid_grammar G"
  shows "acyclic (derives G)"
proof (rule acyclicI_order [where f = length])
  fix N M assume "(N, M) \<in> derives G"
  then obtain rhs where "map_of G N = Some rhs" "M \<in> set rhs" by (auto simp: derives_def)
  from valid_grammar_shorter [OF assms this] show "length M < length N" .
qed

lemma valid_grammar_expand:
  "valid_grammar G \<Longrightarrow> length s < n \<Longrightarrow> length s < 2 \<or> has_key G s \<Longrightarrow>
     expand n G s = Some (Inr s)"
  "valid_grammar G \<Longrightarrow> \<forall>M \<in> set rhs. length M < n \<and> (length M < 2 \<or> has_key G M) \<Longrightarrow>
     expand_list n G rhs = Some (Inr (concat rhs))"
proof (induction n G s and n G rhs rule: expand_expand_list.induct)
  case (1 G s)
  then show ?case by simp
next
  case (2 n G s)
  note v = "2.prems"(1)
  show ?case
  proof (cases "length s < 2")
    case True
    then show ?thesis by simp
  next
    case False
    with "2.prems" obtain rhs where rhs: "map_of G s = Some rhs" by (auto simp: has_key_def)
    have c: "concat rhs = s" using v rhs unfolding valid_grammar_def by blast
    have "\<forall>M \<in> set rhs. length M < n \<and> (length M < 2 \<or> has_key G M)"
    proof
      fix M assume M: "M \<in> set rhs"
      from valid_grammar_shorter [OF v rhs M] "2.prems"(2) have "length M < n" by simp
      moreover have "length M < 2 \<or> has_key G M"
        using v rhs M unfolding valid_grammar_def by (meson not_le_imp_less)
      ultimately show "length M < n \<and> (length M < 2 \<or> has_key G M)" by simp
    qed
    from "2.IH" [OF False rhs v this] show ?thesis using False rhs c by simp
  qed
next
  case (3 n G)
  show ?case by simp
next
  case (4 n G x xs)
  have a: "expand n G x = Some (Inr x)" using "4.IH"(1) "4.prems" by simp
  have b: "expand_list n G xs = Some (Inr (concat xs))" using "4.IH"(2) [OF a] "4.prems" by simp
  show ?case by (simp add: a b)
qed

lemma valid_grammar_expands_start:
  assumes "valid_grammar G" "length S < 2 \<or> has_key G S"
  shows "\<exists>n. expand n G S = Some (Inr S)"
proof -
  have "length S < length S + 1" by simp
  from valid_grammar_expand(1) [OF assms(1) this assms(2)] show ?thesis by blast
qed

lemma valid_grammar_merge:
  assumes "valid_grammar A" "valid_grammar B"
  shows "valid_grammar (AList.merge A B)"
  unfolding valid_grammar_def
proof (intro allI impI)
  fix N rhs assume h: "map_of (AList.merge A B) N = Some rhs"
  have hk: "has_key A M \<or> has_key B M \<Longrightarrow> has_key (AList.merge A B) M" for M
    by (auto simp: has_key_def merge_conv' map_add_def split: option.splits)
  from h have "map_of B N = Some rhs \<or> map_of A N = Some rhs"
    by (auto simp: merge_conv' map_add_def split: option.splits)
  then show "concat rhs = N \<and> 2 \<le> length rhs
       \<and> (\<forall>M \<in> set rhs. M \<noteq> [] \<and> (2 \<le> length M \<longrightarrow> has_key (AList.merge A B) M))"
  proof
    assume "map_of B N = Some rhs"
    with assms(2) show ?thesis unfolding valid_grammar_def using hk by blast
  next
    assume "map_of A N = Some rhs"
    with assms(1) show ?thesis unfolding valid_grammar_def using hk by blast
  qed
qed

lemma bisection_substrings_self: "T \<in> bisection_substrings T"
  by (subst bisection_substrings.simps) simp

lemma bisection_substrings_halves:
  "T \<in> bisection_substrings S \<Longrightarrow> 2 \<le> length T \<Longrightarrow>
   take (length T div 2) T \<in> bisection_substrings S \<and> drop (length T div 2) T \<in> bisection_substrings S"
proof (induction S rule: bisection_substrings.induct)
  case (1 S)
  show ?case
  proof (cases "length S \<le> 1")
    case True
    with "1.prems" show ?thesis by (subst (asm) bisection_substrings.simps) simp
  next
    case False
    from "1.prems"(1) False have "T = S \<or> T \<in> bisection_substrings (take (length S div 2) S)
        \<or> T \<in> bisection_substrings (drop (length S div 2) S)"
      by (subst (asm) bisection_substrings.simps) auto
    then show ?thesis
    proof (elim disjE)
      assume "T = S"
      then show ?thesis using False bisection_substrings_self
        by (subst (1 2) bisection_substrings.simps) auto
    next
      assume "T \<in> bisection_substrings (take (length S div 2) S)"
      from "1.IH"(1) [OF False this "1.prems"(2)] show ?thesis using False
        by (subst (1 2) bisection_substrings.simps) auto
    next
      assume "T \<in> bisection_substrings (drop (length S div 2) S)"
      from "1.IH"(2) [OF False this "1.prems"(2)] show ?thesis using False
        by (subst (1 2) bisection_substrings.simps) auto
    qed
  qed
qed

lemma bisection_map_of:
  "map_of (getBisectionGrammar S) T =
     (if T \<in> bisection_substrings S \<and> 2 \<le> length T
      then Some [take (length T div 2) T, drop (length T div 2) T] else None)"
  by (simp add: getBisectionGrammar_def recurse_map_of)

lemma bisection_has_key:
  "has_key (getBisectionGrammar S) T \<longleftrightarrow> T \<in> bisection_substrings S \<and> 2 \<le> length T"
  by (simp add: has_key_def bisection_map_of)

lemma bisection_valid: "valid_grammar (getBisectionGrammar S)"
  unfolding valid_grammar_def
proof (intro allI impI)
  fix N rhs assume "map_of (getBisectionGrammar S) N = Some rhs"
  then have N: "N \<in> bisection_substrings S" "2 \<le> length N"
    and rhs: "rhs = [take (length N div 2) N, drop (length N div 2) N]"
    by (auto simp: bisection_map_of split: if_splits)
  from bisection_substrings_halves [OF N]
  have h: "take (length N div 2) N \<in> bisection_substrings S"
    "drop (length N div 2) N \<in> bisection_substrings S" by simp_all
  have ne: "take (length N div 2) N \<noteq> []" "drop (length N div 2) N \<noteq> []" using N(2) by auto
  show "concat rhs = N \<and> 2 \<le> length rhs
       \<and> (\<forall>M \<in> set rhs. M \<noteq> [] \<and> (2 \<le> length M \<longrightarrow> has_key (getBisectionGrammar S) M))"
    using h ne by (simp add: rhs bisection_has_key del: length_take length_drop)
qed

lemma bisection_start_key: "2 \<le> length S \<Longrightarrow> has_key (getBisectionGrammar S) S"
  by (simp add: bisection_has_key bisection_substrings_self)

lemma bisection_distinct: "distinct (map fst (getBisectionGrammar S))"
  unfolding getBisectionGrammar_def by (rule recurse_distinct) simp

lemma bisection_binary: "binary_grammar (getBisectionGrammar S)"
  unfolding binary_grammar_def
proof (intro allI impI)
  fix N rhs assume "(N, rhs) \<in> set (getBisectionGrammar S)"
  then have "map_of (getBisectionGrammar S) N = Some rhs"
    using bisection_distinct by (simp add: map_of_eq_Some_iff)
  then show "length rhs = 2" by (auto simp: bisection_map_of split: if_splits)
qed

subsection \<open>Exhaustive: the enumeration and its minimum\<close>

lemma map_of_merge_cases:
  "map_of (AList.merge A B) N = Some rhs \<Longrightarrow> map_of B N = Some rhs \<or> (map_of B N = None \<and> map_of A N = Some rhs)"
  by (auto simp: merge_conv' map_add_def split: option.splits)

lemma has_key_merge: "has_key (AList.merge A B) M \<longleftrightarrow> has_key A M \<or> has_key B M"
  by (auto simp: has_key_def merge_conv' map_add_def split: option.splits)

text \<open>What every grammar of the enumeration satisfies.\<close>

lemma generateAllGrammars_props:
  "G \<in> set (generateAllGrammars S) \<Longrightarrow>
     valid_grammar G \<and> distinct (map fst G)
     \<and> (\<forall>N rhs. map_of G N = Some rhs \<longrightarrow> length rhs = 2 \<and> length N \<le> length S)
     \<and> (2 \<le> length S \<longrightarrow> has_key G S)"
proof (induction S arbitrary: G rule: generateAllGrammars.induct)
  case (1 goal)
  show ?case
  proof (cases "length goal = 1")
    case True
    with "1.prems" have "G = []" by (subst (asm) generateAllGrammars.simps) simp
    then show ?thesis using True by (simp add: valid_grammar_def)
  next
    case False
    from "1.prems" False obtain i g h where i: "i \<in> set [1 ..< length goal]"
      and g: "g \<in> set (generateAllGrammars (take i goal))"
      and h: "h \<in> set (generateAllGrammars (drop i goal))"
      and G: "G = AList.merge (AList.merge [(goal, [take i goal, drop i goal])] h) g"
      by (subst (asm) generateAllGrammars.simps) auto
    let ?l = "take i goal" and ?r = "drop i goal"
    from i have ib: "1 \<le> i" "i < length goal" by auto
    have ll: "length ?l = i" and lr: "length ?r = length goal - i" using ib by simp_all
    note Ig = "1.IH"(1) [OF False i g]
    note Ih = "1.IH"(2) [OF False i g h]
    have gshort: "map_of g N = Some rhs \<Longrightarrow> length N < length goal" for N rhs
      using Ig ll ib by (metis le_less_trans)
    have hshort: "map_of h N = Some rhs \<Longrightarrow> length N < length goal" for N rhs
    proof -
      assume "map_of h N = Some rhs"
      then have "length N \<le> length ?r" using Ih by blast
      then show ?thesis using lr ib by simp
    qed
    have gnone: "map_of g goal = None" using gshort by (cases "map_of g goal") auto
    have hnone: "map_of h goal = None" using hshort by (cases "map_of h goal") auto
    have mG: "map_of G N = (case map_of g N of Some rhs \<Rightarrow> Some rhs
                 | None \<Rightarrow> (case map_of h N of Some rhs \<Rightarrow> Some rhs
                    | None \<Rightarrow> if N = goal then Some [?l, ?r] else None))" for N
      by (simp add: G merge_conv' map_add_def split: option.splits)
    have kG: "has_key G M \<longleftrightarrow> M = goal \<or> has_key h M \<or> has_key g M" for M
      by (auto simp: G has_key_merge has_key_def)
    have d: "distinct (map fst G)" unfolding G by (intro distinct_merge) simp
    have top: "map_of G goal = Some [?l, ?r]" by (simp add: mG gnone hnone)
    have v: "valid_grammar G"
      unfolding valid_grammar_def
    proof (intro allI impI)
      fix N rhs assume "map_of G N = Some rhs"
      then consider "map_of g N = Some rhs" | "map_of h N = Some rhs"
        | "N = goal" "rhs = [?l, ?r]"
        by (auto simp: mG split: option.splits if_splits)
      then show "concat rhs = N \<and> 2 \<le> length rhs
         \<and> (\<forall>M \<in> set rhs. M \<noteq> [] \<and> (2 \<le> length M \<longrightarrow> has_key G M))"
      proof cases
        case 1
        then show ?thesis using Ig kG unfolding valid_grammar_def by blast
      next
        case 2
        then show ?thesis using Ih kG unfolding valid_grammar_def by blast
      next
        case 3
        have "?l \<noteq> []" "?r \<noteq> []" using ib by auto
        moreover have "2 \<le> length ?l \<longrightarrow> has_key G ?l" using Ig kG by blast
        moreover have "2 \<le> length ?r \<longrightarrow> has_key G ?r" using Ih kG by blast
        ultimately show ?thesis using 3 by (simp del: length_take length_drop)
      qed
    qed
    have b: "\<forall>N rhs. map_of G N = Some rhs \<longrightarrow> length rhs = 2 \<and> length N \<le> length goal"
    proof (intro allI impI)
      fix N rhs assume "map_of G N = Some rhs"
      then consider "map_of g N = Some rhs" | "map_of h N = Some rhs"
        | "N = goal" "rhs = [?l, ?r]"
        by (auto simp: mG split: option.splits if_splits)
      then show "length rhs = 2 \<and> length N \<le> length goal"
      proof cases
        case 1
        then show ?thesis using Ig gshort [OF 1] by auto
      next
        case 2
        then show ?thesis using Ih hshort [OF 2] by auto
      next
        case 3
        then show ?thesis by simp
      qed
    qed
    have "has_key G goal" by (simp add: kG)
    with v d b show ?thesis by blast
  qed
qed

lemma generateAllGrammars_mem:
  assumes "length goal \<noteq> 1" "1 \<le> i" "i < length goal"
    "g \<in> set (generateAllGrammars (take i goal))" "h \<in> set (generateAllGrammars (drop i goal))"
  shows "AList.merge (AList.merge [(goal, [take i goal, drop i goal])] h) g
            \<in> set (generateAllGrammars goal)"
proof -
  define F where "F = (\<lambda>i. concat (map (\<lambda>g.
               map (\<lambda>h. AList.merge (AList.merge [(goal, [take i goal, drop i goal])] h) g)
                   (generateAllGrammars (drop i goal)))
               (generateAllGrammars (take i goal))))"
  have eq: "generateAllGrammars goal = concat (map F [1 ..< length goal])"
    using assms(1) unfolding F_def by (subst generateAllGrammars.simps) simp
  have "AList.merge (AList.merge [(goal, [take i goal, drop i goal])] h) g \<in> set (F i)"
    unfolding F_def using assms(4,5) by auto
  moreover have "i \<in> set [1 ..< length goal]" using assms(2,3) by simp
  ultimately have "AList.merge (AList.merge [(goal, [take i goal, drop i goal])] h) g
       \<in> (\<Union>i \<in> set [1 ..< length goal]. set (F i))" by (rule UN_I [rotated])
  then show ?thesis unfolding eq by simp
qed

lemma generateAllGrammars_nonempty: "1 \<le> length S \<Longrightarrow> generateAllGrammars S \<noteq> []"
proof (induction S rule: generateAllGrammars.induct)
  case (1 goal)
  show ?case
  proof (cases "length goal = 1")
    case True
    then show ?thesis by (subst generateAllGrammars.simps) simp
  next
    case False
    with "1.prems" have len: "2 \<le> length goal" by simp
    then have i: "1 \<in> set [1 ..< length goal]" by simp
    have l1: "1 \<le> length (take 1 goal)" using len by simp
    have l2: "1 \<le> length (drop 1 goal)" using len by simp
    from "1.IH"(1) [OF False i l1] obtain g where g: "g \<in> set (generateAllGrammars (take 1 goal))"
      by (cases "generateAllGrammars (take 1 goal)") auto
    from "1.IH"(2) [OF False i g l2] obtain h where h: "h \<in> set (generateAllGrammars (drop 1 goal))"
      by (cases "generateAllGrammars (drop 1 goal)") auto
    have "AList.merge (AList.merge [(goal, [take 1 goal, drop 1 goal])] h) g
            \<in> set (generateAllGrammars goal)"
    proof (rule generateAllGrammars_mem [OF False _ _ g h])
      show "1 \<le> (1::nat)" by simp
      show "1 < length goal" using len by simp
    qed
    then show ?thesis by auto
  qed
qed

lemma stageCount_ok:
  "valid_grammar G \<Longrightarrow> \<exists>n. stageCount G s = Some (Inr n)"
proof (induction G s rule: stageCount.induct)
  case (1 G s)
  note v = "1.prems"
  show ?case
  proof (cases "map_of G s")
    case None
    then show ?thesis by (subst stageCount.simps) simp
  next
    case (Some rhs)
    have ne: "rhs \<noteq> []" using v Some unfolding valid_grammar_def by fastforce
    have sh: "\<forall>t \<in> set rhs. length t < length s"
      using valid_grammar_shorter [OF v Some] by blast
    then have nl: "\<not> list_ex (\<lambda>t. length s \<le> length t) rhs"
      by (auto simp: list_ex_iff)
    define counts where "counts = map (\<lambda>t. if length t < length s then stageCount G t else None) rhs"
    have all: "\<forall>c \<in> set counts. \<exists>n. c = Some (Inr n)"
    proof
      fix c assume "c \<in> set counts"
      then obtain t where t: "t \<in> set rhs" "c = (if length t < length s then stageCount G t else None)"
        by (auto simp: counts_def)
      with sh have c: "c = stageCount G t" and lt: "length t < length s" by auto
      from "1.IH" [OF Some ne nl t(1) lt v] c show "\<exists>n. c = Some (Inr n)" by simp
    qed
    have n1: "\<not> list_ex (\<lambda>c. c = None) counts" using all by (auto simp: list_ex_iff)
    have n2: "\<not> list_ex (\<lambda>c. case c of Some (Inl e) \<Rightarrow> True | _ \<Rightarrow> False) counts"
      using all by (auto simp: list_ex_iff)
    show ?thesis
      using Some ne nl n1 n2
      by (subst stageCount.simps) (simp add: counts_def [symmetric] Let_def)
  qed
qed

lemma keyed_ok:
  "\<forall>G \<in> set Gs. valid_grammar G \<Longrightarrow>
   \<exists>ks. keyed S Gs = Some (Inr ks) \<and> map fst ks = Gs \<and> (\<forall>k \<in> set ks. fst (snd k) = length (fst k))"
proof (induction Gs)
  case Nil
  show ?case by simp
next
  case (Cons G Gs)
  from stageCount_ok [of G S] Cons.prems obtain n where n: "stageCount G S = Some (Inr n)" by auto
  from Cons obtain ks where ks: "keyed S Gs = Some (Inr ks)" "map fst ks = Gs"
    "\<forall>k \<in> set ks. fst (snd k) = length (fst k)" by auto
  show ?case using n ks by simp
qed

lemma first_min_fold:
  fixes k :: "'a \<times> ('b :: linorder)"
  shows "fold (\<lambda>c best. if snd c < snd best then c else best) rest k \<in> set (k # rest)
     \<and> (\<forall>c \<in> set (k # rest). snd (fold (\<lambda>c best. if snd c < snd best then c else best) rest k) \<le> snd c)"
proof (induction rest arbitrary: k)
  case Nil
  show ?case by simp
next
  case (Cons c rest)
  let ?k' = "if snd c < snd k then c else k"
  from Cons [of ?k'] show ?case by (auto split: if_splits)
qed

lemma first_min_ok:
  assumes "ks \<noteq> []"
  shows "\<exists>b \<in> set ks. first_min ks = Inr (fst b) \<and> (\<forall>c \<in> set ks. snd b \<le> snd c)"
proof -
  from assms obtain k rest where ks: "ks = k # rest" by (cases ks) auto
  from first_min_fold [of rest k] show ?thesis by (auto simp: ks first_min_def)
qed

lemma getExhaustiveGrammar_ok:
  assumes "1 \<le> length S"
  shows "\<exists>G. getExhaustiveGrammar S = Some (Inr G) \<and> G \<in> set (generateAllGrammars S)
           \<and> (\<forall>G' \<in> set (generateAllGrammars S). length G \<le> length G')"
proof -
  have v: "\<forall>G \<in> set (generateAllGrammars S). valid_grammar G"
    using generateAllGrammars_props by blast
  from keyed_ok [OF v, of S] obtain ks where ks: "keyed S (generateAllGrammars S) = Some (Inr ks)"
    "map fst ks = generateAllGrammars S" "\<forall>k \<in> set ks. fst (snd k) = length (fst k)" by blast
  have "ks \<noteq> []" using generateAllGrammars_nonempty [OF assms] ks(2) by auto
  from first_min_ok [OF this] obtain b where b: "b \<in> set ks" "first_min ks = Inr (fst b)"
    "\<forall>c \<in> set ks. snd b \<le> snd c" by blast
  have r: "getExhaustiveGrammar S = Some (Inr (fst b))"
    by (simp add: getExhaustiveGrammar_def ks(1) b(2))
  have m: "fst b \<in> set (generateAllGrammars S)" using b(1) ks(2) by (metis image_eqI set_map)
  have "\<forall>G' \<in> set (generateAllGrammars S). length (fst b) \<le> length G'"
  proof
    fix G' assume "G' \<in> set (generateAllGrammars S)"
    then obtain c where c: "c \<in> set ks" "fst c = G'" using ks(2) by (metis imageE set_map)
    from b(3) c(1) have "snd b \<le> snd c" by blast
    then have "fst (snd b) \<le> fst (snd c)" by (auto simp: less_eq_prod_def)
    then show "length (fst b) \<le> length G'" using ks(3) b(1) c by simp
  qed
  with r m show ?thesis by blast
qed

text \<open>A binary well-formed grammar contains the productions of one of the enumerated grammars.\<close>

lemma binary_grammar_tree:
  assumes v: "valid_grammar G" and b: "\<forall>N rhs. map_of G N = Some rhs \<longrightarrow> length rhs = 2"
  shows "1 \<le> length S \<Longrightarrow> length S < 2 \<or> has_key G S \<Longrightarrow>
         \<exists>G' \<in> set (generateAllGrammars S). fst ` set G' \<subseteq> fst ` set G"
proof (induction "length S" arbitrary: S rule: less_induct)
  case less
  show ?case
  proof (cases "length S = 1")
    case True
    then have "([] :: grammar) \<in> set (generateAllGrammars S)"
      by (subst generateAllGrammars.simps) simp
    moreover have "fst ` set ([] :: grammar) \<subseteq> fst ` set G" by simp
    ultimately show ?thesis by blast
  next
    case False
    with less.prems have len: "2 \<le> length S" and key: "has_key G S" by auto
    from key obtain rhs where rhs: "map_of G S = Some rhs" by (auto simp: has_key_def)
    with b have "length rhs = 2" by blast
    then obtain l r where lr: "rhs = [l, r]"
      by (cases rhs; cases "tl rhs") auto
    have c: "l @ r = S" and lne: "l \<noteq> []" and rne: "r \<noteq> []"
      and lk: "2 \<le> length l \<longrightarrow> has_key G l" and rk: "2 \<le> length r \<longrightarrow> has_key G r"
      using v rhs lr unfolding valid_grammar_def by fastforce+
    define i where "i = length l"
    have i: "1 \<le> i" "i < length S" using lne rne c by (auto simp: i_def Suc_le_eq)
    have tl: "take i S = l" and dr: "drop i S = r" using c by (auto simp: i_def)
    have "length l < length S" "1 \<le> length l" "length l < 2 \<or> has_key G l"
      using i lk by (auto simp: i_def)
    from less.hyps [OF this] obtain g where g: "g \<in> set (generateAllGrammars l)"
      "fst ` set g \<subseteq> fst ` set G" by blast
    have "length r < length S" "1 \<le> length r" "length r < 2 \<or> has_key G r"
      using lne rne rk c by (auto simp: Suc_le_eq)
    from less.hyps [OF this] obtain h where h: "h \<in> set (generateAllGrammars r)"
      "fst ` set h \<subseteq> fst ` set G" by blast
    let ?G' = "AList.merge (AList.merge [(S, [take i S, drop i S])] h) g"
    have "?G' \<in> set (generateAllGrammars S)"
      using g(1) h(1) by (intro generateAllGrammars_mem [OF False i]) (simp_all add: tl dr)
    moreover have "S \<in> fst ` set G" using key by (simp add: has_key_iff)
    then have "fst ` set ?G' \<subseteq> fst ` set G" using g(2) h(2) by (simp add: dom_merge)
    ultimately show ?thesis by blast
  qed
qed

lemma distinct_keys_length:
  assumes "distinct (map fst A)" "distinct (map fst B)" "fst ` set A \<subseteq> fst ` set B"
  shows "length A \<le> length B"
proof -
  have "card (fst ` set A) \<le> card (fst ` set B)" using assms(3) by (intro card_mono) auto
  moreover have "card (fst ` set A) = length A" using assms(1) distinct_card [of "map fst A"] by simp
  moreover have "card (fst ` set B) = length B" using assms(2) distinct_card [of "map fst B"] by simp
  ultimately show ?thesis by simp
qed

lemma grammarSize_binary:
  "\<forall>(N, rhs) \<in> set G. length rhs = 2 \<Longrightarrow> grammarSize G = 2 * length G"
  unfolding grammarSize_def by (induction G) auto

lemma grammarSize_at_least:
  "\<forall>(N, rhs) \<in> set G. 2 \<le> length rhs \<Longrightarrow> 2 * length G \<le> grammarSize G"
  unfolding grammarSize_def by (induction G) auto

lemma map_of_binary:
  assumes "distinct (map fst G)" "\<forall>N rhs. map_of G N = Some rhs \<longrightarrow> P N rhs"
  shows "\<forall>(N, rhs) \<in> set G. P N rhs"
  using assms by (auto simp: map_of_eq_Some_iff)

text \<open>The exhaustive grammar is no larger than any binary well-formed grammar of the string.\<close>

lemma exhaustive_le_binary:
  assumes len: "1 \<le> length S" and ex: "getExhaustiveGrammar S = Some (Inr E)"
    and v: "valid_grammar G" and d: "distinct (map fst G)"
    and b: "\<forall>N rhs. map_of G N = Some rhs \<longrightarrow> length rhs = 2"
    and k: "length S < 2 \<or> has_key G S"
  shows "grammarSize E \<le> grammarSize G"
proof -
  from getExhaustiveGrammar_ok [OF len] ex have E: "E \<in> set (generateAllGrammars S)"
    and mn: "\<forall>G' \<in> set (generateAllGrammars S). length E \<le> length G'" by auto
  from binary_grammar_tree [OF v b len k] obtain G' where G': "G' \<in> set (generateAllGrammars S)"
    "fst ` set G' \<subseteq> fst ` set G" by blast
  have dG': "distinct (map fst G')" using generateAllGrammars_props [OF G'(1)] by blast
  have "length E \<le> length G'" using mn G'(1) by blast
  also have "length G' \<le> length G" using distinct_keys_length [OF dG' d G'(2)] .
  finally have le: "length E \<le> length G" .
  have dE: "distinct (map fst E)" and bE: "\<forall>N rhs. map_of E N = Some rhs \<longrightarrow> length rhs = 2"
    using generateAllGrammars_props [OF E] by blast+
  have "grammarSize E = 2 * length E"
    using map_of_binary [OF dE bE] by (intro grammarSize_binary)
  moreover have "grammarSize G = 2 * length G"
    using map_of_binary [OF d b] by (intro grammarSize_binary)
  ultimately show ?thesis using le by simp
qed

section \<open>Lehman1: the algorithm returns a well-formed grammar\<close>

lemma pairWithMaximumOverlap_indices:
  assumes "2 \<le> length Ss"
  shows "\<exists>i j. i < j \<and> j < length Ss \<and> pairWithMaximumOverlap Ss = Inr (Ss ! i, Ss ! j)"
proof -
  let ?n = "length Ss"
  let ?P = "(\<Union>i \<in> {0 ..< ?n}. ovTriple Ss i ` {i + 1 ..< ?n})"
  let ?A = "insert (- 1, None, None) ?P"
  have fin: "finite ?A" by auto
  have mem: "Max ?A \<in> ?A" using fin by (intro Max_in) auto
  have in01: "ovTriple Ss 0 1 \<in> ?P" using assms by (intro ovTriple_mem) auto
  have "(- 1, None, None) < ovTriple Ss 0 1"
    by (simp add: ovTriple_def less_prod_def)
  moreover have "ovTriple Ss 0 1 \<le> Max ?A" using fin in01 by (intro Max_ge) auto
  ultimately have "Max ?A \<noteq> (- 1, None, None)" by auto
  with mem have "Max ?A \<in> ?P" by blast
  then obtain i j where ij: "i < j" "j < ?n" and eq: "Max ?A = ovTriple Ss i j"
    by (auto simp: Suc_le_eq)
  have top: "maxOverlapTriple Ss = ovTriple Ss i j"
    using eq by (simp only: maxOverlapTriple_Max)
  have "pairWithMaximumOverlap Ss = Inr (Ss ! i, Ss ! j)"
    by (simp add: pairWithMaximumOverlap_def top ovTriple_def)
  with ij show ?thesis by blast
qed

lemma computeOverlap_fold:
  assumes "\<forall>i \<in> set xs. i \<le> length s1"
    and "fst (snd r) \<le> length s1 \<and> drop (fst (snd r)) s1 = take (length s1 - fst (snd r)) s2"
  shows "fst (snd (fold (\<lambda>i max_overlap.
             if drop (length s1 - i) s1 = take i s2
             then max max_overlap (i, length s1 - i, 0) else max_overlap) xs r)) \<le> length s1
       \<and> drop (fst (snd (fold (\<lambda>i max_overlap.
             if drop (length s1 - i) s1 = take i s2
             then max max_overlap (i, length s1 - i, 0) else max_overlap) xs r))) s1
          = take (length s1 - fst (snd (fold (\<lambda>i max_overlap.
             if drop (length s1 - i) s1 = take i s2
             then max max_overlap (i, length s1 - i, 0) else max_overlap) xs r))) s2"
  using assms
proof (induction xs arbitrary: r)
  case Nil
  then show ?case by simp
next
  case (Cons i xs)
  let ?r' = "if drop (length s1 - i) s1 = take i s2 then max r (i, length s1 - i, 0) else r"
  have i: "i \<le> length s1" using Cons.prems(1) by simp
  have "fst (snd ?r') \<le> length s1 \<and> drop (fst (snd ?r')) s1 = take (length s1 - fst (snd ?r')) s2"
  proof (cases "drop (length s1 - i) s1 = take i s2")
    case True
    have "max r (i, length s1 - i, 0) = r \<or> max r (i, length s1 - i, 0) = (i, length s1 - i, 0)"
      by (auto simp: max_def)
    then show ?thesis using True i Cons.prems(2) by (elim disjE) simp_all
  next
    case False
    then show ?thesis using Cons.prems(2) by simp
  qed
  from Cons.IH [OF _ this] Cons.prems(1) show ?case by simp
qed

lemma computeOverlap_props:
  "fst (snd (computeOverlap s1 s2)) \<le> length s1
   \<and> drop (fst (snd (computeOverlap s1 s2))) s1
       = take (length s1 - fst (snd (computeOverlap s1 s2))) s2"
  unfolding computeOverlap_def
  by (rule computeOverlap_fold) auto

lemma merge_contains:
  assumes a: "a \<le> length s1" and ov: "drop a s1 = take (length s1 - a) s2"
  shows "take (length s1) (take a s1 @ s2) = s1" and "drop a (take a s1 @ s2) = s2"
proof -
  have "take (length s1) (take a s1 @ s2) = take a s1 @ take (length s1 - a) s2"
    using a by simp
  also have "\<dots> = take a s1 @ drop a s1" by (simp only: ov)
  finally show "take (length s1) (take a s1 @ s2) = s1" by simp
  show "drop a (take a s1 @ s2) = s2" using a by simp
qed

lemma occurs_at_prefix:
  assumes "occurs_at s x off" "take (length x) y = x"
  shows "occurs_at s y off"
proof -
  from assms(2) obtain z where y: "y = x @ z"
    by (metis append_take_drop_id)
  have "length (take (length s) (drop off x)) = length s"
    using assms(1) unfolding occurs_at_def by simp
  then have l: "length s \<le> length x - off" by simp
  have "take (length s) (drop off (x @ z)) = take (length s) (drop off x)"
    using l by simp
  then show ?thesis using assms(1) unfolding occurs_at_def y by simp
qed

lemma occurs_at_shift:
  assumes "occurs_at s x off" "drop a y = x"
  shows "occurs_at s y (off + a)"
proof -
  have "drop (off + a) y = drop off x" unfolding assms(2) [symmetric] by simp
  then show ?thesis using assms(1) unfolding occurs_at_def by simp
qed

lemma nth_remains_after_remove1:
  "i < j \<Longrightarrow> j < length xs \<Longrightarrow> xs ! j \<in> set (remove1 (xs ! i) xs)"
proof (induction xs arbitrary: i j)
  case Nil
  then show ?case by simp
next
  case (Cons x xs)
  from Cons.prems obtain j' where j: "j = Suc j'" by (cases j) auto
  show ?case
  proof (cases "x = (x # xs) ! i")
    case True
    then show ?thesis using Cons.prems j by simp
  next
    case False
    then obtain i' where i: "i = Suc i'" by (cases i) auto
    from Cons.IH [of i' j'] Cons.prems i j have "xs ! j' \<in> set (remove1 (xs ! i') xs)" by simp
    then show ?thesis using False i j by simp
  qed
qed

lemma set_remove1_remove1:
  "set xs \<subseteq> set (remove1 b (remove1 a xs)) \<union> {a, b}"
proof
  fix x assume "x \<in> set xs"
  show "x \<in> set (remove1 b (remove1 a xs)) \<union> {a, b}"
  proof (cases "x = a \<or> x = b")
    case True
    then show ?thesis by auto
  next
    case False
    then have "x \<in> set (remove1 a xs)" using \<open>x \<in> set xs\<close> by simp
    then have "x \<in> set (remove1 b (remove1 a xs))" using False by simp
    then show ?thesis by simp
  qed
qed

lemma blum_step:
  assumes inv: "blum_inv Ss strings ix" and len: "length strings > 1"
  shows "\<exists>strings' ix'. blum_loop strings ix = blum_loop strings' ix'
           \<and> blum_inv Ss strings' ix' \<and> length strings' < length strings"
proof -
  from len have "2 \<le> length strings" by simp
  from pairWithMaximumOverlap_indices [OF this]
  obtain i j where ij: "i < j" "j < length strings"
    and pw: "pairWithMaximumOverlap strings = Inr (strings ! i, strings ! j)" by blast
  define s1 where "s1 = strings ! i"
  define s2 where "s2 = strings ! j"
  define a where "a = fst (snd (computeOverlap s1 s2))"
  define new where "new = take a s1 @ s2"
  define strings' where "strings' = remove1 s2 (remove1 s1 strings) @ [new]"
  define indices where "indices = (if has_key ix new then ix else AList.update new [] ix)"
  have s1_in: "s1 \<in> set strings" using ij by (simp add: s1_def)
  have s2_in': "s2 \<in> set (remove1 s1 strings)"
    unfolding s1_def s2_def using ij by (rule nth_remains_after_remove1)
  have s2_in: "s2 \<in> set strings" using ij by (simp add: s2_def)
  from inv have keys: "\<forall>x \<in> set strings. has_key ix x"
    and bound: "\<forall>x offs. map_of ix x = Some offs \<longrightarrow> (\<forall>off \<in> set offs. off \<le> length x)"
    and occ: "\<forall>s \<in> set Ss. \<exists>x \<in> set strings. \<exists>offs. map_of ix x = Some offs
              \<and> (\<exists>off \<in> set offs. occurs_at s x off)"
    unfolding blum_inv_def by blast+
  from keys s1_in obtain i1 where i1: "map_of ix s1 = Some i1" by (auto simp: has_key_def)
  from keys s2_in obtain i2 where i2: "map_of ix s2 = Some i2" by (auto simp: has_key_def)
  have ind_mono: "map_of indices x = Some offs" if "map_of ix x = Some offs" for x offs
    using that by (auto simp: indices_def update_conv' has_key_def)
  have "has_key indices new" by (simp add: indices_def has_key_def update_conv')
  then obtain old where old: "map_of indices new = Some old" by (auto simp: has_key_def)
  have old_cases: "old = [] \<or> map_of ix new = Some old"
    using old by (auto simp: indices_def update_conv' has_key_def split: if_splits)
  define ix' where "ix' = AList.update new (old @ i1 @ map (\<lambda>i. i + a) i2) indices"
  have step: "blum_loop strings ix = blum_loop strings' ix'"
    using len pw s1_in s2_in' old ind_mono [OF i1] ind_mono [OF i2]
    unfolding ix'_def strings'_def indices_def new_def a_def s1_def s2_def
    by (subst blum_loop.simps) (simp add: Let_def)
  have a_le: "a \<le> length s1" and ov: "drop a s1 = take (length s1 - a) s2"
    using computeOverlap_props [of s1 s2] by (simp_all add: a_def)
  have pre: "take (length s1) new = s1" and suf: "drop a new = s2"
    unfolding new_def using merge_contains [OF a_le ov] by simp_all
  have len_new: "length new = a + length s2" using a_le by (simp add: new_def)
  have "length (drop a s1) = length (take (length s1 - a) s2)" by (simp only: ov)
  then have s1_le: "length s1 \<le> length new" using len_new by simp
  have new': "map_of ix' new = Some (old @ i1 @ map (\<lambda>i. i + a) i2)"
    by (simp add: ix'_def update_conv')
  have other': "map_of ix' x = map_of ix x" if "x \<noteq> new" for x
    using that by (simp add: ix'_def indices_def update_conv')
  have grow: "\<exists>offs'. map_of ix' x = Some offs' \<and> set offs \<subseteq> set offs'"
    if "map_of ix x = Some offs" for x offs
  proof (cases "x = new")
    case True
    with old_cases that have "old = offs \<or> old = []" by auto
    moreover have "has_key ix new" using that True by (simp add: has_key_def)
    then have "map_of ix new = Some old" using old by (simp add: indices_def)
    ultimately have "old = offs" using that True by simp
    then show ?thesis using True new' by simp
  next
    case False
    then show ?thesis using other' that by simp
  qed
  have len': "length strings' < length strings"
    using s1_in s2_in' len by (simp add: strings'_def length_remove1)
  have "blum_inv Ss strings' ix'"
    unfolding blum_inv_def
  proof (intro conjI ballI allI impI)
    show "strings' \<noteq> []" by (simp add: strings'_def)
  next
    fix x assume "x \<in> set strings'"
    then have "x = new \<or> x \<in> set strings"
      by (auto simp: strings'_def dest: notin_set_remove1)
    then show "has_key ix' x"
    proof
      assume "x = new" then show ?thesis using new' by (simp add: has_key_def)
    next
      assume "x \<in> set strings"
      with keys obtain offs where "map_of ix x = Some offs" by (auto simp: has_key_def)
      from grow [OF this] show ?thesis by (auto simp: has_key_def)
    qed
  next
    fix x offs off
    assume m: "map_of ix' x = Some offs" and off: "off \<in> set offs"
    show "off \<le> length x"
    proof (cases "x = new")
      case True
      with m new' have offs: "offs = old @ i1 @ map (\<lambda>i. i + a) i2" by simp
      from off consider "off \<in> set old" | "off \<in> set i1" | "off \<in> (\<lambda>i. i + a) ` set i2"
        unfolding offs by auto
      then show ?thesis
      proof cases
        case 1
        with old_cases have "map_of ix new = Some old" by auto
        with bound 1 show ?thesis using True by blast
      next
        case 2
        with bound i1 have "off \<le> length s1" by blast
        with s1_le True show ?thesis by simp
      next
        case 3
        then obtain o2 where "o2 \<in> set i2" "off = o2 + a" by auto
        moreover from bound i2 \<open>o2 \<in> set i2\<close> have "o2 \<le> length s2" by blast
        ultimately show ?thesis using len_new True by simp
      qed
    next
      case False
      with m other' have "map_of ix x = Some offs" by simp
      with bound off show ?thesis by blast
    qed
  next
    fix s assume "s \<in> set Ss"
    with occ obtain x offs off where x: "x \<in> set strings" and m: "map_of ix x = Some offs"
      and off: "off \<in> set offs" and o: "occurs_at s x off" by blast
    have new_in: "new \<in> set strings'" by (simp add: strings'_def)
    consider "x = s1" | "x = s2" | "x \<noteq> s1" "x \<noteq> s2" by blast
    then show "\<exists>x \<in> set strings'. \<exists>offs. map_of ix' x = Some offs
              \<and> (\<exists>off \<in> set offs. occurs_at s x off)"
    proof cases
      case 1
      with m i1 have "off \<in> set i1" using off by simp
      moreover have "occurs_at s new off" using o 1 pre by (auto intro: occurs_at_prefix)
      ultimately show ?thesis using new_in new' by (intro bexI [of _ new]) auto
    next
      case 2
      with m i2 have "off + a \<in> set (map (\<lambda>i. i + a) i2)" using off by simp
      moreover have "occurs_at s new (off + a)" using o 2 suf by (auto intro: occurs_at_shift)
      ultimately show ?thesis using new_in new' by (intro bexI [of _ new]) auto
    next
      case 3
      then have "x \<in> set (remove1 s2 (remove1 s1 strings))" using x by simp
      then have "x \<in> set strings'" by (simp add: strings'_def)
      moreover from grow [OF m] obtain offs' where "map_of ix' x = Some offs'" "set offs \<subseteq> set offs'"
        by blast
      ultimately show ?thesis using off o by blast
    qed
  qed
  with step len' show ?thesis by blast
qed

lemma blum_loop_ok:
  "blum_inv Ss strings ix \<Longrightarrow>
     \<exists>strings' ix'. blum_loop strings ix = Inr (strings', ix')
        \<and> blum_inv Ss strings' ix' \<and> length strings' \<le> 1"
proof (induction "length strings" arbitrary: strings ix rule: less_induct)
  case less
  show ?case
  proof (cases "length strings > 1")
    case True
    from blum_step [OF less.prems True] obtain strings' ix'
      where s: "blum_loop strings ix = blum_loop strings' ix'"
        and i: "blum_inv Ss strings' ix'" and l: "length strings' < length strings" by blast
    from less.hyps [OF l i] show ?thesis unfolding s .
  next
    case False
    then have "blum_loop strings ix = Inr (strings, ix)" by (subst blum_loop.simps) simp
    with False less.prems show ?thesis by simp
  qed
qed

lemma blum_initial_map_of:
  "map_of (fold (\<lambda>s ix. AList.update s [0] ix) Ss ix0) x
     = (if x \<in> set Ss then Some [0] else map_of ix0 x)"
  by (induction Ss arbitrary: ix0) (auto simp: update_conv')

lemma blum_initial_inv:
  assumes "Ss \<noteq> []"
  shows "blum_inv Ss Ss (fold (\<lambda>s ix. AList.update s [0] ix) Ss [])"
  unfolding blum_inv_def
proof (intro conjI ballI allI impI)
  fix s assume s: "s \<in> set Ss"
  have "map_of (fold (\<lambda>s ix. AList.update s [0] ix) Ss []) s = Some [0]"
    using s by (simp add: blum_initial_map_of)
  moreover have "occurs_at s s 0" by (simp add: occurs_at_def)
  ultimately show "\<exists>x \<in> set Ss. \<exists>offs. map_of (fold (\<lambda>s ix. AList.update s [0] ix) Ss []) x = Some offs
              \<and> (\<exists>off \<in> set offs. occurs_at s x off)"
    using s by (intro bexI [of _ s]) auto
qed (use assms in \<open>auto simp: blum_initial_map_of has_key_def split: if_splits\<close>)

lemma slices_Cons2:
  "slices x (a # b # rest) = take (b - a) (drop a x) # slices x (b # rest)"
  by (simp add: slices_def)

lemma slices_single: "slices x [a] = []"
  by (simp add: slices_def)

lemma slices_length: "length (slices x si) = length si - 1"
  by (simp add: slices_def)

lemma slices_concat:
  "sorted (a # si) \<Longrightarrow> concat (slices x (a # si)) = take (last (a # si) - a) (drop a x)"
proof (induction si arbitrary: a)
  case Nil
  then show ?case by (simp add: slices_single)
next
  case (Cons b rest)
  have ab: "a \<le> b" using Cons.prems by simp
  have s: "sorted (b # rest)" using Cons.prems by simp
  have bl: "b \<le> last (b # rest)" using sorted_nth_mono [OF s, of 0 "length rest"]
    by (simp add: last_conv_nth del: last.simps)
  have "concat (slices x (a # b # rest))
      = take (b - a) (drop a x) @ take (last (b # rest) - b) (drop b x)"
    using Cons.IH [OF s] by (simp only: slices_Cons2 concat.simps)
  also have "drop b x = drop (b - a) (drop a x)" using ab by simp
  also have "take (b - a) (drop a x) @ take (last (b # rest) - b) (drop (b - a) (drop a x))
      = take ((b - a) + (last (b # rest) - b)) (drop a x)"
    by (simp only: take_add)
  also have "(b - a) + (last (b # rest) - b) = last (a # b # rest) - a"
    using ab bl by simp
  finally show ?case .
qed

lemma slices_drop:
  "p < length si \<Longrightarrow> drop p (slices x si) = slices x (drop p si)"
proof (induction si arbitrary: p)
  case Nil
  then show ?case by simp
next
  case (Cons a rest)
  show ?case
  proof (cases p)
    case 0
    then show ?thesis by simp
  next
    case (Suc q)
    with Cons.prems obtain b rest' where rest: "rest = b # rest'" by (cases rest) auto
    have "q < length rest" using Cons.prems Suc by simp
    from Cons.IH [OF this] show ?thesis using Suc rest by (simp add: slices_Cons2)
  qed
qed

lemma slices_nonempty:
  "sorted_wrt (<) si \<Longrightarrow> \<forall>i \<in> set si. i \<le> length x \<Longrightarrow> \<forall>t \<in> set (slices x si). t \<noteq> []"
proof (induction si)
  case Nil
  then show ?case by (simp add: slices_def)
next
  case (Cons a rest)
  show ?case
  proof (cases rest)
    case Nil
    then show ?thesis by (simp add: slices_single)
  next
    case (Cons b rest')
    have "a < b" "b \<le> length x" using Cons.prems Cons by auto
    then have "take (b - a) (drop a x) \<noteq> []" by auto
    moreover have "\<forall>t \<in> set (slices x rest). t \<noteq> []" using Cons.IH Cons.prems by simp
    ultimately show ?thesis using Cons by (simp add: slices_Cons2)
  qed
qed

lemma slices_suffix:
  assumes s: "sorted si" and p: "p < length si" and l: "last si = length x"
  shows "concat (drop p (slices x si)) = drop (si ! p) x"
proof -
  have d: "drop p si = si ! p # drop (Suc p) si" using p by (simp add: Cons_nth_drop_Suc)
  have "sorted (drop p si)" using s by (rule sorted_wrt_drop)
  then have "concat (slices x (drop p si)) = take (last (drop p si) - si ! p) (drop (si ! p) x)"
    unfolding d by (rule slices_concat)
  moreover have "last (drop p si) = length x" using p l by simp
  ultimately show ?thesis using p by (simp add: slices_drop)
qed

lemma blum_ok:
  assumes ne: "Ss \<noteq> []" and nonempty: "\<forall>s \<in> set Ss. s \<noteq> []"
  shows "\<exists>segs. blumSmallestSuperstringAndBreaking Ss = Inr segs
           \<and> (\<forall>t \<in> set segs. t \<noteq> []) \<and> (\<forall>s \<in> set Ss. found_in s segs)"
proof -
  from blum_loop_ok [OF blum_initial_inv [OF ne]] obtain strings ix
    where run: "blum_loop Ss (fold (\<lambda>s ix. AList.update s [0] ix) Ss []) = Inr (strings, ix)"
      and inv: "blum_inv Ss strings ix" and len: "length strings \<le> 1" by blast
  from inv have "strings \<noteq> []" by (simp add: blum_inv_def)
  with len obtain x where strings: "strings = [x]" by (cases strings) auto
  from inv strings obtain offs where offs: "map_of ix x = Some offs"
    by (auto simp: blum_inv_def has_key_def)
  from inv offs have bound: "\<forall>off \<in> set offs. off \<le> length x"
    unfolding blum_inv_def by blast
  define si where "si = sort (remdups ([0] @ offs @ [length x]))"
  have res: "blumSmallestSuperstringAndBreaking Ss = Inr (slices x si)"
    by (simp add: blumSmallestSuperstringAndBreaking_def run strings offs si_def slices_def Let_def)
  have set_si: "set si = insert 0 (insert (length x) (set offs))" by (auto simp: si_def)
  have sorted: "sorted si" by (simp add: si_def)
  have strict: "sorted_wrt (<) si"
    using sorted by (simp add: strict_sorted_iff si_def)
  have le: "\<forall>i \<in> set si. i \<le> length x" using bound set_si by auto
  have si_ne: "si \<noteq> []" using set_si by auto
  have "length x \<in> set si" using set_si by simp
  then obtain q where "q < length si" "si ! q = length x" by (auto simp: in_set_conv_nth)
  then have "length x \<le> last si" using sorted_nth_mono [OF sorted, of q "length si - 1"] si_ne
    by (simp add: last_conv_nth)
  moreover have "last si \<le> length x" using le si_ne by simp
  ultimately have last: "last si = length x" by simp
  have "\<forall>t \<in> set (slices x si). t \<noteq> []" using strict le by (rule slices_nonempty)
  moreover have "found_in s (slices x si)" if s: "s \<in> set Ss" for s
  proof -
    from inv s strings offs obtain off where off: "off \<in> set offs" and o: "occurs_at s x off"
      unfolding blum_inv_def by fastforce
    from off set_si have "off \<in> set si" by simp
    then obtain p where p: "p < length si" and sip: "si ! p = off" by (auto simp: in_set_conv_nth)
    from nonempty s have "s \<noteq> []" by simp
    with o have "drop off x \<noteq> []" unfolding occurs_at_def by auto
    then have "off < length x" by simp
    have "p \<noteq> length si - 1"
    proof
      assume "p = length si - 1"
      then have "si ! p = last si" using si_ne by (simp add: last_conv_nth)
      with last sip \<open>off < length x\<close> show False by simp
    qed
    with p have p': "p < length (slices x si)" by (simp add: slices_length)
    have "concat (drop p (slices x si)) = drop off x"
      using slices_suffix [OF sorted p last] sip by simp
    with o have "take (length s) (concat (drop p (slices x si))) = s"
      by (simp add: occurs_at_def)
    with p' show ?thesis unfolding found_in_def by blast
  qed
  ultimately show ?thesis using res by blast
qed

lemma concat_splitTooBigs: "concat (splitTooBigs C k) = concat C"
proof (induction C)
  case Nil
  show ?case by simp
next
  case (Cons s C)
  have "take (length s div 2) s @ drop (length s div 2) s @ concat C = s @ concat C"
    by (simp only: append_assoc [symmetric] append_take_drop_id)
  with Cons show ?case by simp
qed

lemma splitTooBigs_suffix:
  "p \<le> length C \<Longrightarrow>
     \<exists>p' \<le> length (splitTooBigs C k).
        concat (drop p' (splitTooBigs C k)) = concat (drop p C)
        \<and> (p < length C \<longrightarrow> p' < length (splitTooBigs C k))"
proof (induction C arbitrary: p)
  case Nil
  then show ?case by simp
next
  case (Cons s C)
  show ?case
  proof (cases p)
    case 0
    have "concat (drop 0 (splitTooBigs (s # C) k)) = concat (drop 0 (s # C))"
      by (simp only: drop_0 concat_splitTooBigs)
    moreover have "0 < length (splitTooBigs (s # C) k)" by simp
    ultimately show ?thesis using 0 by (intro exI [of _ 0]) simp
  next
    case (Suc q)
    with Cons.prems have "q \<le> length C" by simp
    from Cons.IH [OF this] obtain q' where q': "q' \<le> length (splitTooBigs C k)"
      and eq: "concat (drop q' (splitTooBigs C k)) = concat (drop q C)"
      and lt: "q < length C \<longrightarrow> q' < length (splitTooBigs C k)" by blast
    show ?thesis
    proof (cases "k < length s")
      case True
      then show ?thesis using Suc q' eq lt by (intro exI [of _ "Suc (Suc q')"]) simp
    next
      case False
      then show ?thesis using Suc q' eq lt by (intro exI [of _ "Suc q'"]) simp
    qed
  qed
qed

lemma found_in_splitTooBigs:
  assumes "found_in s C"
  shows "found_in s (splitTooBigs C k)"
proof -
  from assms obtain p where p: "p < length C" and t: "take (length s) (concat (drop p C)) = s"
    unfolding found_in_def by blast
  from splitTooBigs_suffix [of p C k] p obtain p'
    where "p' < length (splitTooBigs C k)"
      and "concat (drop p' (splitTooBigs C k)) = concat (drop p C)" by auto
  with t show ?thesis unfolding found_in_def by auto
qed

lemma splitTooBigs_nonempty:
  "1 \<le> k \<Longrightarrow> \<forall>t \<in> set C. t \<noteq> [] \<Longrightarrow> \<forall>t \<in> set (splitTooBigs C k). t \<noteq> []"
  by (induction C) auto

lemma found_in_nonempty: "found_in s C \<Longrightarrow> C \<noteq> []"
  by (auto simp: found_in_def)

lemma generateCs_loop_ok:
  "levels_ok Cs \<Longrightarrow>
     \<exists>Cs'. generateCs_loop k Cs = Inr Cs' \<and> levels_ok Cs' \<and> hd Cs' = hd Cs"
proof (induction k arbitrary: Cs rule: less_induct)
  case (less k)
  show ?case
  proof (cases "2 \<le> k")
    case False
    then have "generateCs_loop k Cs = Inr Cs" by (subst generateCs_loop.simps) simp
    with less.prems show ?thesis by simp
  next
    case True
    from less.prems have Cs: "Cs \<noteq> []"
      and lev: "\<forall>C \<in> set Cs. C \<noteq> [] \<and> (\<forall>t \<in> set C. t \<noteq> [])"
      and adj: "\<forall>m. Suc m < length Cs \<longrightarrow> (\<forall>s \<in> set (Cs ! m). found_in s (Cs ! Suc m))"
      unfolding levels_ok_def by blast+
    have "last Cs \<in> set Cs" using Cs by simp
    with lev have l1: "last Cs \<noteq> []" and l2: "\<forall>t \<in> set (last Cs). t \<noteq> []" by blast+
    from blum_ok [OF l1 l2] obtain pk
      where pk: "blumSmallestSuperstringAndBreaking (last Cs) = Inr pk"
        and pk_ne: "\<forall>t \<in> set pk. t \<noteq> []"
        and pk_found: "\<forall>s \<in> set (last Cs). found_in s pk" by blast
    define new where "new = splitTooBigs pk k"
    have new_found: "\<forall>s \<in> set (last Cs). found_in s new"
      using pk_found by (simp add: new_def found_in_splitTooBigs)
    have new_ne: "\<forall>t \<in> set new. t \<noteq> []"
      unfolding new_def using True pk_ne by (intro splitTooBigs_nonempty) auto
    from l1 obtain s0 where "s0 \<in> set (last Cs)" by (cases "last Cs") auto
    with new_found have "new \<noteq> []" by (auto dest: found_in_nonempty)
    have lev': "levels_ok (Cs @ [new])"
      unfolding levels_ok_def
    proof (intro conjI allI impI ballI)
      show "Cs @ [new] \<noteq> []" by simp
    next
      fix C assume "C \<in> set (Cs @ [new])"
      then show "C \<noteq> []" using lev \<open>new \<noteq> []\<close> by auto
    next
      fix C t assume "C \<in> set (Cs @ [new])" "t \<in> set C"
      then show "t \<noteq> []" using lev new_ne by auto
    next
      fix m s assume m: "Suc m < length (Cs @ [new])" and s: "s \<in> set ((Cs @ [new]) ! m)"
      show "found_in s ((Cs @ [new]) ! Suc m)"
      proof (cases "Suc m < length Cs")
        case True
        then show ?thesis using adj s by (simp add: nth_append)
      next
        case False
        with m have e: "Suc m = length Cs" by simp
        then have m': "m = length Cs - 1" by simp
        have "(Cs @ [new]) ! m = last Cs" using Cs
          unfolding m' by (simp add: nth_append last_conv_nth)
        moreover have "(Cs @ [new]) ! Suc m = new" using e by (simp add: nth_append)
        ultimately show ?thesis using new_found s by simp
      qed
    qed
    have "k div 2 < k" using True by simp
    from less.IH [OF this lev'] obtain Cs'
      where "generateCs_loop (k div 2) (Cs @ [new]) = Inr Cs'" "levels_ok Cs'"
        "hd Cs' = hd (Cs @ [new])" by blast
    moreover have "generateCs_loop k Cs = generateCs_loop (k div 2) (Cs @ [new])"
      using True pk by (subst generateCs_loop.simps) (simp add: new_def)
    ultimately show ?thesis using Cs by simp
  qed
qed

lemma generateCs_ok:
  assumes "S \<noteq> []"
  shows "\<exists>Cs. generateCs lg S = Inr Cs \<and> levels_ok Cs \<and> hd Cs = [S]"
proof -
  have "levels_ok [[S]]" using assms by (simp add: levels_ok_def)
  from generateCs_loop_ok [OF this] show ?thesis
    using assms by (simp add: generateCs_def Let_def)
qed

lemma seg_join_split:
  assumes "a \<le> m" "m \<le> b"
  shows "seg_join C a m @ seg_join C m b = seg_join C a b"
proof -
  have "take (b - a) (drop a C) = take ((m - a) + (b - m)) (drop a C)" using assms by simp
  also have "\<dots> = take (m - a) (drop a C) @ take (b - m) (drop (m - a) (drop a C))"
    by (simp only: take_add)
  also have "drop (m - a) (drop a C) = drop m C" using assms by simp
  finally show ?thesis by (simp add: seg_join_def)
qed

lemma seg_join_single: "a < length C \<Longrightarrow> seg_join C a (Suc a) = C ! a"
  by (simp add: seg_join_def take_Suc_conv_app_nth)

lemma seg_join_empty: "seg_join C a a = []"
  by (simp add: seg_join_def)

lemma seg_join_Cons:
  assumes "a < b" "a < length C"
  shows "seg_join C a b = C ! a @ seg_join C (Suc a) b"
proof -
  have "seg_join C a (Suc a) @ seg_join C (Suc a) b = seg_join C a b"
    using assms by (intro seg_join_split) auto
  then show ?thesis using assms by (simp add: seg_join_single)
qed

lemma seg_join_snoc:
  assumes "a < b" "b \<le> length C"
  shows "seg_join C a b = seg_join C a (b - 1) @ C ! (b - 1)"
proof -
  have "seg_join C a (b - 1) @ seg_join C (b - 1) b = seg_join C a b"
    using assms by (intro seg_join_split) auto
  moreover have "seg_join C (b - 1) b = C ! (b - 1)"
    using seg_join_single [of "b - 1" C] assms by simp
  ultimately show ?thesis by simp
qed

lemma seg_join_suffix:
  assumes "a \<le> b"
  shows "concat (drop a C) = seg_join C a b @ concat (drop b C)"
proof -
  have "drop a C = take (b - a) (drop a C) @ drop (b - a) (drop a C)"
    by (simp only: append_take_drop_id)
  also have "drop (b - a) (drop a C) = drop b C" using assms by simp
  finally have "concat (drop a C) = concat (take (b - a) (drop a C) @ drop b C)" by simp
  then show ?thesis by (simp add: seg_join_def)
qed

lemma seg_join_take:
  assumes "b \<le> mid"
  shows "seg_join (take mid X) a b = seg_join X a b"
proof -
  have "take (b - a) (drop a (take mid X)) = take (b - a) (take (mid - a) (drop a X))"
    by (simp add: drop_take)
  also have "\<dots> = take (b - a) (drop a X)" using assms by (simp add: min_def)
  finally show ?thesis by (simp add: seg_join_def)
qed

lemma seg_join_drop: "seg_join (drop mid X) a b = seg_join X (a + mid) (b + mid)"
  by (simp add: seg_join_def add.commute)

lemma length_concat_nonempty:
  "\<forall>t \<in> set xs. t \<noteq> [] \<Longrightarrow> length xs \<le> length (concat xs)"
proof (induction xs)
  case Nil
  show ?case by simp
next
  case (Cons x xs)
  then have "1 \<le> length x" by (cases x) auto
  with Cons show ?case by simp
qed

lemma seg_join_length:
  assumes "\<forall>t \<in> set C. t \<noteq> []" "b \<le> length C"
  shows "b - a \<le> length (seg_join C a b)"
proof -
  have "\<forall>t \<in> set (take (b - a) (drop a C)). t \<noteq> []"
    using assms(1) by (meson in_set_dropD in_set_takeD)
  from length_concat_nonempty [OF this] show ?thesis
    using assms(2) by (simp add: seg_join_def)
qed

lemma findPrefixStart_ok:
  assumes "found_in s C"
  shows "\<exists>start < length C. findPrefixStart s C = Inr start
           \<and> take (length s) (concat (drop start C)) = s"
proof (cases "List.find (\<lambda>i. s = take (length s) (concat (drop i C))) [0 ..< length C]")
  case None
  then have "\<forall>i < length C. s \<noteq> take (length s) (concat (drop i C))"
    by (auto simp: find_None_iff)
  with assms show ?thesis unfolding found_in_def by metis
next
  case (Some i)
  then have "i < length C \<and> s = take (length s) (concat (drop i C))"
    by (auto simp: find_Some_iff)
  then show ?thesis using Some by (auto simp: findPrefixStart_def)
qed

lemma findLongestPrefix_loop_ok:
  "e \<le> length C \<Longrightarrow>
     e \<le> fst (findLongestPrefix_loop C e r)
     \<and> fst (findLongestPrefix_loop C e r) \<le> length C
     \<and> length (seg_join C e (fst (findLongestPrefix_loop C e r)))
          + snd (findLongestPrefix_loop C e r) = r
     \<and> (fst (findLongestPrefix_loop C e r) < length C
          \<longrightarrow> snd (findLongestPrefix_loop C e r)
                < length (C ! fst (findLongestPrefix_loop C e r)))"
proof (induction C e r rule: findLongestPrefix_loop.induct)
  case (1 C e r)
  show ?case
  proof (cases "e < length C \<and> length (C ! e) \<le> r")
    case False
    then have "findLongestPrefix_loop C e r = (e, r)"
      by (subst findLongestPrefix_loop.simps) auto
    with False "1.prems" show ?thesis by (auto simp: seg_join_empty)
  next
    case True
    have step: "findLongestPrefix_loop C e r = findLongestPrefix_loop C (e + 1) (r - length (C ! e))"
      using True by (subst findLongestPrefix_loop.simps) simp
    define e' where "e' = fst (findLongestPrefix_loop C (e + 1) (r - length (C ! e)))"
    define r' where "r' = snd (findLongestPrefix_loop C (e + 1) (r - length (C ! e)))"
    from True have "e + 1 \<le> length C" by simp
    from "1.IH" [OF True this]
    have a: "e + 1 \<le> e'" and b: "e' \<le> length C"
      and c: "length (seg_join C (e + 1) e') + r' = r - length (C ! e)"
      and d: "e' < length C \<longrightarrow> r' < length (C ! e')"
      unfolding e'_def r'_def by blast+
    have "seg_join C e e' = C ! e @ seg_join C (Suc e) e'"
      using a True by (intro seg_join_Cons) auto
    then have l: "length (seg_join C e e') = length (C ! e) + length (seg_join C (e + 1) e')"
      by simp
    from True have le: "length (C ! e) \<le> r" by simp
    have "length (seg_join C e e') + r' = r" using c le unfolding l by arith
    with a b d show ?thesis unfolding step e'_def r'_def by simp
  qed
qed

lemma findLongestPrefix_ok:
  assumes "found_in s C"
  shows "\<exists>start end used. findLongestPrefix s C = Inr (start, end, used)
           \<and> start \<le> end \<and> end \<le> length C \<and> start < length C \<and> used \<le> length s
           \<and> take used s = seg_join C start end
           \<and> (\<exists>t \<in> set C. \<exists>n \<le> length t. drop used s = take n t)"
proof -
  from findPrefixStart_ok [OF assms] obtain start where st: "start < length C"
    and fs: "findPrefixStart s C = Inr start"
    and pre: "take (length s) (concat (drop start C)) = s" by blast
  define e where "e = fst (findLongestPrefix_loop C start (length s))"
  define r where "r = snd (findLongestPrefix_loop C start (length s))"
  have res: "findLongestPrefix_loop C start (length s) = (e, r)" by (simp add: e_def r_def)
  from findLongestPrefix_loop_ok [of start C "length s"] st
  have a: "start \<le> e" and b: "e \<le> length C"
    and c: "length (seg_join C start e) + r = length s"
    and d: "e < length C \<longrightarrow> r < length (C ! e)"
    unfolding e_def r_def by simp_all
  define used where "used = length s - r"
  have used: "used = length (seg_join C start e)" using c by (simp add: used_def)
  have fl: "findLongestPrefix s C = Inr (start, e, used)"
    by (simp add: findLongestPrefix_def fs res used_def)
  define Z where "Z = concat (drop e C)"
  have s: "s = take (length s) (seg_join C start e @ Z)"
    using pre seg_join_suffix [OF a, of C] by (simp add: Z_def)
  have ul: "used \<le> length s" by (simp add: used_def)
  have "take used s = take used (seg_join C start e @ Z)"
    using ul by (subst s) (simp add: min_def)
  then have t: "take used s = seg_join C start e" by (simp add: used)
  have "drop used s = drop used (take (length s) (seg_join C start e @ Z))"
    by (subst s) simp
  also have "\<dots> = take (length s - used) (drop used (seg_join C start e @ Z))"
    by (simp only: drop_take)
  also have "drop used (seg_join C start e @ Z) = Z" by (simp add: used)
  also have "length s - used = r" using c by (simp add: used_def)
  finally have dr: "drop used s = take r Z" .
  have "\<exists>t \<in> set C. \<exists>n \<le> length t. drop used s = take n t"
  proof (cases "e < length C")
    case True
    then have "Z = C ! e @ concat (drop (Suc e) C)"
      by (simp add: Z_def Cons_nth_drop_Suc [symmetric])
    with d True have "take r Z = take r (C ! e)" by simp
    with dr True d show ?thesis
      by (intro bexI [of _ "C ! e"] exI [of _ r]) auto
  next
    case False
    with b have "Z = []" by (simp add: Z_def)
    with dr have "drop used s = take 0 (C ! start)" by simp
    with st show ?thesis by (intro bexI [of _ "C ! start"] exI [of _ 0]) auto
  qed
  with fl a b st ul t show ?thesis by blast
qed

lemma prefix_found_in:
  assumes "t \<in> set C" "n \<le> length t" "r = take n t" "found_in t C'"
  shows "found_in r C'"
proof -
  from assms(4) obtain p where p: "p < length C'"
    and t: "take (length t) (concat (drop p C')) = t" unfolding found_in_def by blast
  have "length r = n" using assms(2,3) by simp
  then have "take (length r) (concat (drop p C')) = take n (take (length t) (concat (drop p C')))"
    using assms(2) by (simp add: min_def)
  also have "\<dots> = r" using t assms(3) by simp
  finally show ?thesis using p unfolding found_in_def by blast
qed

lemma fold_update_map_of:
  "map_of (fold (\<lambda>i g. AList.update (K i) (V i) g) xs g) N = Some rhs \<Longrightarrow>
     (\<exists>i \<in> set xs. N = K i \<and> rhs = V i) \<or> map_of g N = Some rhs"
proof (induction xs arbitrary: g)
  case Nil
  then show ?case by simp
next
  case (Cons i xs)
  from Cons.IH [of "AList.update (K i) (V i) g"] Cons.prems
  have "(\<exists>j \<in> set xs. N = K j \<and> rhs = V j) \<or> map_of (AList.update (K i) (V i) g) N = Some rhs"
    by simp
  then show ?case by (auto simp: update_conv' split: if_splits)
qed

lemma fold_update_has_key:
  "has_key (fold (\<lambda>i g. AList.update (K i) (V i) g) xs g) N \<longleftrightarrow> has_key g N \<or> N \<in> K ` set xs"
  by (induction xs arbitrary: g) (auto simp: has_key_update)

lemma pre_valid_fold_update:
  assumes g: "pre_valid R g"
    and new: "\<forall>i \<in> set xs. concat (V i) = K i \<and> (\<forall>M \<in> set (V i). M \<noteq> []) \<and> 2 \<le> length (K i)
        \<and> 2 \<le> length (V i)
        \<and> (\<forall>M \<in> set (V i). 2 \<le> length M \<longrightarrow> has_key g M \<or> M \<in> R \<or> M \<in> K ` set xs)"
  shows "pre_valid R (fold (\<lambda>i g. AList.update (K i) (V i) g) xs g)"
  unfolding pre_valid_def
proof (intro allI impI conjI)
  from g have "distinct (map fst g)" by (simp add: pre_valid_def)
  then show "distinct (map fst (fold (\<lambda>i g. AList.update (K i) (V i) g) xs g))"
    by (induction xs arbitrary: g) (simp_all add: distinct_update)
next
  fix N rhs
  assume m: "map_of (fold (\<lambda>i g. AList.update (K i) (V i) g) xs g) N = Some rhs"
  let ?g' = "fold (\<lambda>i g. AList.update (K i) (V i) g) xs g"
  from fold_update_map_of [OF m] have "concat rhs = N \<and> (\<forall>M \<in> set rhs. M \<noteq> []) \<and> 2 \<le> length N
        \<and> (2 \<le> length rhs \<or> N \<in> R)
        \<and> (\<forall>M \<in> set rhs. 2 \<le> length M \<longrightarrow> has_key ?g' M \<or> M \<in> R)"
  proof
    assume "\<exists>i \<in> set xs. N = K i \<and> rhs = V i"
    then obtain i where i: "i \<in> set xs" "N = K i" "rhs = V i" by blast
    from new i(1) have a: "concat (V i) = K i" "\<forall>M \<in> set (V i). M \<noteq> []" "2 \<le> length (K i)"
      "2 \<le> length (V i)"
      and c: "\<forall>M \<in> set (V i). 2 \<le> length M \<longrightarrow> has_key g M \<or> M \<in> R \<or> M \<in> K ` set xs"
      by blast+
    from c have "\<forall>M \<in> set (V i). 2 \<le> length M \<longrightarrow> has_key ?g' M \<or> M \<in> R"
      unfolding fold_update_has_key by blast
    with a i show ?thesis by simp
  next
    assume old: "map_of g N = Some rhs"
    with g have a: "concat rhs = N" "\<forall>M \<in> set rhs. M \<noteq> []" "2 \<le> length N"
      "2 \<le> length rhs \<or> N \<in> R"
      and c: "\<forall>M \<in> set rhs. 2 \<le> length M \<longrightarrow> has_key g M \<or> M \<in> R"
      unfolding pre_valid_def by blast+
    from c have "\<forall>M \<in> set rhs. 2 \<le> length M \<longrightarrow> has_key ?g' M \<or> M \<in> R"
      unfolding fold_update_has_key by blast
    with a show ?thesis by simp
  qed
  then show "concat rhs = N" "\<forall>M \<in> set rhs. M \<noteq> []" "2 \<le> length N"
    "2 \<le> length rhs \<or> N \<in> R"
    "\<forall>M \<in> set rhs. 2 \<le> length M \<longrightarrow> has_key ?g' M \<or> M \<in> R"
    by blast+
qed

lemma split_ok_mono:
  "split_ok C G \<Longrightarrow> \<forall>N. has_key G N \<longrightarrow> has_key G' N \<Longrightarrow> split_ok C G'"
  unfolding split_ok_def by meson

lemma recursiveCall_ok:
  assumes "X \<noteq> []" "\<forall>t \<in> set X. t \<noteq> []" "set X \<subseteq> R" "pre_valid R G"
  shows "\<exists>G'. recursiveCall X G = Inr G' \<and> pre_valid R G'
           \<and> (\<forall>N. has_key G N \<longrightarrow> has_key G' N) \<and> split_ok X G'"
  using assms
proof (induction "length X" arbitrary: X G rule: less_induct)
  case less
  note ne = less.prems(1) and nonempty = less.prems(2) and sub = less.prems(3)
    and pv = less.prems(4)
  show ?case
  proof (cases "length X = 1")
    case True
    then have "recursiveCall X G = Inr G" by (subst recursiveCall.simps) simp
    moreover have "split_ok X G" using True by (simp add: split_ok_def)
    ultimately show ?thesis using pv by simp
  next
    case False
    moreover from ne have "length X \<noteq> 0" by simp
    ultimately have len: "2 \<le> length X" by arith
    define mid where "mid = length X div 2"
    have mid: "1 \<le> mid" "mid < length X" using len by (simp_all add: mid_def)
    define K1 where "K1 = (\<lambda>i. seg_join X i mid)"
    define V1 where "V1 = (\<lambda>i. [X ! i, seg_join X (i + 1) mid])"
    define K2 where "K2 = (\<lambda>i. seg_join X mid (i + 1))"
    define V2 where "V2 = (\<lambda>i. [seg_join X mid i, X ! i])"
    define g1 where "g1 = fold (\<lambda>i g. AList.update (K1 i) (V1 i) g) [0 ..< mid - 1] G"
    define g2 where "g2 = fold (\<lambda>i g. AList.update (K2 i) (V2 i) g) [mid + 1 ..< length X] g1"
    have step: "recursiveCall X G =
        (case recursiveCall (take mid X) g2 of Inl e \<Rightarrow> Inl e
         | Inr grammar \<Rightarrow> recursiveCall (drop mid X) grammar)"
      using False ne
      unfolding mid_def g2_def g1_def K1_def V1_def K2_def V2_def seg_join_def
      by (subst recursiveCall.simps) (simp add: Let_def)
    have inR: "X ! i \<in> R" if "i < length X" for i using sub that by auto
    have pv1: "pre_valid R g1"
      unfolding g1_def
    proof (rule pre_valid_fold_update [OF pv], intro ballI conjI impI)
      fix i assume "i \<in> set [0 ..< mid - 1]"
      then have i: "i + 2 \<le> mid" by auto
      have c: "seg_join X i mid = X ! i @ seg_join X (Suc i) mid"
        using i mid by (intro seg_join_Cons) auto
      then show "concat (V1 i) = K1 i" by (simp add: V1_def K1_def)
      have l1: "mid - (i + 1) \<le> length (seg_join X (i + 1) mid)"
        using nonempty mid by (intro seg_join_length) auto
      have l2: "mid - i \<le> length (seg_join X i mid)"
        using nonempty mid by (intro seg_join_length) auto
      show "2 \<le> length (K1 i)" using l2 i by (simp add: K1_def)
      show "2 \<le> length (V1 i)" by (simp add: V1_def)
      have xi: "X ! i \<noteq> []" using nonempty i mid by simp
      have "seg_join X (i + 1) mid \<noteq> []" using l1 i by auto
      with xi show "M \<noteq> []" if "M \<in> set (V1 i)" for M using that by (auto simp: V1_def)
      have "seg_join X (i + 1) mid \<in> R \<or> seg_join X (i + 1) mid \<in> K1 ` set [0 ..< mid - 1]"
      proof (cases "i + 2 = mid")
        case True
        then have "seg_join X (i + 1) mid = X ! (i + 1)"
          using seg_join_single [of "i + 1" X] mid by simp
        then show ?thesis using inR [of "i + 1"] i mid by simp
      next
        case False
        with i have "i + 1 \<in> set [0 ..< mid - 1]" by simp
        then show ?thesis unfolding K1_def by blast
      qed
      moreover have "X ! i \<in> R" using inR i mid by simp
      ultimately show "has_key G M \<or> M \<in> R \<or> M \<in> K1 ` set [0 ..< mid - 1]"
        if "M \<in> set (V1 i)" for M using that by (auto simp: V1_def)
    qed
    have pv2: "pre_valid R g2"
      unfolding g2_def
    proof (rule pre_valid_fold_update [OF pv1], intro ballI conjI impI)
      fix i assume "i \<in> set [mid + 1 ..< length X]"
      then have i: "mid + 1 \<le> i" "i < length X" by auto
      have c: "seg_join X mid (i + 1) = seg_join X mid (i + 1 - 1) @ X ! (i + 1 - 1)"
        using i by (intro seg_join_snoc) auto
      then show "concat (V2 i) = K2 i" by (simp add: V2_def K2_def)
      have l1: "i - mid \<le> length (seg_join X mid i)"
        using nonempty i by (intro seg_join_length) auto
      have l2: "i + 1 - mid \<le> length (seg_join X mid (i + 1))"
        using nonempty i by (intro seg_join_length) auto
      show "2 \<le> length (K2 i)" using l2 i by (simp add: K2_def)
      show "2 \<le> length (V2 i)" by (simp add: V2_def)
      have xi: "X ! i \<noteq> []" using nonempty i by simp
      have "seg_join X mid i \<noteq> []" using l1 i by auto
      with xi show "M \<noteq> []" if "M \<in> set (V2 i)" for M using that by (auto simp: V2_def)
      have "seg_join X mid i \<in> R \<or> seg_join X mid i \<in> K2 ` set [mid + 1 ..< length X]"
      proof (cases "i = mid + 1")
        case True
        then have "seg_join X mid i = X ! mid"
          using seg_join_single [of mid X] mid by simp
        then show ?thesis using inR [of mid] mid by simp
      next
        case False
        with i have "i - 1 \<in> set [mid + 1 ..< length X]" by auto
        moreover have "K2 (i - 1) = seg_join X mid i" using i by (simp add: K2_def)
        ultimately show ?thesis by (metis imageI)
      qed
      moreover have "X ! i \<in> R" using inR i by simp
      ultimately show "has_key g1 M \<or> M \<in> R \<or> M \<in> K2 ` set [mid + 1 ..< length X]"
        if "M \<in> set (V2 i)" for M using that by (auto simp: V2_def)
    qed
    have k1: "has_key g2 N" if "has_key G N \<or> N \<in> K1 ` set [0 ..< mid - 1]
        \<or> N \<in> K2 ` set [mid + 1 ..< length X]" for N
      using that unfolding g2_def g1_def fold_update_has_key by blast
    have tl: "length (take mid X) < length X" "take mid X \<noteq> []"
      "\<forall>t \<in> set (take mid X). t \<noteq> []" "set (take mid X) \<subseteq> R"
      using mid nonempty sub ne by (auto dest: in_set_takeD)
    from less.hyps [OF tl(1) tl(2) tl(3) tl(4) pv2] obtain G1
      where r1: "recursiveCall (take mid X) g2 = Inr G1" and pvG1: "pre_valid R G1"
        and mono1: "\<forall>N. has_key g2 N \<longrightarrow> has_key G1 N" and sp1: "split_ok (take mid X) G1"
      by blast
    have dl: "length (drop mid X) < length X" "drop mid X \<noteq> []"
      "\<forall>t \<in> set (drop mid X). t \<noteq> []" "set (drop mid X) \<subseteq> R"
      using mid nonempty sub ne by (auto dest: in_set_dropD)
    from less.hyps [OF dl(1) dl(2) dl(3) dl(4) pvG1] obtain G2
      where r2: "recursiveCall (drop mid X) G1 = Inr G2" and pvG2: "pre_valid R G2"
        and mono2: "\<forall>N. has_key G1 N \<longrightarrow> has_key G2 N" and sp2: "split_ok (drop mid X) G2"
      by blast
    have res: "recursiveCall X G = Inr G2" by (simp add: step r1 r2)
    have mono: "has_key G2 N" if "has_key g2 N" for N using that mono1 mono2 by blast
    have sp1': "split_ok (take mid X) G2" using sp1 mono2 by (rule split_ok_mono)
    have "split_ok X G2"
      unfolding split_ok_def
    proof (intro allI impI)
      fix a b assume ab: "a + 3 \<le> b \<and> b \<le> length X"
      consider "b \<le> mid" | "mid \<le> a" | "a < mid" "mid < b" by linarith
      then show "\<exists>m. a < m \<and> m < b \<and> (m = a + 1 \<or> has_key G2 (seg_join X a m))
           \<and> (m = b - 1 \<or> has_key G2 (seg_join X m b))"
      proof cases
        case 1
        then have "a + 3 \<le> b \<and> b \<le> length (take mid X)" using ab mid by simp
        with sp1' obtain m where m: "a < m" "m < b"
          "m = a + 1 \<or> has_key G2 (seg_join (take mid X) a m)"
          "m = b - 1 \<or> has_key G2 (seg_join (take mid X) m b)"
          unfolding split_ok_def by blast
        moreover have "seg_join (take mid X) a m = seg_join X a m"
          using m 1 by (intro seg_join_take) simp
        moreover have "seg_join (take mid X) m b = seg_join X m b"
          using 1 by (intro seg_join_take) simp
        ultimately show ?thesis by auto
      next
        case 2
        then have "(a - mid) + 3 \<le> b - mid \<and> b - mid \<le> length (drop mid X)" using ab by auto
        with sp2 obtain m where m: "a - mid < m" "m < b - mid"
          "m = (a - mid) + 1 \<or> has_key G2 (seg_join (drop mid X) (a - mid) m)"
          "m = (b - mid) - 1 \<or> has_key G2 (seg_join (drop mid X) m (b - mid))"
          unfolding split_ok_def by blast
        have "seg_join (drop mid X) (a - mid) m = seg_join X a (m + mid)"
          using 2 by (simp add: seg_join_drop)
        moreover have "seg_join (drop mid X) m (b - mid) = seg_join X (m + mid) b"
          using 2 ab by (simp add: seg_join_drop)
        ultimately have "(m + mid = a + 1 \<or> has_key G2 (seg_join X a (m + mid)))
           \<and> (m + mid = b - 1 \<or> has_key G2 (seg_join X (m + mid) b))"
          using m 2 by auto
        moreover have "a < m + mid" "m + mid < b" using m 2 by auto
        ultimately show ?thesis by blast
      next
        case 3
        have "mid = a + 1 \<or> has_key G2 (seg_join X a mid)"
        proof (cases "mid = a + 1")
          case False
          with 3 have "a \<in> set [0 ..< mid - 1]" by auto
          then have "K1 a \<in> K1 ` set [0 ..< mid - 1]" by (rule imageI)
          then have "has_key g2 (K1 a)" by (intro k1) simp
          then show ?thesis using mono by (simp add: K1_def)
        qed simp
        moreover have "mid = b - 1 \<or> has_key G2 (seg_join X mid b)"
        proof (cases "mid = b - 1")
          case False
          with 3 ab have "b - 1 \<in> set [mid + 1 ..< length X]" by auto
          then have "K2 (b - 1) \<in> K2 ` set [mid + 1 ..< length X]" by (rule imageI)
          then have "has_key g2 (K2 (b - 1))" by (intro k1) simp
          then show ?thesis using mono 3 by (simp add: K2_def)
        qed simp
        ultimately show ?thesis using 3 by blast
      qed
    qed
    moreover have "\<forall>N. has_key G N \<longrightarrow> has_key G2 N" using k1 mono by blast
    ultimately show ?thesis using res pvG2 by blast
  qed
qed

lemma pre_valid_empty: "pre_valid R []"
  by (simp add: pre_valid_def)

lemma pre_valid_merge:
  assumes A: "pre_valid R A" and B: "pre_valid R B"
  shows "pre_valid R (AList.merge A B)"
  unfolding pre_valid_def
proof (intro conjI allI impI)
  show "distinct (map fst (AList.merge A B))"
    using A by (simp add: pre_valid_def distinct_merge)
next
  fix N rhs assume "map_of (AList.merge A B) N = Some rhs"
  then have "map_of B N = Some rhs \<or> map_of A N = Some rhs"
    by (auto dest: map_of_merge_cases)
  then have "concat rhs = N \<and> (\<forall>M \<in> set rhs. M \<noteq> []) \<and> 2 \<le> length N
        \<and> (2 \<le> length rhs \<or> N \<in> R)
        \<and> (\<forall>M \<in> set rhs. 2 \<le> length M \<longrightarrow> has_key A M \<or> has_key B M \<or> M \<in> R)"
    using A B unfolding pre_valid_def by blast
  then show "concat rhs = N" "\<forall>M \<in> set rhs. M \<noteq> []" "2 \<le> length N"
    "2 \<le> length rhs \<or> N \<in> R"
    "\<forall>M \<in> set rhs. 2 \<le> length M \<longrightarrow> has_key (AList.merge A B) M \<or> M \<in> R"
    unfolding has_key_merge by blast+
qed

lemma substring_fold_ok:
  assumes "\<forall>C \<in> set Ls. C \<noteq> [] \<and> (\<forall>t \<in> set C. t \<noteq> []) \<and> set C \<subseteq> R" "pre_valid R G"
  shows "\<exists>G'. fold_err (\<lambda>C grammar.
                   case generateSubstringConstructionGrammar C of
                     Inl e \<Rightarrow> Inl e
                   | Inr g \<Rightarrow> Inr (AList.merge grammar g)) Ls G = Inr G'
           \<and> pre_valid R G' \<and> (\<forall>N. has_key G N \<longrightarrow> has_key G' N)
           \<and> (\<forall>C \<in> set Ls. split_ok C G')"
  using assms
proof (induction Ls arbitrary: G)
  case Nil
  then show ?case by simp
next
  case (Cons C Ls)
  from Cons.prems(1) have C: "C \<noteq> []" "\<forall>t \<in> set C. t \<noteq> []" "set C \<subseteq> R" by auto
  from recursiveCall_ok [OF C pre_valid_empty] obtain g
    where g: "recursiveCall C [] = Inr g" "pre_valid R g" "split_ok C g" by blast
  have pm: "pre_valid R (AList.merge G g)" using Cons.prems(2) g(2) by (rule pre_valid_merge)
  have rest: "\<forall>C \<in> set Ls. C \<noteq> [] \<and> (\<forall>t \<in> set C. t \<noteq> []) \<and> set C \<subseteq> R"
    using Cons.prems(1) by simp
  from Cons.IH [OF rest pm] obtain G'
    where G': "fold_err (\<lambda>C grammar.
                   case generateSubstringConstructionGrammar C of
                     Inl e \<Rightarrow> Inl e
                   | Inr g \<Rightarrow> Inr (AList.merge grammar g)) Ls (AList.merge G g) = Inr G'"
      and pv: "pre_valid R G'" and mono: "\<forall>N. has_key (AList.merge G g) N \<longrightarrow> has_key G' N"
      and sp: "\<forall>C \<in> set Ls. split_ok C G'" by blast
  have mono': "\<forall>N. has_key g N \<longrightarrow> has_key G' N" "\<forall>N. has_key G N \<longrightarrow> has_key G' N"
    using mono by (simp_all add: has_key_merge)
  have "split_ok C G'" using g(3) mono'(1) by (rule split_ok_mono)
  with G' pv mono'(2) sp g(1) show ?case
    by (simp add: generateSubstringConstructionGrammar_def)
qed

lemma fold_err_index_invariant:
  assumes "I 0 s"
    and "\<And>n s. n < length xs \<Longrightarrow> I n s \<Longrightarrow> \<exists>s'. f (xs ! n) s = Inr s' \<and> I (Suc n) s'"
  shows "\<exists>s'. fold_err f xs s = Inr s' \<and> I (length xs) s'"
  using assms
proof (induction xs arbitrary: I s)
  case Nil
  then show ?case by simp
next
  case (Cons x xs)
  from Cons.prems(2) [of 0 s] Cons.prems(1) obtain s1 where s1: "f x s = Inr s1" "I (Suc 0) s1"
    by auto
  have "\<exists>s'. fold_err f xs s1 = Inr s' \<and> (\<lambda>n. I (Suc n)) (length xs) s'"
  proof (rule Cons.IH)
    show "I (Suc 0) s1" by (rule s1(2))
  next
    fix n s assume "n < length xs" "I (Suc n) s"
    with Cons.prems(2) [of "Suc n" s] show "\<exists>s'. f (xs ! n) s = Inr s' \<and> I (Suc (Suc n)) s'"
      by simp
  qed
  with s1(1) show ?case by simp
qed

lemma find_split_ok:
  assumes "\<exists>m \<in> set splits. (m = start + 1 \<or> has_key G (seg_join C start m))
              \<and> (m = e - 1 \<or> has_key G (seg_join C m e))"
  shows "\<exists>m \<in> set splits. find_split G C start e splits = Some (seg_join C start m, seg_join C m e)
           \<and> (m = start + 1 \<or> has_key G (seg_join C start m))
           \<and> (m = e - 1 \<or> has_key G (seg_join C m e))"
  using assms
proof (induction splits)
  case Nil
  then show ?case by simp
next
  case (Cons m rest)
  show ?case
  proof (cases "(m = start + 1 \<or> has_key G (seg_join C start m))
              \<and> (m = e - 1 \<or> has_key G (seg_join C m e))")
    case True
    then have "find_split G C start e (m # rest) = Some (seg_join C start m, seg_join C m e)"
      by (simp add: seg_join_def Let_def)
    with True show ?thesis by (intro bexI [of _ m]) auto
  next
    case False
    with Cons.prems have "\<exists>m \<in> set rest. (m = start + 1 \<or> has_key G (seg_join C start m))
              \<and> (m = e - 1 \<or> has_key G (seg_join C m e))" by auto
    from Cons.IH [OF this] obtain m' where m': "m' \<in> set rest"
      "find_split G C start e rest = Some (seg_join C start m', seg_join C m' e)"
      "m' = start + 1 \<or> has_key G (seg_join C start m')"
      "m' = e - 1 \<or> has_key G (seg_join C m' e)" by blast
    have "find_split G C start e (m # rest) = Some (seg_join C start m', seg_join C m' e)"
      using False m'(2) by (auto simp add: seg_join_def Let_def)
    with m' show ?thesis by (intro bexI [of _ m']) auto
  qed
qed

lemma stitch_inv_extend:
  assumes inv: "stitch_inv L G0 s Cprev (G, rem)"
    and m: "map_of G s = Some rhs"
    and d': "distinct (map fst G')"
    and m': "map_of G' s = Some (rhs @ ps)"
    and other: "\<forall>N. N \<noteq> s \<longrightarrow> map_of G' N = map_of G N"
    and cc: "concat ps = take used rem"
    and sym: "\<forall>p \<in> set ps. p \<noteq> [] \<and> (2 \<le> length p \<longrightarrow> has_key G p \<or> p \<in> L)"
    and two: "2 \<le> length ps \<or> set ps \<subseteq> L"
    and tail: "\<exists>t \<in> set C. \<exists>k \<le> length t. drop used rem = take k t"
  shows "stitch_inv L G0 s C (G', drop used rem)"
proof -
  from inv m have c: "concat rhs @ rem = s"
    and sy: "\<forall>M \<in> set rhs. M \<noteq> [] \<and> (2 \<le> length M \<longrightarrow> has_key G M \<or> M \<in> L)"
    and tw: "2 \<le> length rhs \<or> set rhs \<subseteq> L"
    and o: "\<forall>N. N \<noteq> s \<longrightarrow> map_of G N = map_of G0 N"
    unfolding stitch_inv_def by auto
  have mono: "has_key G' M" if "has_key G M" for M
    using that other m' by (cases "M = s") (auto simp: has_key_def)
  have "concat (rhs @ ps) @ drop used rem = concat rhs @ (take used rem @ drop used rem)"
    by (simp add: cc)
  then have c': "concat (rhs @ ps) @ drop used rem = s" using c by simp
  have sy': "\<forall>M \<in> set (rhs @ ps). M \<noteq> [] \<and> (2 \<le> length M \<longrightarrow> has_key G' M \<or> M \<in> L)"
    using sy sym mono by auto
  have tw': "2 \<le> length (rhs @ ps) \<or> set (rhs @ ps) \<subseteq> L" using tw two by auto
  have o': "\<forall>N. N \<noteq> s \<longrightarrow> map_of G' N = map_of G0 N" using o other by simp
  show ?thesis
    unfolding stitch_inv_def using d' m' c' sy' tw' o' tail by simp
qed

lemma stitch_level_ok:
  assumes inv: "stitch_inv L G0 s Cprev (G, rem)"
    and chain: "\<forall>t \<in> set Cprev. found_in t C"
    and C_ne: "\<forall>t \<in> set C. t \<noteq> []"
    and CL: "set C \<subseteq> L"
    and sp: "split_ok C G0"
  shows "\<exists>st'. stitch_level s C (G, rem) = Inr st' \<and> stitch_inv L G0 s C st'"
proof -
  from inv obtain rhs where m: "map_of G s = Some rhs" and d: "distinct (map fst G)"
    and o: "\<forall>N. N \<noteq> s \<longrightarrow> map_of G N = map_of G0 N"
    unfolding stitch_inv_def by auto
  from inv obtain t k where "t \<in> set Cprev" "k \<le> length t" "rem = take k t"
    unfolding stitch_inv_def by auto
  with chain have "found_in rem C" by (auto intro: prefix_found_in)
  from findLongestPrefix_ok [OF this] obtain start e used
    where fl: "findLongestPrefix rem C = Inr (start, e, used)"
      and se: "start \<le> e" and eC: "e \<le> length C" and sC: "start < length C"
      and ul: "used \<le> length rem"
      and tk: "take used rem = seg_join C start e"
      and tail: "\<exists>t \<in> set C. \<exists>n \<le> length t. drop used rem = take n t" by blast
  have keys0: "has_key G N" if "has_key G0 N" for N
    using that o m by (cases "N = s") (auto simp: has_key_def)
  have inL: "C ! j \<in> L" "C ! j \<noteq> []" if "j < length C" for j
    using that CL C_ne by auto
  consider "e = start" | "e = start + 1" | "e = start + 2" | "start + 3 \<le> e"
    using se by linarith
  then show ?thesis
  proof cases
    case 1
    then have "take used rem = []" using tk by (simp add: seg_join_empty)
    then have dr: "drop used rem = rem" by auto
    have "stitch_inv L G0 s C (G, drop used rem)"
      using inv m d _ _ _ _ _ tail
    proof (rule stitch_inv_extend [where ps = "[]"])
      show "map_of G s = Some (rhs @ [])" using m by simp
      show "concat [] = take used rem" using \<open>take used rem = []\<close> by simp
    qed simp_all
    moreover have "stitch_level s C (G, rem) = Inr (G, rem)"
      using 1 by (simp add: stitch_level_def fl)
    ultimately show ?thesis by (simp add: dr)
  next
    case 2
    define G' where "G' = AList.update s (rhs @ [C ! start]) G"
    have res: "stitch_level s C (G, rem) = Inr (G', drop used rem)"
      using 2 m by (simp add: stitch_level_def fl dict_append_def G'_def)
    have "stitch_inv L G0 s C (G', drop used rem)"
      using inv m _ _ _ _ _ _ tail
    proof (rule stitch_inv_extend [where ps = "[C ! start]"])
      show "distinct (map fst G')" using d by (simp add: G'_def distinct_update)
      show "map_of G' s = Some (rhs @ [C ! start])" by (simp add: G'_def update_conv')
      show "\<forall>N. N \<noteq> s \<longrightarrow> map_of G' N = map_of G N" by (simp add: G'_def update_conv')
      show "concat [C ! start] = take used rem" using tk 2 sC by (simp add: seg_join_single)
      show "\<forall>p \<in> set [C ! start]. p \<noteq> [] \<and> (2 \<le> length p \<longrightarrow> has_key G p \<or> p \<in> L)"
        using inL [OF sC] by simp
      show "2 \<le> length [C ! start] \<or> set [C ! start] \<subseteq> L" using inL [OF sC] by simp
    qed
    with res show ?thesis by simp
  next
    case 3
    then have s1: "start + 1 < length C" using eC by simp
    define G' where "G' = AList.update s (rhs @ [C ! start, C ! (start + 1)]) G"
    define G1 where "G1 = AList.update s (rhs @ [C ! start]) G"
    have "dict_append G s (C ! start) = Inr G1" using m by (simp add: dict_append_def G1_def)
    moreover have "dict_append G1 s (C ! (start + 1)) = Inr (AList.update s (rhs @ [C ! start, C ! (start + 1)]) G1)"
      by (simp add: dict_append_def G1_def update_conv')
    ultimately have res: "stitch_level s C (G, rem)
        = Inr (AList.update s (rhs @ [C ! start, C ! (start + 1)]) G1, drop used rem)"
      using 3 by (simp add: stitch_level_def fl)
    have sj: "seg_join C start e = C ! start @ C ! (start + 1)"
      using seg_join_Cons [of start e C] seg_join_single [of "start + 1" C] 3 s1 sC by simp
    have "stitch_inv L G0 s C (AList.update s (rhs @ [C ! start, C ! (start + 1)]) G1, drop used rem)"
      using inv m _ _ _ _ _ _ tail
    proof (rule stitch_inv_extend [where ps = "[C ! start, C ! (start + 1)]"])
      show "distinct (map fst (AList.update s (rhs @ [C ! start, C ! (start + 1)]) G1))"
        using d by (simp add: G1_def distinct_update)
      show "map_of (AList.update s (rhs @ [C ! start, C ! (start + 1)]) G1) s
          = Some (rhs @ [C ! start, C ! (start + 1)])" by (simp add: update_conv')
      show "\<forall>N. N \<noteq> s \<longrightarrow> map_of (AList.update s (rhs @ [C ! start, C ! (start + 1)]) G1) N = map_of G N"
        by (simp add: G1_def update_conv')
      show "concat [C ! start, C ! (start + 1)] = take used rem" using tk sj by simp
      show "\<forall>p \<in> set [C ! start, C ! (start + 1)]. p \<noteq> [] \<and> (2 \<le> length p \<longrightarrow> has_key G p \<or> p \<in> L)"
        using inL [OF sC] inL [OF s1] by simp
      show "2 \<le> length [C ! start, C ! (start + 1)] \<or> set [C ! start, C ! (start + 1)] \<subseteq> L"
        by simp
    qed
    with res show ?thesis by simp
  next
    case 4
    with sp eC obtain m0 where m0: "start < m0" "m0 < e"
      "m0 = start + 1 \<or> has_key G0 (seg_join C start m0)"
      "m0 = e - 1 \<or> has_key G0 (seg_join C m0 e)"
      unfolding split_ok_def by blast
    then have "\<exists>m \<in> set [start + 1 ..< e]. (m = start + 1 \<or> has_key G (seg_join C start m))
              \<and> (m = e - 1 \<or> has_key G (seg_join C m e))"
      using keys0 by (intro bexI [of _ m0]) auto
    from find_split_ok [OF this] obtain ms where ms: "ms \<in> set [start + 1 ..< e]"
      and fs: "find_split G C start e [start + 1 ..< e]
                 = Some (seg_join C start ms, seg_join C ms e)"
      and t1: "ms = start + 1 \<or> has_key G (seg_join C start ms)"
      and t2: "ms = e - 1 \<or> has_key G (seg_join C ms e)" by blast
    from ms have msr: "start < ms" "ms < e" by auto
    define h1 where "h1 = seg_join C start ms"
    define h2 where "h2 = seg_join C ms e"
    define G1 where "G1 = AList.update s (rhs @ [h1]) G"
    have "dict_append G s h1 = Inr G1" using m by (simp add: dict_append_def G1_def)
    moreover have "dict_append G1 s h2 = Inr (AList.update s (rhs @ [h1, h2]) G1)"
      by (simp add: dict_append_def G1_def update_conv')
    ultimately have res: "stitch_level s C (G, rem)
        = Inr (AList.update s (rhs @ [h1, h2]) G1, drop used rem)"
      using 4 fs by (simp add: stitch_level_def fl h1_def h2_def)
    have l1: "ms - start \<le> length h1" unfolding h1_def
      using C_ne msr eC by (intro seg_join_length) auto
    have l2: "e - ms \<le> length h2" unfolding h2_def
      using C_ne eC by (intro seg_join_length) auto
    have ne: "h1 \<noteq> []" "h2 \<noteq> []" using l1 l2 msr by auto
    have c1: "has_key G h1 \<or> h1 \<in> L"
    proof (cases "ms = start + 1")
      case True
      then have "h1 = C ! start" using sC by (simp add: h1_def seg_join_single)
      then show ?thesis using inL [OF sC] by simp
    next
      case False
      with t1 show ?thesis by (simp add: h1_def)
    qed
    have c2: "has_key G h2 \<or> h2 \<in> L"
    proof (cases "ms = e - 1")
      case True
      then have "h2 = C ! ms" using seg_join_single [of ms C] msr eC by (simp add: h2_def)
      moreover have "ms < length C" using msr eC by simp
      ultimately show ?thesis using inL by simp
    next
      case False
      with t2 show ?thesis by (simp add: h2_def)
    qed
    have sj: "h1 @ h2 = seg_join C start e"
      unfolding h1_def h2_def using msr by (intro seg_join_split) auto
    have "stitch_inv L G0 s C (AList.update s (rhs @ [h1, h2]) G1, drop used rem)"
      using inv m _ _ _ _ _ _ tail
    proof (rule stitch_inv_extend [where ps = "[h1, h2]"])
      show "distinct (map fst (AList.update s (rhs @ [h1, h2]) G1))"
        using d by (simp add: G1_def distinct_update)
      show "map_of (AList.update s (rhs @ [h1, h2]) G1) s = Some (rhs @ [h1, h2])"
        by (simp add: update_conv')
      show "\<forall>N. N \<noteq> s \<longrightarrow> map_of (AList.update s (rhs @ [h1, h2]) G1) N = map_of G N"
        by (simp add: G1_def update_conv')
      show "concat [h1, h2] = take used rem" using tk sj by simp
      show "\<forall>p \<in> set [h1, h2]. p \<noteq> [] \<and> (2 \<le> length p \<longrightarrow> has_key G p \<or> p \<in> L)"
        using ne c1 c2 by simp
      show "2 \<le> length [h1, h2] \<or> set [h1, h2] \<subseteq> L" by simp
    qed
    with res show ?thesis by simp
  qed
qed

lemma pending_Suc: "i < length Cs \<Longrightarrow> pending Cs i = set (Cs ! i) \<union> pending Cs (Suc i)"
  by (simp add: pending_def Cons_nth_drop_Suc [symmetric])

lemma pending_end: "pending Cs (length Cs) = {}"
  by (simp add: pending_def)

lemma pending_mem: "i \<le> m \<Longrightarrow> m < length Cs \<Longrightarrow> set (Cs ! m) \<subseteq> pending Cs i"
proof -
  assume a: "i \<le> m" "m < length Cs"
  then have "Cs ! m = drop i Cs ! (m - i)" by simp
  moreover have "m - i < length (drop i Cs)" using a by simp
  ultimately have "Cs ! m \<in> set (drop i Cs)" by (metis nth_mem)
  then show ?thesis unfolding pending_def by blast
qed

lemma pre_valid_shrink:
  assumes "pre_valid R G" "\<forall>t \<in> R. 2 \<le> length t \<longrightarrow> t \<in> R'"
  shows "pre_valid R' G"
  unfolding pre_valid_def
proof (intro conjI allI impI)
  show "distinct (map fst G)" using assms(1) by (simp add: pre_valid_def)
next
  fix N rhs assume m: "map_of G N = Some rhs"
  with assms(1) have a: "concat rhs = N" "\<forall>M \<in> set rhs. M \<noteq> []" "2 \<le> length N"
    "2 \<le> length rhs \<or> N \<in> R"
    "\<forall>M \<in> set rhs. 2 \<le> length M \<longrightarrow> has_key G M \<or> M \<in> R"
    unfolding pre_valid_def by blast+
  show "concat rhs = N" "\<forall>M \<in> set rhs. M \<noteq> []" "2 \<le> length N" using a by blast+
  show "2 \<le> length rhs \<or> N \<in> R'" using a(3,4) assms(2) by blast
  show "\<forall>M \<in> set rhs. 2 \<le> length M \<longrightarrow> has_key G M \<or> M \<in> R'" using a(5) assms(2) by blast
qed

lemma pre_valid_valid: "pre_valid {} G \<Longrightarrow> valid_grammar G"
  unfolding pre_valid_def valid_grammar_def by blast

lemma concat_chars: "concat (map (\<lambda>c. [c]) r) = r"
  by (induction r) simp_all

lemma stitch_string_ok:
  assumes lev: "levels_ok Cs" and i: "i < length Cs" and s: "s \<in> set (Cs ! i)"
    and pv: "pre_valid (insert s (R \<union> pending Cs (Suc i))) G"
    and sp: "\<forall>m. i < m \<and> m < length Cs \<longrightarrow> split_ok (Cs ! m) G"
  shows "\<exists>G'. stitch_string Cs i s G = Inr G' \<and> pre_valid (R \<union> pending Cs (Suc i)) G'
           \<and> (\<forall>N. has_key G N \<longrightarrow> has_key G' N) \<and> (2 \<le> length s \<longrightarrow> has_key G' s)"
proof -
  define L where "L = pending Cs (Suc i)"
  from lev have lev1: "\<forall>C \<in> set Cs. C \<noteq> [] \<and> (\<forall>t \<in> set C. t \<noteq> [])"
    and lev2: "\<forall>m. Suc m < length Cs \<longrightarrow> (\<forall>s \<in> set (Cs ! m). found_in s (Cs ! Suc m))"
    unfolding levels_ok_def by blast+
  have s_ne: "s \<noteq> []" using lev1 i s by (metis nth_mem)
  show ?thesis
  proof (cases "length s = 1")
    case True
    have "pre_valid (R \<union> L) G"
      using pv unfolding L_def
    proof (rule pre_valid_shrink)
      show "\<forall>t \<in> insert s (R \<union> pending Cs (Suc i)). 2 \<le> length t \<longrightarrow> t \<in> R \<union> pending Cs (Suc i)"
        using True by auto
    qed
    moreover have "stitch_string Cs i s G = Inr G" using True by (simp add: stitch_string_def)
    ultimately show ?thesis using True by (simp add: L_def)
  next
    case False
    with s_ne have len: "2 \<le> length s" by (cases s) (auto simp: Suc_le_eq)
    define G0 where "G0 = AList.update s [] G"
    define xs where "xs = drop (i + 1) Cs"
    from pv have dG: "distinct (map fst G)" by (simp add: pre_valid_def)
    have init: "stitch_inv L G0 s (Cs ! (i + 0)) (G0, s)"
      unfolding stitch_inv_def using s dG
      by (auto simp: G0_def update_conv' distinct_update intro!: bexI [of _ s] exI [of _ "length s"])
    have "\<exists>st'. fold_err (stitch_level s) xs (G0, s) = Inr st'
            \<and> stitch_inv L G0 s (Cs ! (i + length xs)) st'"
      using init
    proof (rule fold_err_index_invariant [where I = "\<lambda>n st. stitch_inv L G0 s (Cs ! (i + n)) st"])
      fix n st assume n: "n < length xs" and inv: "stitch_inv L G0 s (Cs ! (i + n)) st"
      obtain G1 rem where st: "st = (G1, rem)" by (cases st)
      from n have lt: "Suc (i + n) < length Cs" by (simp add: xs_def)
      have xn: "xs ! n = Cs ! Suc (i + n)" using lt by (simp add: xs_def)
      have chain: "\<forall>t \<in> set (Cs ! (i + n)). found_in t (Cs ! Suc (i + n))"
        using lev2 lt by blast
      have Cne: "\<forall>t \<in> set (Cs ! Suc (i + n)). t \<noteq> []" using lev1 lt by (metis nth_mem)
      have CL: "set (Cs ! Suc (i + n)) \<subseteq> L"
        unfolding L_def using lt by (intro pending_mem) auto
      have "split_ok (Cs ! Suc (i + n)) G" using sp lt by simp
      then have sp0: "split_ok (Cs ! Suc (i + n)) G0"
        by (rule split_ok_mono) (simp add: G0_def has_key_update)
      from stitch_level_ok [OF inv [unfolded st] chain Cne CL sp0]
      show "\<exists>s'. stitch_level s (xs ! n) st = Inr s' \<and> stitch_inv L G0 s (Cs ! (i + Suc n)) s'"
        by (simp add: st xn)
    qed
    then obtain Gf remf where run: "fold_err (stitch_level s) xs (G0, s) = Inr (Gf, remf)"
      and fin: "stitch_inv L G0 s (Cs ! (i + length xs)) (Gf, remf)" by (metis surj_pair)
    from fin obtain rhs where m: "map_of Gf s = Some rhs" and dGf: "distinct (map fst Gf)"
      and c: "concat rhs @ remf = s"
      and sy: "\<forall>M \<in> set rhs. M \<noteq> [] \<and> (2 \<le> length M \<longrightarrow> has_key Gf M \<or> M \<in> L)"
      and tw: "2 \<le> length rhs \<or> set rhs \<subseteq> L"
      and o: "\<forall>N. N \<noteq> s \<longrightarrow> map_of Gf N = map_of G0 N"
      unfolding stitch_inv_def by auto
    define rhs' where "rhs' = rhs @ map (\<lambda>c. [c]) remf"
    define G' where "G' = AList.update s rhs' Gf"
    have res: "stitch_string Cs i s G = Inr G'"
      using False run m by (simp add: stitch_string_def G0_def xs_def G'_def rhs'_def)
    have ms: "map_of G' s = Some rhs'" by (simp add: G'_def update_conv')
    have mo: "map_of G' N = map_of G N" if "N \<noteq> s" for N
      using that o by (simp add: G'_def G0_def update_conv')
    have o0: "map_of G0 N = map_of G N" if "N \<noteq> s" for N
      using that by (simp add: G0_def update_conv')
    have keys: "has_key G' N" if "has_key G N \<or> has_key Gf N \<or> N = s" for N
      using that ms mo o o0 by (cases "N = s") (auto simp: has_key_def)
    have two: "2 \<le> length rhs' \<or> s \<in> L"
    proof (cases "2 \<le> length rhs")
      case True
      then show ?thesis by (simp add: rhs'_def)
    next
      case False
      with tw have sub: "set rhs \<subseteq> L" by simp
      show ?thesis
      proof (cases rhs)
        case Nil
        with c have "remf = s" by simp
        then show ?thesis using len Nil by (simp add: rhs'_def)
      next
        case (Cons x rest)
        with False have rhs: "rhs = [x]" by (cases rest) auto
        show ?thesis
        proof (cases "remf = []")
          case True
          with c rhs have "x = s" by simp
          with sub rhs show ?thesis by simp
        next
          case False
          then show ?thesis using rhs by (cases remf) (auto simp: rhs'_def)
        qed
      qed
    qed
    have "pre_valid (R \<union> L) G'"
      unfolding pre_valid_def
    proof (intro conjI allI impI)
      show "distinct (map fst G')" using dGf by (simp add: G'_def distinct_update)
    next
      fix N rhs0 assume mN: "map_of G' N = Some rhs0"
      have "concat rhs0 = N \<and> (\<forall>M \<in> set rhs0. M \<noteq> []) \<and> 2 \<le> length N
        \<and> (2 \<le> length rhs0 \<or> N \<in> R \<union> L)
        \<and> (\<forall>M \<in> set rhs0. 2 \<le> length M \<longrightarrow> has_key G' M \<or> M \<in> R \<union> L)"
      proof (cases "N = s")
        case True
        with mN ms have r0: "rhs0 = rhs'" by simp
        have "concat rhs' = s" using c by (simp add: rhs'_def concat_chars)
        moreover have "\<forall>M \<in> set rhs'. M \<noteq> []" using sy by (auto simp: rhs'_def)
        moreover have "\<forall>M \<in> set rhs'. 2 \<le> length M \<longrightarrow> has_key G' M \<or> M \<in> R \<union> L"
          using sy keys by (auto simp: rhs'_def)
        ultimately show ?thesis using True r0 len two by auto
      next
        case False
        with mN mo have "map_of G N = Some rhs0" by simp
        with pv have a: "concat rhs0 = N" "\<forall>M \<in> set rhs0. M \<noteq> []" "2 \<le> length N"
          "2 \<le> length rhs0 \<or> N \<in> insert s (R \<union> L)"
          "\<forall>M \<in> set rhs0. 2 \<le> length M \<longrightarrow> has_key G M \<or> M \<in> insert s (R \<union> L)"
          unfolding pre_valid_def L_def by blast+
        have "\<forall>M \<in> set rhs0. 2 \<le> length M \<longrightarrow> has_key G' M \<or> M \<in> R \<union> L"
          using a(5) keys by blast
        with a False show ?thesis by simp
      qed
      then show "concat rhs0 = N" "\<forall>M \<in> set rhs0. M \<noteq> []" "2 \<le> length N"
        "2 \<le> length rhs0 \<or> N \<in> R \<union> L"
        "\<forall>M \<in> set rhs0. 2 \<le> length M \<longrightarrow> has_key G' M \<or> M \<in> R \<union> L"
        by blast+
    qed
    with res keys show ?thesis unfolding L_def by blast
  qed
qed

lemma stitch_row_ok:
  assumes lev: "levels_ok Cs" and i: "i < length Cs"
    and pv: "pre_valid (pending Cs i) G"
    and sp: "\<forall>m. i < m \<and> m < length Cs \<longrightarrow> split_ok (Cs ! m) G"
  shows "\<exists>G'. fold_err (stitch_string Cs i) (Cs ! i) G = Inr G'
           \<and> pre_valid (pending Cs (Suc i)) G'
           \<and> (\<forall>N. has_key G N \<longrightarrow> has_key G' N)
           \<and> (\<forall>t \<in> set (Cs ! i). 2 \<le> length t \<longrightarrow> has_key G' t)"
proof -
  define C where "C = Cs ! i"
  define I where "I = (\<lambda>j G1. pre_valid (set (drop j C) \<union> pending Cs (Suc i)) G1
       \<and> (\<forall>N. has_key G N \<longrightarrow> has_key G1 N)
       \<and> (\<forall>j' < j. 2 \<le> length (C ! j') \<longrightarrow> has_key G1 (C ! j')))"
  have "I 0 G" using pv pending_Suc [OF i] by (simp add: I_def C_def)
  then have "\<exists>G'. fold_err (stitch_string Cs i) C G = Inr G' \<and> I (length C) G'"
  proof (rule fold_err_index_invariant)
    fix j G1 assume j: "j < length C" and inv: "I j G1"
    have d: "set (drop j C) = insert (C ! j) (set (drop (Suc j) C))"
      using j by (simp add: Cons_nth_drop_Suc [symmetric])
    from inv have pv1: "pre_valid (insert (C ! j) (set (drop (Suc j) C) \<union> pending Cs (Suc i))) G1"
      and mono: "\<forall>N. has_key G N \<longrightarrow> has_key G1 N"
      and dn: "\<forall>j' < j. 2 \<le> length (C ! j') \<longrightarrow> has_key G1 (C ! j')"
      unfolding I_def d by simp_all
    have sp1: "\<forall>m. i < m \<and> m < length Cs \<longrightarrow> split_ok (Cs ! m) G1"
      using sp mono by (meson split_ok_mono)
    have mem: "C ! j \<in> set (Cs ! i)" using j by (simp add: C_def)
    from stitch_string_ok [OF lev i mem pv1 sp1] obtain G2
      where r: "stitch_string Cs i (C ! j) G1 = Inr G2"
        and pv2: "pre_valid (set (drop (Suc j) C) \<union> pending Cs (Suc i)) G2"
        and mono2: "\<forall>N. has_key G1 N \<longrightarrow> has_key G2 N"
        and key: "2 \<le> length (C ! j) \<longrightarrow> has_key G2 (C ! j)" by blast
    have "\<forall>j' < Suc j. 2 \<le> length (C ! j') \<longrightarrow> has_key G2 (C ! j')"
      using dn mono2 key by (auto simp: less_Suc_eq)
    with r pv2 mono mono2 show "\<exists>s'. stitch_string Cs i (C ! j) G1 = Inr s' \<and> I (Suc j) s'"
      unfolding I_def by auto
  qed
  then obtain G' where r: "fold_err (stitch_string Cs i) C G = Inr G'" and fin: "I (length C) G'"
    by blast
  from fin have "pre_valid (pending Cs (Suc i)) G'" "\<forall>N. has_key G N \<longrightarrow> has_key G' N"
    "\<forall>j' < length C. 2 \<le> length (C ! j') \<longrightarrow> has_key G' (C ! j')"
    unfolding I_def by simp_all
  moreover from this(3) have "\<forall>t \<in> set C. 2 \<le> length t \<longrightarrow> has_key G' t"
    by (auto simp: in_set_conv_nth)
  ultimately show ?thesis using r unfolding C_def by blast
qed

lemma stitch_all_ok:
  assumes lev: "levels_ok Cs"
    and pv: "pre_valid (pending Cs 0) G"
    and sp: "\<forall>C \<in> set Cs. split_ok C G"
  shows "\<exists>G'. fold_err (\<lambda>i grammar. fold_err (stitch_string Cs i) (Cs ! i) grammar)
                 [0 ..< length Cs] G = Inr G'
           \<and> pre_valid {} G'
           \<and> (\<forall>N. has_key G N \<longrightarrow> has_key G' N)
           \<and> (\<forall>C \<in> set Cs. \<forall>t \<in> set C. 2 \<le> length t \<longrightarrow> has_key G' t)"
proof -
  define I where "I = (\<lambda>i G1. pre_valid (pending Cs i) G1
       \<and> (\<forall>N. has_key G N \<longrightarrow> has_key G1 N)
       \<and> (\<forall>m < i. \<forall>t \<in> set (Cs ! m). 2 \<le> length t \<longrightarrow> has_key G1 t))"
  have "I 0 G" using pv by (simp add: I_def)
  then have "\<exists>G'. fold_err (\<lambda>i grammar. fold_err (stitch_string Cs i) (Cs ! i) grammar)
                 [0 ..< length Cs] G = Inr G' \<and> I (length [0 ..< length Cs]) G'"
  proof (rule fold_err_index_invariant)
    fix i G1 assume i': "i < length [0 ..< length Cs]" and inv: "I i G1"
    then have i: "i < length Cs" by simp
    from inv have pv1: "pre_valid (pending Cs i) G1"
      and mono: "\<forall>N. has_key G N \<longrightarrow> has_key G1 N"
      and dn: "\<forall>m < i. \<forall>t \<in> set (Cs ! m). 2 \<le> length t \<longrightarrow> has_key G1 t"
      unfolding I_def by simp_all
    have "\<forall>m. i < m \<and> m < length Cs \<longrightarrow> split_ok (Cs ! m) G" using sp by simp
    then have sp1: "\<forall>m. i < m \<and> m < length Cs \<longrightarrow> split_ok (Cs ! m) G1"
      using mono by (meson split_ok_mono)
    from stitch_row_ok [OF lev i pv1 sp1] obtain G2
      where r: "fold_err (stitch_string Cs i) (Cs ! i) G1 = Inr G2"
        and pv2: "pre_valid (pending Cs (Suc i)) G2"
        and mono2: "\<forall>N. has_key G1 N \<longrightarrow> has_key G2 N"
        and key: "\<forall>t \<in> set (Cs ! i). 2 \<le> length t \<longrightarrow> has_key G2 t" by blast
    have "\<forall>m < Suc i. \<forall>t \<in> set (Cs ! m). 2 \<le> length t \<longrightarrow> has_key G2 t"
      using dn mono2 key by (auto simp: less_Suc_eq)
    with r pv2 mono mono2 i
    show "\<exists>s'. fold_err (stitch_string Cs ([0 ..< length Cs] ! i)) (Cs ! ([0 ..< length Cs] ! i)) G1
              = Inr s' \<and> I (Suc i) s'"
      unfolding I_def by auto
  qed
  then obtain G' where r: "fold_err (\<lambda>i grammar. fold_err (stitch_string Cs i) (Cs ! i) grammar)
                 [0 ..< length Cs] G = Inr G'" and fin: "I (length Cs) G'" by auto
  from fin have "pre_valid {} G'" "\<forall>N. has_key G N \<longrightarrow> has_key G' N"
    "\<forall>m < length Cs. \<forall>t \<in> set (Cs ! m). 2 \<le> length t \<longrightarrow> has_key G' t"
    unfolding I_def by (simp_all add: pending_end)
  moreover have "\<forall>C \<in> set Cs. \<forall>t \<in> set C. 2 \<le> length t \<longrightarrow> has_key G' t"
  proof (intro ballI impI)
    fix C t assume C: "C \<in> set Cs" and t: "t \<in> set C" "2 \<le> length t"
    from C obtain m where "m < length Cs" "Cs ! m = C" by (auto simp: in_set_conv_nth)
    with t calculation(3) show "has_key G' t" by blast
  qed
  ultimately show ?thesis using r by blast
qed

lemma valid_no_closure_violation:
  assumes "valid_grammar G" "distinct (map fst G)"
  shows "\<not> closure_violation G"
proof
  assume "closure_violation G"
  then obtain k rhs v where "(k, rhs) \<in> set G" "v \<in> set rhs" "length v > 1" "\<not> has_key G v"
    unfolding closure_violation_def list_ex_iff by auto
  moreover from this(1) assms(2) have "map_of G k = Some rhs" by simp
  ultimately show False using assms(1) unfolding valid_grammar_def by fastforce
qed

lemma getLehman1Grammar_ok:
  assumes "S \<noteq> []"
  shows "\<exists>G. getLehman1Grammar lg S = Inr G \<and> valid_grammar G \<and> distinct (map fst G)
           \<and> (2 \<le> length S \<longrightarrow> has_key G S)
           \<and> (\<forall>N. has_key (case generateSubstringConstructionGrammar (map (\<lambda>c. [c]) S) of
                               Inr g \<Rightarrow> g | Inl e \<Rightarrow> []) N \<longrightarrow> has_key G N)"
proof -
  from generateCs_ok [OF assms] obtain Cs where Cs: "generateCs lg S = Inr Cs"
    and lev: "levels_ok Cs" and hd: "hd Cs = [S]" by blast
  from lev have lev1: "\<forall>C \<in> set Cs. C \<noteq> [] \<and> (\<forall>t \<in> set C. t \<noteq> [])" and ne: "Cs \<noteq> []"
    unfolding levels_ok_def by blast+
  define chars where "chars = map (\<lambda>c. [c]) S"
  define R0 where "R0 = pending Cs 0 \<union> set chars"
  have "\<forall>C \<in> set (Cs @ [chars]). C \<noteq> [] \<and> (\<forall>t \<in> set C. t \<noteq> []) \<and> set C \<subseteq> R0"
    using lev1 assms by (auto simp: chars_def R0_def pending_def)
  from substring_fold_ok [OF this pre_valid_empty] obtain G0
    where f1: "fold_err (\<lambda>C grammar.
                   case generateSubstringConstructionGrammar C of
                     Inl e \<Rightarrow> Inl e
                   | Inr g \<Rightarrow> Inr (AList.merge grammar g)) (Cs @ [chars]) [] = Inr G0"
      and pv0: "pre_valid R0 G0" and sp0: "\<forall>C \<in> set (Cs @ [chars]). split_ok C G0" by blast
  have pv0': "pre_valid (pending Cs 0) G0"
    using pv0 by (rule pre_valid_shrink) (auto simp: R0_def chars_def)
  have sp: "\<forall>C \<in> set Cs. split_ok C G0" using sp0 by simp
  from stitch_all_ok [OF lev pv0' sp] obtain G
    where f2: "fold_err (\<lambda>i grammar. fold_err (stitch_string Cs i) (Cs ! i) grammar)
                 [0 ..< length Cs] G0 = Inr G"
      and pv: "pre_valid {} G" and mono: "\<forall>N. has_key G0 N \<longrightarrow> has_key G N"
      and keys: "\<forall>C \<in> set Cs. \<forall>t \<in> set C. 2 \<le> length t \<longrightarrow> has_key G t" by blast
  have v: "valid_grammar G" using pv by (rule pre_valid_valid)
  have d: "distinct (map fst G)" using pv by (simp add: pre_valid_def)
  have ncv: "\<not> closure_violation G" using v d by (rule valid_no_closure_violation)
  have res: "getLehman1Grammar lg S = Inr G"
    using Cs f1 f2 ncv by (simp add: getLehman1Grammar_def chars_def)
  have "S \<in> set (hd Cs)" using hd by simp
  moreover have "hd Cs \<in> set Cs" using ne by simp
  ultimately have k: "2 \<le> length S \<longrightarrow> has_key G S" using keys by blast
  have "\<forall>N. has_key (case generateSubstringConstructionGrammar chars of
                               Inr g \<Rightarrow> g | Inl e \<Rightarrow> []) N \<longrightarrow> has_key G0 N"
  proof -
    have "fold_err (\<lambda>C grammar.
                   case generateSubstringConstructionGrammar C of
                     Inl e \<Rightarrow> Inl e
                   | Inr g \<Rightarrow> Inr (AList.merge grammar g)) (Cs @ [chars]) []
        = (case fold_err (\<lambda>C grammar.
                   case generateSubstringConstructionGrammar C of
                     Inl e \<Rightarrow> Inl e
                   | Inr g \<Rightarrow> Inr (AList.merge grammar g)) Cs [] of
             Inl e \<Rightarrow> Inl e
           | Inr G1 \<Rightarrow> (case generateSubstringConstructionGrammar chars of
                          Inl e \<Rightarrow> Inl e | Inr g \<Rightarrow> Inr (AList.merge G1 g)))"
      by (simp add: fold_err_append split: sum.splits)
    with f1 obtain G1 g where "generateSubstringConstructionGrammar chars = Inr g"
      "G0 = AList.merge G1 g" by (auto split: sum.splits)
    then show ?thesis by (simp add: has_key_merge)
  qed
  with mono have "\<forall>N. has_key (case generateSubstringConstructionGrammar chars of
                               Inr g \<Rightarrow> g | Inl e \<Rightarrow> []) N \<longrightarrow> has_key G N" by blast
  with res v d k show ?thesis unfolding chars_def by blast
qed

text \<open>
  C2: on every non-empty string, and whatever integer the floating-point logarithm of
  \<open>generateCs\<close> yields, \<open>getLehman1Grammar\<close> returns a grammar without raising: no
  exception of the construction and not the closure-violation exception at its end. In the
  returned dictionary no key is listed twice and every right-hand-side symbol of length at
  least two is a key.
\<close>

theorem lehman1_returns_closed:
  assumes "1 \<le> length S"
  shows "\<exists>G. getLehman1Grammar lg S = Inr G \<and> \<not> closure_violation G
           \<and> distinct (map fst G)
           \<and> (\<forall>k rhs v. (k, rhs) \<in> set G \<and> v \<in> set rhs \<and> 2 \<le> length v \<longrightarrow> has_key G v)"
proof -
  from assms have "S \<noteq> []" by auto
  from getLehman1Grammar_ok [OF this, of lg] obtain G
    where r: "getLehman1Grammar lg S = Inr G" and v: "valid_grammar G"
      and d: "distinct (map fst G)" by blast
  have "\<not> closure_violation G" using v d by (rule valid_no_closure_violation)
  moreover have "\<forall>k rhs v. (k, rhs) \<in> set G \<and> v \<in> set rhs \<and> 2 \<le> length v \<longrightarrow> has_key G v"
  proof (intro allI impI)
    fix k rhs x assume a: "(k, rhs) \<in> set G \<and> x \<in> set rhs \<and> 2 \<le> length x"
    with d have "map_of G k = Some rhs" by simp
    with v a show "has_key G x" unfolding valid_grammar_def by blast
  qed
  ultimately show ?thesis using r d by blast
qed

theorem lehman1_returns_closed_witness:
  "1 \<le> length ''ab''
   \<and> (\<exists>G. getLehman1Grammar (\<lambda>n. int (ceil_log2 n)) ''ab'' = Inr G \<and> \<not> closure_violation G)"
  using lehman1_returns_closed [of "''ab''" "\<lambda>n. int (ceil_log2 n)"] by auto

section \<open>Sakamoto: the algorithm returns a well-formed binary grammar\<close>

lemma closed_over_empty: "closed_over R []"
  by (simp add: closed_over_def)

lemma closed_over_weaken:
  assumes "closed_over R G" "\<forall>t \<in> R. 2 \<le> length t \<longrightarrow> has_key G t \<or> t \<in> R'"
  shows "closed_over R' G"
  unfolding closed_over_def
proof (intro conjI allI impI)
  show "distinct (map fst G)" using assms(1) by (simp add: closed_over_def)
next
  fix N rhs assume "map_of G N = Some rhs"
  with assms(1) obtain a b where "rhs = [a, b]" "a \<noteq> []" "b \<noteq> []" "a @ b = N"
      "2 \<le> length a \<longrightarrow> has_key G a \<or> a \<in> R" "2 \<le> length b \<longrightarrow> has_key G b \<or> b \<in> R"
    unfolding closed_over_def by blast
  with assms(2) show "\<exists>a b. rhs = [a, b] \<and> a \<noteq> [] \<and> b \<noteq> [] \<and> a @ b = N
                \<and> (2 \<le> length a \<longrightarrow> has_key G a \<or> a \<in> R')
                \<and> (2 \<le> length b \<longrightarrow> has_key G b \<or> b \<in> R')"
    by blast
qed

lemma closed_over_update:
  assumes G: "closed_over R G" and a: "a \<noteq> []" and b: "b \<noteq> []"
    and ca: "2 \<le> length a \<longrightarrow> has_key G a \<or> a \<in> R"
    and cb: "2 \<le> length b \<longrightarrow> has_key G b \<or> b \<in> R"
  shows "closed_over R (AList.update (a @ b) [a, b] G)"
  unfolding closed_over_def
proof (intro conjI allI impI)
  show "distinct (map fst (AList.update (a @ b) [a, b] G))"
    using G by (simp add: closed_over_def distinct_update)
next
  fix N rhs assume m: "map_of (AList.update (a @ b) [a, b] G) N = Some rhs"
  let ?G = "AList.update (a @ b) [a, b] G"
  have mono: "has_key ?G M" if "has_key G M" for M using that by (simp add: has_key_update)
  show "\<exists>a b. rhs = [a, b] \<and> a \<noteq> [] \<and> b \<noteq> [] \<and> a @ b = N
                \<and> (2 \<le> length a \<longrightarrow> has_key ?G a \<or> a \<in> R)
                \<and> (2 \<le> length b \<longrightarrow> has_key ?G b \<or> b \<in> R)"
  proof (cases "N = a @ b")
    case True
    with m have "rhs = [a, b]" by (simp add: update_conv')
    with True a b ca cb mono show ?thesis by blast
  next
    case False
    with m have "map_of G N = Some rhs" by (simp add: update_conv')
    with G obtain a' b' where "rhs = [a', b']" "a' \<noteq> []" "b' \<noteq> []" "a' @ b' = N"
      "2 \<le> length a' \<longrightarrow> has_key G a' \<or> a' \<in> R" "2 \<le> length b' \<longrightarrow> has_key G b' \<or> b' \<in> R"
      unfolding closed_over_def by blast
    with mono show ?thesis by blast
  qed
qed

lemma closed_over_merge:
  assumes A: "closed_over R A" and B: "closed_over R B"
  shows "closed_over R (AList.merge A B)"
  unfolding closed_over_def
proof (intro conjI allI impI)
  show "distinct (map fst (AList.merge A B))"
    using A by (simp add: closed_over_def distinct_merge)
next
  fix N rhs assume "map_of (AList.merge A B) N = Some rhs"
  then have "map_of B N = Some rhs \<or> map_of A N = Some rhs"
    by (auto dest: map_of_merge_cases)
  then obtain a b where "rhs = [a, b]" "a \<noteq> []" "b \<noteq> []" "a @ b = N"
      "2 \<le> length a \<longrightarrow> has_key A a \<or> has_key B a \<or> a \<in> R"
      "2 \<le> length b \<longrightarrow> has_key A b \<or> has_key B b \<or> b \<in> R"
    using A B unfolding closed_over_def by blast
  then show "\<exists>a b. rhs = [a, b] \<and> a \<noteq> [] \<and> b \<noteq> [] \<and> a @ b = N
                \<and> (2 \<le> length a \<longrightarrow> has_key (AList.merge A B) a \<or> a \<in> R)
                \<and> (2 \<le> length b \<longrightarrow> has_key (AList.merge A B) b \<or> b \<in> R)"
    unfolding has_key_merge by blast
qed

lemma closed_over_valid:
  assumes "closed_over {} G"
  shows "valid_grammar G" and "\<forall>N rhs. map_of G N = Some rhs \<longrightarrow> length rhs = 2"
proof -
  show "valid_grammar G"
    unfolding valid_grammar_def
  proof (intro allI impI)
    fix N rhs assume "map_of G N = Some rhs"
    with assms obtain a b where "rhs = [a, b]" "a \<noteq> []" "b \<noteq> []" "a @ b = N"
      "2 \<le> length a \<longrightarrow> has_key G a" "2 \<le> length b \<longrightarrow> has_key G b"
      unfolding closed_over_def by blast
    then show "concat rhs = N \<and> 2 \<le> length rhs
        \<and> (\<forall>M \<in> set rhs. M \<noteq> [] \<and> (2 \<le> length M \<longrightarrow> has_key G M))" by auto
  qed
  show "\<forall>N rhs. map_of G N = Some rhs \<longrightarrow> length rhs = 2"
    using assms unfolding closed_over_def by fastforce
qed

lemma produceRepeatingSymbolGrammar_closed:
  "2 \<le> length S \<Longrightarrow> closed_over R P \<Longrightarrow>
     \<exists>P'. produceRepeatingSymbolGrammar P S = Inr P' \<and> closed_over R P' \<and> has_key P' S
        \<and> (\<forall>N. has_key P N \<longrightarrow> has_key P' N)"
proof (induction "length S" arbitrary: S P R rule: less_induct)
  case less
  note len = less.prems(1) and cl = less.prems(2)
  consider "length S = 2" | "2 < length S" "length S mod 2 = 0" | "2 < length S" "length S mod 2 \<noteq> 0"
    using len by linarith
  then show ?case
  proof cases
    case 1
    then obtain x y where S: "S = [x, y]"
      by (metis (no_types, opaque_lifting) One_nat_def Suc_1 length_0_conv length_Suc_conv)
    have "closed_over R (AList.update ([x] @ [y]) [[x], [y]] P)"
      using cl by (intro closed_over_update) auto
    moreover have "produceRepeatingSymbolGrammar P S = Inr (AList.update S [[S ! 0], [S ! 1]] P)"
      using 1 by (subst produceRepeatingSymbolGrammar.simps) simp
    ultimately show ?thesis using S by (simp add: has_key_update)
  next
    case 2
    define h where "h = length S div 2"
    define a where "a = take h S"
    define b where "b = drop h S"
    have h: "2 \<le> h" "h < length S" using 2 by (auto simp: h_def)
    have la: "length a = h" "length b = length S - h" using h by (simp_all add: a_def b_def)
    have ab: "a @ b = S" by (simp add: a_def b_def)
    have lb: "2 \<le> length b" using 2 la by (simp add: h_def)
    define P0 where "P0 = AList.update S [a, b] P"
    have "closed_over (insert a (insert b R)) P"
      using cl by (rule closed_over_weaken) simp
    then have "closed_over (insert a (insert b R)) (AList.update (a @ b) [a, b] P)"
      using la h lb by (intro closed_over_update) auto
    then have cl0: "closed_over (insert a (insert b R)) P0" by (simp add: P0_def ab)
    have "length a < length S" "2 \<le> length a" using la h by simp_all
    from less.hyps [OF this cl0] obtain P1
      where r1: "produceRepeatingSymbolGrammar P0 a = Inr P1"
        and cl1: "closed_over (insert a (insert b R)) P1" and k1: "has_key P1 a"
        and m1: "\<forall>N. has_key P0 N \<longrightarrow> has_key P1 N" by blast
    have "length b < length S" using la h by simp
    from less.hyps [OF this lb cl1] obtain P2
      where r2: "produceRepeatingSymbolGrammar P1 b = Inr P2"
        and cl2: "closed_over (insert a (insert b R)) P2" and k2: "has_key P2 b"
        and m2: "\<forall>N. has_key P1 N \<longrightarrow> has_key P2 N" by blast
    have res: "produceRepeatingSymbolGrammar P S = Inr P2"
      using 2 r1 r2 unfolding P0_def a_def b_def h_def
      by (subst produceRepeatingSymbolGrammar.simps) simp
    have "closed_over R P2" using cl2
      by (rule closed_over_weaken) (use k1 k2 m2 in auto)
    moreover have "has_key P2 S" using m1 m2 by (simp add: P0_def has_key_update)
    moreover have "\<forall>N. has_key P N \<longrightarrow> has_key P2 N"
      using m1 m2 by (simp add: P0_def has_key_update)
    ultimately show ?thesis using res by blast
  next
    case 3
    define a where "a = take (length S - 1) S"
    define b where "b = [S ! (length S - 1)]"
    have la: "length a = length S - 1" by (simp add: a_def)
    have "S \<noteq> []" using 3 by auto
    then have "butlast S @ [last S] = S" by simp
    moreover have "last S = S ! (length S - 1)" using \<open>S \<noteq> []\<close> by (rule last_conv_nth)
    moreover have "butlast S = take (length S - 1) S" by (rule butlast_conv_take)
    ultimately have ab: "a @ b = S" unfolding a_def b_def by simp
    define P0 where "P0 = AList.update S [a, b] P"
    have "closed_over (insert a R) P"
      using cl by (rule closed_over_weaken) simp
    then have "closed_over (insert a R) (AList.update (a @ b) [a, b] P)"
      using la 3 by (intro closed_over_update) (auto simp: b_def)
    then have cl0: "closed_over (insert a R) P0" by (simp add: P0_def ab)
    have "length a < length S" "2 \<le> length a" using la 3 by simp_all
    from less.hyps [OF this cl0] obtain P1
      where r1: "produceRepeatingSymbolGrammar P0 a = Inr P1"
        and cl1: "closed_over (insert a R) P1" and k1: "has_key P1 a"
        and m1: "\<forall>N. has_key P0 N \<longrightarrow> has_key P1 N" by blast
    have res: "produceRepeatingSymbolGrammar P S = Inr P1"
      using 3 r1 unfolding P0_def a_def b_def
      by (subst produceRepeatingSymbolGrammar.simps) simp
    have "closed_over R P1" using cl1
      by (rule closed_over_weaken) (use k1 in auto)
    moreover have "has_key P1 S" using m1 by (simp add: P0_def has_key_update)
    moreover have "\<forall>N. has_key P N \<longrightarrow> has_key P1 N"
      using m1 by (simp add: P0_def has_key_update)
    ultimately show ?thesis using res by blast
  qed
qed

lemma findMaxRepeating_loop_run:
  "i < j \<Longrightarrow> j \<le> length w \<Longrightarrow> \<forall>k. i \<le> k \<and> k < j \<longrightarrow> w ! k = w ! i \<Longrightarrow>
     j - 1 \<le> snd (findMaxRepeating_loop w i j)
     \<and> (\<forall>k. i \<le> k \<and> k \<le> snd (findMaxRepeating_loop w i j) \<longrightarrow> w ! k = w ! i)
     \<and> (snd (findMaxRepeating_loop w i j) + 1 < length w
          \<longrightarrow> w ! (snd (findMaxRepeating_loop w i j) + 1) \<noteq> w ! i)"
proof (induction w i j rule: findMaxRepeating_loop.induct)
  case (1 w i j)
  show ?case
  proof (cases "j < length w \<and> w ! j = w ! i")
    case True
    have step: "findMaxRepeating_loop w i j = findMaxRepeating_loop w i (j + 1)"
      by (rule trans [OF findMaxRepeating_loop.simps if_P [OF True]])
    from True have jl: "j < length w" and eq: "w ! j = w ! i" by blast+
    have a: "i < j + 1" "j + 1 \<le> length w" using "1.prems"(1) jl by simp_all
    have b: "\<forall>k. i \<le> k \<and> k < j + 1 \<longrightarrow> w ! k = w ! i"
    proof (intro allI impI)
      fix k assume k: "i \<le> k \<and> k < j + 1"
      then have "k < j \<or> k = j" by arith
      then show "w ! k = w ! i"
      proof
        assume "k < j" with k "1.prems"(3) show ?thesis by blast
      next
        assume "k = j" with eq show ?thesis by simp
      qed
    qed
    define r where "r = snd (findMaxRepeating_loop w i (j + 1))"
    from "1.IH" [OF True a b] have "j + 1 - 1 \<le> r" "\<forall>k. i \<le> k \<and> k \<le> r \<longrightarrow> w ! k = w ! i"
      "r + 1 < length w \<longrightarrow> w ! (r + 1) \<noteq> w ! i" unfolding r_def by blast+
    moreover from this(1) have "j - 1 \<le> r" by simp
    ultimately show ?thesis unfolding step r_def [symmetric] by blast
  next
    case False
    have r: "findMaxRepeating_loop w i j = (i, j - 1)"
      by (rule trans [OF findMaxRepeating_loop.simps if_not_P [OF False]])
    have c2: "\<forall>k. i \<le> k \<and> k \<le> j - 1 \<longrightarrow> w ! k = w ! i"
    proof (intro allI impI)
      fix k assume "i \<le> k \<and> k \<le> j - 1"
      with "1.prems"(1) have "i \<le> k \<and> k < j" by arith
      with "1.prems"(3) show "w ! k = w ! i" by blast
    qed
    have e: "j - 1 + 1 = j" using "1.prems"(1) by simp
    have c3: "j - 1 + 1 < length w \<longrightarrow> w ! (j - 1 + 1) \<noteq> w ! i"
      unfolding e using False by blast
    have c1: "j - 1 \<le> j - 1" by simp
    show ?thesis unfolding r snd_conv using c1 c2 c3 by blast
  qed
qed

lemma findMaxRepeating_run:
  assumes "i + 1 < length w"
  shows "fst (findMaxRepeating w i) = i \<and> i \<le> snd (findMaxRepeating w i)
     \<and> snd (findMaxRepeating w i) < length w
     \<and> (\<forall>k. i \<le> k \<and> k \<le> snd (findMaxRepeating w i) \<longrightarrow> w ! k = w ! i)
     \<and> (snd (findMaxRepeating w i) + 1 < length w
          \<longrightarrow> w ! (snd (findMaxRepeating w i) + 1) \<noteq> w ! i)"
proof -
  have a: "i < i + 1" "i + 1 \<le> length w" using assms by auto
  have b: "\<forall>k. i \<le> k \<and> k < i + 1 \<longrightarrow> w ! k = w ! i" by (auto simp: less_Suc_eq le_antisym)
  define r where "r = snd (findMaxRepeating_loop w i (i + 1))"
  from findMaxRepeating_loop_run [OF a b]
  have "\<forall>k. i \<le> k \<and> k \<le> r \<longrightarrow> w ! k = w ! i" "r + 1 < length w \<longrightarrow> w ! (r + 1) \<noteq> w ! i"
    unfolding r_def by blast+
  moreover from findMaxRepeating_loop_bounds [OF a(2) a(1)]
  have "i \<le> r" "r < length w" "fst (findMaxRepeating_loop w i (i + 1)) = i"
    unfolding r_def by blast+
  ultimately show ?thesis unfolding findMaxRepeating_def r_def [symmetric] by blast
qed

lemma hasRepeatingSymbol_run:
  assumes "hasRepeatingSymbol w = Some (i, j)"
  shows "i < j \<and> j < length w \<and> (\<forall>k. i \<le> k \<and> k \<le> j \<longrightarrow> w ! k = w ! i)"
proof -
  from assms have len: "2 \<le> length w"
    and f: "List.find (\<lambda>r. fst r \<noteq> snd r) (map (findMaxRepeating w) [0 ..< length w - 1]) = Some (i, j)"
    by (auto simp: hasRepeatingSymbol_def split: if_splits)
  from f have "\<exists>k < length w - 1. findMaxRepeating w k = (i, j) \<and> fst (i, j) \<noteq> snd (i, j)"
    unfolding find_Some_iff by (auto simp del: fst_conv snd_conv)
  then obtain k where k: "k < length w - 1" "findMaxRepeating w k = (i, j)" "i \<noteq> j"
    by auto
  from k(1) have "k + 1 < length w" by simp
  from findMaxRepeating_run [OF this]
  have "fst (findMaxRepeating w k) = k" "k \<le> snd (findMaxRepeating w k)"
    "snd (findMaxRepeating w k) < length w"
    "\<forall>m. k \<le> m \<and> m \<le> snd (findMaxRepeating w k) \<longrightarrow> w ! m = w ! k" by blast+
  then have f: "i = k" "k \<le> j" "j < length w" "\<forall>m. k \<le> m \<and> m \<le> j \<longrightarrow> w ! m = w ! k"
    unfolding k(2) fst_conv snd_conv by blast+
  from f(1,2) k(3) have "i < j" by simp
  with f show ?thesis by blast
qed

lemma hasRepeatingSymbol_None:
  assumes "hasRepeatingSymbol w = None" "i + 1 < length w"
  shows "w ! (i + 1) \<noteq> w ! i"
proof -
  from assms have "List.find (\<lambda>r. fst r \<noteq> snd r) (map (findMaxRepeating w) [0 ..< length w - 1]) = None"
    by (auto simp: hasRepeatingSymbol_def split: if_splits)
  then have "\<forall>r \<in> set (map (findMaxRepeating w) [0 ..< length w - 1]). fst r = snd r"
    by (auto simp: find_None_iff)
  moreover have "findMaxRepeating w i \<in> set (map (findMaxRepeating w) [0 ..< length w - 1])"
    using assms(2) by auto
  ultimately have e: "fst (findMaxRepeating w i) = snd (findMaxRepeating w i)" by blast
  define r where "r = snd (findMaxRepeating w i)"
  from findMaxRepeating_run [OF assms(2)]
  have "fst (findMaxRepeating w i) = i" "r + 1 < length w \<longrightarrow> w ! (r + 1) \<noteq> w ! i"
    unfolding r_def by blast+
  moreover from this(1) e have "r = i" by (simp add: r_def)
  ultimately show ?thesis using assms(2) by simp
qed

lemma concat_collapse_run:
  assumes "i < j" "j < length w" "\<forall>k. i \<le> k \<and> k \<le> j \<longrightarrow> w ! k = w ! i"
  shows "concat (collapse_run w i j) = concat w"
proof -
  have r: "take (j + 1 - i) (drop i w) = replicate (j - i + 1) (w ! i)"
  proof (rule nth_equalityI)
    show "length (take (j + 1 - i) (drop i w)) = length (replicate (j - i + 1) (w ! i))"
      using assms(1,2) by simp
  next
    fix k assume "k < length (take (j + 1 - i) (drop i w))"
    then have k: "k < j + 1 - i" by simp
    then have "take (j + 1 - i) (drop i w) ! k = w ! (i + k)" using assms(1,2) by simp
    also have "\<dots> = w ! i"
    proof -
      have "i \<le> i + k \<and> i + k \<le> j" using k by arith
      with assms(3) show ?thesis by blast
    qed
    also have "\<dots> = replicate (j - i + 1) (w ! i) ! k"
    proof -
      have "k < j - i + 1" using k assms(1) by arith
      then show ?thesis by (simp only: nth_replicate)
    qed
    finally show "take (j + 1 - i) (drop i w) ! k = replicate (j - i + 1) (w ! i) ! k" .
  qed
  have d: "drop (j + 1 - i) (drop i w) = drop (j + 1) w" using assms(1,2) by simp
  have "concat w = concat (take i w @ drop i w)" by simp
  also have "drop i w = take (j + 1 - i) (drop i w) @ drop (j + 1 - i) (drop i w)"
    by (simp only: append_take_drop_id)
  also have "\<dots> = replicate (j - i + 1) (w ! i) @ drop (j + 1) w" by (simp only: r d)
  finally show ?thesis by (simp add: collapse_run_def)
qed

lemma repetition_loop_valid:
  "\<forall>s \<in> set w. s \<noteq> [] \<Longrightarrow> closed_over R P \<Longrightarrow>
   \<exists>w' P'. repetition_loop w P = Inr (w', P') \<and> concat w' = concat w
      \<and> (\<forall>s \<in> set w'. s \<noteq> []) \<and> closed_over R P'
      \<and> (\<forall>x \<in> set w'. x \<in> set w \<or> has_key P' x)
      \<and> (\<forall>N. has_key P N \<longrightarrow> has_key P' N)
      \<and> hasRepeatingSymbol w' = None"
proof (induction w P rule: repetition_loop.induct)
  case (1 w P)
  show ?case
  proof (cases "hasRepeatingSymbol w")
    case None
    then have "repetition_loop w P = Inr (w, P)" by (subst repetition_loop.simps) simp
    with None "1.prems" show ?thesis by simp
  next
    case (Some ij)
    obtain i j where ij: "ij = (i, j)" by (cases ij)
    with Some have h: "hasRepeatingSymbol w = Some (i, j)" by simp
    from hasRepeatingSymbol_run [OF h]
    have b: "i < j" "j < length w" and run: "\<forall>k. i \<le> k \<and> k \<le> j \<longrightarrow> w ! k = w ! i"
      by blast+
    let ?A = "concat (replicate (j - i + 1) (w ! i))"
    have "w ! i \<in> set w" using b by simp
    then have ne: "w ! i \<noteq> []" using "1.prems" by blast
    then have "1 \<le> length (w ! i)" by (cases "w ! i") auto
    moreover have "2 \<le> j - i + 1" using b by simp
    ultimately have "2 * 1 \<le> (j - i + 1) * length (w ! i)" by (intro mult_le_mono)
    then have lenA: "2 \<le> length ?A" by (simp add: length_concat_replicate)
    from produceRepeatingSymbolGrammar_closed [OF lenA "1.prems"(2)]
    obtain P' where P': "produceRepeatingSymbolGrammar P ?A = Inr P'"
      and cl': "closed_over R P'" and kA: "has_key P' ?A"
      and mono: "\<forall>N. has_key P N \<longrightarrow> has_key P' N" by blast
    have Ane: "?A \<noteq> []" using lenA by auto
    have sub: "set (collapse_run w i j) \<subseteq> insert ?A (set w)"
      unfolding collapse_run_def using set_take_subset [of i w] set_drop_subset [of "j + 1" w] by auto
    have ne': "\<forall>s \<in> set (collapse_run w i j). s \<noteq> []"
    proof
      fix s assume "s \<in> set (collapse_run w i j)"
      with sub have "s = ?A \<or> s \<in> set w" by (meson insertE subsetD)
      then show "s \<noteq> []" using Ane "1.prems" by (elim disjE) simp_all
    qed
    from "1.IH" [OF Some ij [symmetric] P' ne' cl']
    obtain w' P'' where r: "repetition_loop (collapse_run w i j) P' = Inr (w', P'')"
      and c: "concat w' = concat (collapse_run w i j)"
      and n: "\<forall>s \<in> set w'. s \<noteq> []" and cl'': "closed_over R P''"
      and sy: "\<forall>x \<in> set w'. x \<in> set (collapse_run w i j) \<or> has_key P'' x"
      and mono': "\<forall>N. has_key P' N \<longrightarrow> has_key P'' N"
      and none: "hasRepeatingSymbol w' = None" by blast
    have res: "repetition_loop w P = Inr (w', P'')"
      using Some ij P' r by (subst repetition_loop.simps) simp
    have "concat w' = concat w" using c concat_collapse_run [OF b run] by simp
    moreover have "\<forall>x \<in> set w'. x \<in> set w \<or> has_key P'' x"
    proof
      fix x assume "x \<in> set w'"
      with sy have "x \<in> set (collapse_run w i j) \<or> has_key P'' x" by blast
      then show "x \<in> set w \<or> has_key P'' x"
      proof
        assume "x \<in> set (collapse_run w i j)"
        with sub have "x = ?A \<or> x \<in> set w" by (meson insertE subsetD)
        then show ?thesis using kA mono' by blast
      qed simp
    qed
    moreover have "\<forall>N. has_key P N \<longrightarrow> has_key P'' N" using mono mono' by blast
    ultimately show ?thesis using res n cl'' none by blast
  qed
qed

lemma overwrite_nth:
  "k < length w \<Longrightarrow>
     fold (\<lambda>l w. w[l := new]) locs w ! k = (if k \<in> set locs then new else w ! k)"
proof (induction locs arbitrary: w)
  case Nil
  show ?case by simp
next
  case (Cons l locs)
  have "k < length (w[l := new])" using Cons.prems by simp
  from Cons.IH [OF this] show ?case using Cons.prems by (auto simp: nth_list_update)
qed

lemma agree_take_drop:
  assumes len: "length u = length v" and ag: "\<forall>k. x \<le> k \<and> k < y \<longrightarrow> u ! k = v ! k"
    and y: "y \<le> length v"
  shows "take (y - x) (drop x u) = take (y - x) (drop x v)"
proof (rule nth_equalityI)
  show "length (take (y - x) (drop x u)) = length (take (y - x) (drop x v))"
    using len by simp
next
  fix k assume "k < length (take (y - x) (drop x u))"
  then have k: "k < y - x" by simp
  then have b: "x \<le> x + k \<and> x + k < y" by arith
  have "take (y - x) (drop x u) ! k = u ! (x + k)" using k y len by simp
  also have "\<dots> = v ! (x + k)" using ag b by blast
  also have "\<dots> = take (y - x) (drop x v) ! k" using k y by simp
  finally show "take (y - x) (drop x u) ! k = take (y - x) (drop x v) ! k" .
qed

lemma agree_drop:
  assumes len: "length u = length v" and ag: "\<forall>k. x \<le> k \<and> k < length v \<longrightarrow> u ! k = v ! k"
  shows "drop x u = drop x v"
proof -
  have "take (length v - x) (drop x u) = take (length v - x) (drop x v)"
    using len ag by (intro agree_take_drop) auto
  then show ?thesis using len by simp
qed

lemma pops_concat:
  assumes sorted: "sorted_wrt (<) locs"
    and occ: "\<forall>l \<in> set locs. l + 1 < length w \<and> w ! l = a \<and> w ! (l + 1) = b"
    and apart: "\<forall>l \<in> set locs. Suc l \<notin> set locs"
    and len1: "length w1 = length w"
    and nth1: "\<forall>k < length w. w1 ! k = (if k \<in> set locs then a @ b else w ! k)"
    and m: "m \<le> length locs"
  shows "\<exists>pref. fold_err (\<lambda>li w. py_pop w (locs ! li - li + 1)) [0 ..< m] w1
             = Inr (pref @ drop (if m = 0 then 0 else locs ! (m - 1) + 2) w1)
           \<and> length pref + m = (if m = 0 then 0 else locs ! (m - 1) + 2)
           \<and> concat pref = concat (take (if m = 0 then 0 else locs ! (m - 1) + 2) w)"
  using m
proof (induction m)
  case 0
  show ?case by simp
next
  case (Suc m)
  define c where "c = (if m = 0 then 0 else locs ! (m - 1) + 2)"
  from Suc obtain pref
    where r: "fold_err (\<lambda>li w. py_pop w (locs ! li - li + 1)) [0 ..< m] w1 = Inr (pref @ drop c w1)"
      and lp: "length pref + m = c" and cp: "concat pref = concat (take c w)"
    unfolding c_def by auto
  define l where "l = locs ! m"
  have mlt: "m < length locs" using Suc.prems by simp
  then have lin: "l \<in> set locs" by (simp add: l_def)
  with occ have lb: "l + 1 < length w" and wl: "w ! l = a" and wl1: "w ! (l + 1) = b" by blast+
  have mono: "locs ! q < locs ! q'" if "q < q'" "q' < length locs" for q q'
    using sorted that by (simp add: sorted_wrt_nth_less)
  have cl: "c \<le> l"
  proof (cases "m = 0")
    case True
    then show ?thesis by (simp add: c_def)
  next
    case False
    then have "locs ! (m - 1) < locs ! m" using mlt by (intro mono) auto
    moreover have "locs ! (m - 1) \<in> set locs" using mlt by simp
    with apart have "Suc (locs ! (m - 1)) \<notin> set locs" by blast
    with lin have "Suc (locs ! (m - 1)) \<noteq> l" by metis
    ultimately show ?thesis using False by (simp add: c_def l_def)
  qed
  have notin: "k \<notin> set locs" if k: "c \<le> k" "k < l" for k
  proof
    assume "k \<in> set locs"
    then obtain q where q: "q < length locs" "locs ! q = k" by (auto simp: in_set_conv_nth)
    show False
    proof (cases "q < m")
      case True
      then have m0: "m \<noteq> 0" by simp
      have "locs ! q \<le> locs ! (m - 1)"
      proof (cases "q = m - 1")
        case False
        with True have "q < m - 1" by simp
        then have "locs ! q < locs ! (m - 1)" using mlt by (intro mono) auto
        then show ?thesis by simp
      qed simp
      then have "k < c" using q m0 by (simp add: c_def)
      with k show False by simp
    next
      case False
      have "locs ! m \<le> locs ! q"
      proof (cases "q = m")
        case False
        with \<open>\<not> q < m\<close> have "m < q" by simp
        then have "locs ! m < locs ! q" using q by (intro mono) auto
        then show ?thesis by simp
      qed simp
      with q k show False by (simp add: l_def)
    qed
  qed
  define wm where "wm = pref @ drop c w1"
  define p where "p = l - m + 1"
  have mc: "m \<le> c" using lp by simp
  have lenwm: "length wm = length w - m" using lp cl lb len1 by (simp add: wm_def)
  have pl: "p < length wm" using lenwm lb cl mc by (simp add: p_def)
  have lpref: "length pref = c - m" using lp by simp
  have pge: "length pref \<le> p" using lpref cl mc by (simp add: p_def)
  have pd: "p - length pref = l + 1 - c" using lpref cl mc by (simp add: p_def)
  have tk: "take p wm = pref @ take (l + 1 - c) (drop c w1)"
    using pge pd by (simp add: wm_def)
  have "drop (p + 1) wm = drop (p + 1 - length pref) (drop c w1)"
    using pge by (simp add: wm_def)
  also have "p + 1 - length pref = l + 2 - c" using pd pge cl by simp
  also have "drop (l + 2 - c) (drop c w1) = drop (l + 2) w1" using cl by simp
  finally have dr: "drop (p + 1) wm = drop (l + 2) w1" .
  define pref' where "pref' = pref @ take (l + 1 - c) (drop c w1)"
  have pop: "py_pop wm p = Inr (pref' @ drop (l + 2) w1)"
    using pl tk dr by (simp add: py_pop_def pref'_def)
  have run: "fold_err (\<lambda>li w. py_pop w (locs ! li - li + 1)) [0 ..< Suc m] w1
      = Inr (pref' @ drop (l + 2) w1)"
    using r pop by (simp add: fold_err_append wm_def p_def l_def)
  have lp': "length pref' + Suc m = l + 2"
    using lpref cl mc lb len1 by (simp add: pref'_def)
  have w1l: "w1 ! l = a @ b" using nth1 lin lb by simp
  have ag: "\<forall>k. c \<le> k \<and> k < l \<longrightarrow> w1 ! k = w ! k"
  proof (intro allI impI)
    fix k assume k: "c \<le> k \<and> k < l"
    then have "k \<notin> set locs" using notin by blast
    moreover have "k < length w" using k lb by simp
    ultimately show "w1 ! k = w ! k" using nth1 by simp
  qed
  have same: "take (l - c) (drop c w1) = take (l - c) (drop c w)"
    by (rule agree_take_drop [OF len1 ag]) (use lb in simp)
  have "take (l + 1 - c) (drop c w1) = take (l - c) (drop c w1) @ [drop c w1 ! (l - c)]"
  proof -
    have "l - c < length (drop c w1)" using lb len1 cl by simp
    from take_Suc_conv_app_nth [OF this] show ?thesis using cl by (simp add: Suc_diff_le)
  qed
  also have "drop c w1 ! (l - c) = w1 ! l" using cl lb len1 by simp
  finally have t1: "take (l + 1 - c) (drop c w1) = take (l - c) (drop c w) @ [a @ b]"
    using same w1l by simp
  have t2: "take (l + 2) w = take c w @ take (l - c) (drop c w) @ [w ! l, w ! (l + 1)]"
  proof -
    have "take (l + 2) w = take (Suc (Suc l)) w" by simp
    also have "\<dots> = take l w @ [w ! l, w ! (l + 1)]"
      using lb by (simp add: take_Suc_conv_app_nth)
    also have "take l w = take (c + (l - c)) w" using cl by simp
    also have "\<dots> = take c w @ take (l - c) (drop c w)" by (simp only: take_add)
    finally show ?thesis by simp
  qed
  have cp': "concat pref' = concat (take (l + 2) w)"
    unfolding pref'_def t1 t2 using cp wl wl1 by simp
  show ?case
    using run lp' cp' by (intro exI [of _ pref']) (simp add: l_def)
qed

lemma replace_segment_concat:
  assumes ab: "a \<noteq> b"
  shows "\<exists>w'. replace_segment (a, b) (w, P) = Inr (w', AList.update (a @ b) [a, b] P)
           \<and> concat w' = concat w \<and> set w' \<subseteq> insert (a @ b) (set w)"
proof -
  define locs where "locs = filter (\<lambda>i. (w ! i, w ! (i + 1)) = (a, b)) [0 ..< length w - 1]"
  define w1 where "w1 = fold (\<lambda>l w. w[l := a @ b]) locs w"
  have sorted: "sorted_wrt (<) locs"
    unfolding locs_def by (intro sorted_wrt_filter) (simp add: sorted_wrt_upt)
  have occ: "\<forall>l \<in> set locs. l + 1 < length w \<and> w ! l = a \<and> w ! (l + 1) = b"
    by (auto simp: locs_def)
  have apart: "\<forall>l \<in> set locs. Suc l \<notin> set locs"
  proof
    fix l assume "l \<in> set locs"
    with occ have "w ! (l + 1) = b" by blast
    then have "w ! Suc l \<noteq> a" using ab by simp
    then show "Suc l \<notin> set locs" by (auto simp: locs_def)
  qed
  have len1: "length w1 = length w"
    and s1: "set w1 \<subseteq> (if locs = [] then set w else insert (a @ b) (set w))"
    using overwrite_fold [of "a @ b" locs w] by (simp_all add: w1_def)
  have nth1: "\<forall>k < length w. w1 ! k = (if k \<in> set locs then a @ b else w ! k)"
    unfolding w1_def by (simp add: overwrite_nth)
  define c where "c = (if length locs = 0 then 0 else locs ! (length locs - 1) + 2)"
  from pops_concat [OF sorted occ apart len1 nth1 le_refl]
  obtain pref where r: "fold_err (\<lambda>li w. py_pop w (locs ! li - li + 1)) [0 ..< length locs] w1
             = Inr (pref @ drop c w1)"
    and cp: "concat pref = concat (take c w)"
    unfolding c_def by blast
  have bound: "\<forall>l \<in> set locs. l + 1 < length w1" using occ len1 by simp
  from pops_ok [OF sorted bound le_refl] r have sub: "set (pref @ drop c w1) \<subseteq> set w1" by auto
  have ag: "\<forall>k. c \<le> k \<and> k < length w \<longrightarrow> w1 ! k = w ! k"
  proof (intro allI impI)
    fix k assume k: "c \<le> k \<and> k < length w"
    have "k \<notin> set locs"
    proof
      assume "k \<in> set locs"
      then obtain q where q: "q < length locs" "locs ! q = k" by (auto simp: in_set_conv_nth)
      have "locs ! q \<le> locs ! (length locs - 1)"
      proof (cases "q = length locs - 1")
        case False
        with q have ql: "q < length locs - 1" by simp
        moreover have "length locs - 1 < length locs" using q by simp
        ultimately have "locs ! q < locs ! (length locs - 1)"
          by (rule sorted_wrt_nth_less [OF sorted])
        then show ?thesis by simp
      qed simp
      moreover have "length locs \<noteq> 0" using q by auto
      ultimately have "k < c" using q by (simp add: c_def)
      with k show False by simp
    qed
    with nth1 k show "w1 ! k = w ! k" by simp
  qed
  have "drop c w1 = drop c w" using len1 ag by (rule agree_drop)
  then have "concat (pref @ drop c w1) = concat (take c w) @ concat (drop c w)" using cp by simp
  also have "\<dots> = concat (take c w @ drop c w)" by (simp only: concat_append)
  also have "\<dots> = concat w" by (simp only: append_take_drop_id)
  finally have conc: "concat (pref @ drop c w1) = concat w" .
  have "replace_segment (a, b) (w, P) = Inr (pref @ drop c w1, AList.update (a @ b) [a, b] P)"
    using r unfolding replace_segment_def w1_def locs_def by (simp add: Let_def)
  moreover have "set (pref @ drop c w1) \<subseteq> insert (a @ b) (set w)"
    using sub s1 by (auto split: if_splits)
  ultimately show ?thesis using conc by blast
qed

lemma replace_segments_valid:
  assumes segs: "\<forall>s \<in> set segs. fst s \<noteq> snd s \<and> fst s \<noteq> [] \<and> snd s \<noteq> [] \<and> fst s \<in> R \<and> snd s \<in> R"
    and cl: "closed_over R P"
  shows "\<exists>w' P'. fold_err replace_segment segs (w, P) = Inr (w', P') \<and> concat w' = concat w
           \<and> closed_over R P' \<and> (\<forall>x \<in> set w'. x \<in> set w \<or> has_key P' x)
           \<and> (\<forall>N. has_key P N \<longrightarrow> has_key P' N)"
  using assms
proof (induction segs arbitrary: w P)
  case Nil
  then show ?case by simp
next
  case (Cons s segs)
  obtain a b where s: "s = (a, b)" by (cases s)
  from Cons.prems(1) s have ab: "a \<noteq> b" and ne: "a \<noteq> []" "b \<noteq> []" and inR: "a \<in> R" "b \<in> R"
    by auto
  from replace_segment_concat [OF ab, of w P] obtain w1
    where r1: "replace_segment (a, b) (w, P) = Inr (w1, AList.update (a @ b) [a, b] P)"
      and c1: "concat w1 = concat w" and s1: "set w1 \<subseteq> insert (a @ b) (set w)" by blast
  define P1 where "P1 = AList.update (a @ b) [a, b] P"
  have cl1: "closed_over R P1"
    unfolding P1_def using Cons.prems(2) ne inR by (intro closed_over_update) auto
  have rest: "\<forall>s \<in> set segs. fst s \<noteq> snd s \<and> fst s \<noteq> [] \<and> snd s \<noteq> [] \<and> fst s \<in> R \<and> snd s \<in> R"
    using Cons.prems(1) by simp
  from Cons.IH [OF rest cl1, of w1] obtain w' P'
    where r: "fold_err replace_segment segs (w1, P1) = Inr (w', P')"
      and c: "concat w' = concat w1" and cl': "closed_over R P'"
      and sy: "\<forall>x \<in> set w'. x \<in> set w1 \<or> has_key P' x"
      and mono: "\<forall>N. has_key P1 N \<longrightarrow> has_key P' N" by blast
  have k: "has_key P' (a @ b)" using mono by (simp add: P1_def has_key_update)
  have "fold_err replace_segment (s # segs) (w, P) = Inr (w', P')"
    using r1 r by (simp add: s P1_def)
  moreover have "concat w' = concat w" using c c1 by simp
  moreover have "\<forall>x \<in> set w'. x \<in> set w \<or> has_key P' x"
  proof
    fix x assume "x \<in> set w'"
    with sy have "x \<in> set w1 \<or> has_key P' x" by blast
    then show "x \<in> set w \<or> has_key P' x"
    proof
      assume "x \<in> set w1"
      with s1 have "x = a @ b \<or> x \<in> set w" by blast
      then show ?thesis using k by blast
    qed simp
  qed
  moreover have "\<forall>N. has_key P N \<longrightarrow> has_key P' N"
    using mono by (simp add: P1_def has_key_update)
  ultimately show ?case using cl' by blast
qed

lemma arrangement_valid:
  assumes oI: "enumerates ordI" and oS: "enumerates ordS"
    and ne: "\<forall>x \<in> set w. x \<noteq> []"
    and noeq: "\<forall>i. i + 1 < length w \<longrightarrow> w ! (i + 1) \<noteq> w ! i"
  shows "\<exists>w' P' ID'. arrangement ordI ordS w ID = Inr (w', P', ID')
           \<and> concat w' = concat w \<and> closed_over (set w) P'
           \<and> (\<forall>x \<in> set w'. x \<in> set w \<or> has_key P' x)"
proof -
  have D0: "\<forall>x \<in> fst ` set ([] :: ids). is_position w x" by simp
  from arrangement_rounds_ok [OF oI D0, of "createSortedSegmentList w" "[]" ID]
  obtain D A ID' where r1: "fold_err (arrangement_round ordI w) (createSortedSegmentList w) ([], [], ID)
                        = Inr (D, A, ID')"
    and v: "\<forall>x \<in> fst ` set D. is_position w x" by blast
  from collect_segments_ok [OF v]
  obtain segs where r2: "collect_segments w D (dedupe_values 0 (map snd D)) = Inr segs"
    and sub: "set segs \<subseteq> set (adjacent w)" by blast
  have os: "set (ordS segs) = set segs" using oS by (simp add: enumerates_def)
  have good: "\<forall>s \<in> set (ordS segs). fst s \<noteq> snd s \<and> fst s \<noteq> [] \<and> snd s \<noteq> []
      \<and> fst s \<in> set w \<and> snd s \<in> set w"
  proof
    fix s assume "s \<in> set (ordS segs)"
    with os sub have "s \<in> set (adjacent w)" by blast
    then obtain i where i: "i < length w - 1" and s: "s = (w ! i, w ! (i + 1))"
      by (auto simp: adjacent_def)
    from i have i1: "i + 1 < length w" by simp
    with noeq have "w ! (i + 1) \<noteq> w ! i" by blast
    moreover have "w ! i \<in> set w" "w ! (i + 1) \<in> set w" using i1 by simp_all
    ultimately show "fst s \<noteq> snd s \<and> fst s \<noteq> [] \<and> snd s \<noteq> []
      \<and> fst s \<in> set w \<and> snd s \<in> set w" using ne s by auto
  qed
  from replace_segments_valid [OF good closed_over_empty, of w]
  obtain w' P' where r3: "fold_err replace_segment (ordS segs) (w, []) = Inr (w', P')"
    and c: "concat w' = concat w" and cl: "closed_over (set w) P'"
    and sy: "\<forall>x \<in> set w'. x \<in> set w \<or> has_key P' x" by blast
  have "arrangement ordI ordS w ID = Inr (w', P', ID')"
    by (simp add: arrangement_def r1 r2 r3)
  with c cl sy show ?thesis by blast
qed

lemma levelwiseRepair_loop_valid:
  assumes oI: "enumerates ordI" and oS: "enumerates ordS"
  shows "\<forall>x \<in> set w. x \<noteq> [] \<Longrightarrow> closed_over {} P \<Longrightarrow>
         \<forall>x \<in> set w. 2 \<le> length x \<longrightarrow> has_key P x \<Longrightarrow>
         \<exists>w' P'. levelwiseRepair_loop ordI ordS w P ID = Some (Inr (w', P'))
            \<and> concat w' = concat w \<and> (\<forall>x \<in> set w'. x \<noteq> []) \<and> closed_over {} P'
            \<and> (\<forall>x \<in> set w'. 2 \<le> length x \<longrightarrow> has_key P' x)"
proof (induction "length w" arbitrary: w P ID rule: less_induct)
  case less
  note ne = less.prems(1) and cl = less.prems(2) and keys = less.prems(3)
  show ?case
  proof (cases "hasRepeatingPairs w")
    case False
    then have "levelwiseRepair_loop ordI ordS w P ID = Some (Inr (w, P))"
      by (subst levelwiseRepair_loop.simps) simp
    with ne cl keys show ?thesis by simp
  next
    case True
    from round_shrinks [OF oI oS ne True, of ID]
    obtain w1 P1 w2 P2 ID' where r1: "repetition w = Inr (w1, P1)"
      and r2: "arrangement ordI ordS w1 ID = Inr (w2, P2, ID')"
      and l: "length w2 < length w" and ne2: "\<forall>x \<in> set w2. x \<noteq> []" by blast
    from repetition_loop_valid [OF ne closed_over_empty, of "{}"] r1
    have c1: "concat w1 = concat w" and ne1: "\<forall>s \<in> set w1. s \<noteq> []"
      and cl1: "closed_over {} P1"
      and sy1: "\<forall>x \<in> set w1. x \<in> set w \<or> has_key P1 x"
      and none: "hasRepeatingSymbol w1 = None"
      by (auto simp: repetition_def)
    have noeq: "\<forall>i. i + 1 < length w1 \<longrightarrow> w1 ! (i + 1) \<noteq> w1 ! i"
      using hasRepeatingSymbol_None [OF none] by blast
    from arrangement_valid [OF oI oS ne1 noeq, of ID] r2
    have c2: "concat w2 = concat w1" and cl2: "closed_over (set w1) P2"
      and sy2: "\<forall>x \<in> set w2. x \<in> set w1 \<or> has_key P2 x" by auto
    define Q where "Q = AList.merge P P1"
    have clQ: "closed_over {} Q" unfolding Q_def using cl cl1 by (rule closed_over_merge)
    have kQ: "\<forall>x \<in> set w1. 2 \<le> length x \<longrightarrow> has_key Q x"
      using sy1 keys by (auto simp: Q_def has_key_merge)
    have "closed_over (set w1) Q" using clQ by (rule closed_over_weaken) simp
    then have "closed_over (set w1) (AList.merge Q P2)" using cl2 by (rule closed_over_merge)
    then have cl': "closed_over {} (AList.merge Q P2)"
      by (rule closed_over_weaken) (use kQ in \<open>auto simp: has_key_merge\<close>)
    have k': "\<forall>x \<in> set w2. 2 \<le> length x \<longrightarrow> has_key (AList.merge Q P2) x"
      using sy2 kQ by (auto simp: has_key_merge)
    from less.hyps [OF l ne2 cl' k', of ID']
    obtain w' P' where r: "levelwiseRepair_loop ordI ordS w2 (AList.merge Q P2) ID' = Some (Inr (w', P'))"
      and c: "concat w' = concat w2" and rest: "\<forall>x \<in> set w'. x \<noteq> []" "closed_over {} P'"
        "\<forall>x \<in> set w'. 2 \<le> length x \<longrightarrow> has_key P' x" by blast
    have "levelwiseRepair_loop ordI ordS w P ID = Some (Inr (w', P'))"
      using True r1 r2 r by (subst levelwiseRepair_loop.simps) (simp add: Q_def)
    moreover have "concat w' = concat w" using c c2 c1 by simp
    ultimately show ?thesis using rest by blast
  qed
qed

lemma closed_over_fold_update:
  assumes g: "closed_over R g"
    and new: "\<forall>i \<in> set xs. A i \<noteq> [] \<and> B i \<noteq> []
        \<and> (2 \<le> length (A i) \<longrightarrow> has_key g (A i) \<or> A i \<in> R \<or> A i \<in> (\<lambda>i. A i @ B i) ` set xs)
        \<and> (2 \<le> length (B i) \<longrightarrow> has_key g (B i) \<or> B i \<in> R \<or> B i \<in> (\<lambda>i. A i @ B i) ` set xs)"
  shows "closed_over R (fold (\<lambda>i g. AList.update (A i @ B i) [A i, B i] g) xs g)"
  unfolding closed_over_def
proof (intro conjI allI impI)
  from g have "distinct (map fst g)" by (simp add: closed_over_def)
  then show "distinct (map fst (fold (\<lambda>i g. AList.update (A i @ B i) [A i, B i] g) xs g))"
    by (induction xs arbitrary: g) (simp_all add: distinct_update)
next
  fix N rhs
  let ?g' = "fold (\<lambda>i g. AList.update (A i @ B i) [A i, B i] g) xs g"
  assume m: "map_of ?g' N = Some rhs"
  have hk: "has_key ?g' M \<longleftrightarrow> has_key g M \<or> M \<in> (\<lambda>i. A i @ B i) ` set xs" for M
    by (rule fold_update_has_key)
  from fold_update_map_of [OF m]
  show "\<exists>a b. rhs = [a, b] \<and> a \<noteq> [] \<and> b \<noteq> [] \<and> a @ b = N
                \<and> (2 \<le> length a \<longrightarrow> has_key ?g' a \<or> a \<in> R)
                \<and> (2 \<le> length b \<longrightarrow> has_key ?g' b \<or> b \<in> R)"
  proof
    assume "\<exists>i \<in> set xs. N = A i @ B i \<and> rhs = [A i, B i]"
    then obtain i where i: "i \<in> set xs" "N = A i @ B i" "rhs = [A i, B i]" by blast
    from new i(1) have "A i \<noteq> []" "B i \<noteq> []"
      "2 \<le> length (A i) \<longrightarrow> has_key ?g' (A i) \<or> A i \<in> R"
      "2 \<le> length (B i) \<longrightarrow> has_key ?g' (B i) \<or> B i \<in> R"
      unfolding hk by blast+
    with i show ?thesis by blast
  next
    assume "map_of g N = Some rhs"
    with g obtain a b where "rhs = [a, b]" "a \<noteq> []" "b \<noteq> []" "a @ b = N"
      "2 \<le> length a \<longrightarrow> has_key g a \<or> a \<in> R" "2 \<le> length b \<longrightarrow> has_key g b \<or> b \<in> R"
      unfolding closed_over_def by blast
    then show ?thesis unfolding hk by blast
  qed
qed

lemma produceTrivialGrammar_valid:
  assumes ne: "\<forall>x \<in> set w. x \<noteq> []"
  shows "closed_over (set w) (produceTrivialGrammar w)"
    and "2 \<le> length w \<longrightarrow> has_key (produceTrivialGrammar w) (concat w)"
proof -
  define A where "A = (\<lambda>i. concat (take (i - 1) w))"
  define B where "B = (\<lambda>i. w ! (i - 1))"
  have AB: "A i @ B i = concat (take i w)" if "i \<in> set [2 ..< length w + 1]" for i
  proof -
    from that have ib: "2 \<le> i" "i \<le> length w" by auto
    then obtain j where j: "i = Suc j" "j < length w" by (cases i) auto
    then have "take i w = take j w @ [w ! j]" by (simp add: take_Suc_conv_app_nth)
    then show ?thesis using j by (simp add: A_def B_def)
  qed
  have eq: "produceTrivialGrammar w
      = fold (\<lambda>i g. AList.update (A i @ B i) [A i, B i] g) [2 ..< length w + 1] []"
    unfolding produceTrivialGrammar_def
  proof (rule fold_cong [OF refl refl])
    fix i assume i: "i \<in> set [2 ..< length w + 1]"
    have "concat (take i w) = A i @ B i" using AB [OF i] by (rule sym)
    then show "AList.update (concat (take i w)) [concat (take (i - 1) w), w ! (i - 1)]
        = AList.update (A i @ B i) [A i, B i]"
      by (simp only: A_def B_def)
  qed
  have "closed_over (set w) (fold (\<lambda>i g. AList.update (A i @ B i) [A i, B i] g) [2 ..< length w + 1] [])"
  proof (rule closed_over_fold_update [OF closed_over_empty], intro ballI conjI impI)
    fix i assume i: "i \<in> set [2 ..< length w + 1]"
    then have ib: "2 \<le> i" "i \<le> length w" by auto
    have "take (i - 1) w \<noteq> []" using ib by auto
    moreover have "\<forall>t \<in> set (take (i - 1) w). t \<noteq> []" using ne by (meson in_set_takeD)
    ultimately show "A i \<noteq> []" unfolding A_def by (cases "take (i - 1) w") auto
    have Bin: "B i \<in> set w" using ib by (simp add: B_def)
    then show "B i \<noteq> []" using ne by blast
    show "has_key [] (B i) \<or> B i \<in> set w \<or> B i \<in> (\<lambda>i. A i @ B i) ` set [2 ..< length w + 1]"
      using Bin by simp
    show "has_key [] (A i) \<or> A i \<in> set w \<or> A i \<in> (\<lambda>i. A i @ B i) ` set [2 ..< length w + 1]"
    proof (cases "i = 2")
      case True
      from ib obtain x rest where w: "w = x # rest" by (cases w) auto
      have "A i = concat (take 1 w)" using True by (simp add: A_def)
      also have "\<dots> = x" by (simp add: w)
      finally have "A i = x" .
      moreover have "x \<in> set w" by (simp add: w)
      ultimately have "A i \<in> set w" by simp
      then show ?thesis by (intro disjI2 disjI1)
    next
      case False
      with ib have m: "i - 1 \<in> set [2 ..< length w + 1]" by auto
      have "A (i - 1) @ B (i - 1) = concat (take (i - 1) w)" using m by (rule AB)
      then have e: "A i = A (i - 1) @ B (i - 1)" by (simp add: A_def)
      have "A i \<in> (\<lambda>i. A i @ B i) ` set [2 ..< length w + 1]"
        unfolding e using m by (rule imageI)
      then show ?thesis by (intro disjI2)
    qed
  qed
  then show "closed_over (set w) (produceTrivialGrammar w)" by (simp only: eq)
  show "2 \<le> length w \<longrightarrow> has_key (produceTrivialGrammar w) (concat w)"
  proof
    assume "2 \<le> length w"
    then have m: "length w \<in> set [2 ..< length w + 1]" by simp
    from AB [OF m] have "A (length w) @ B (length w) = concat w" by simp
    then have e: "concat w = (\<lambda>i. A i @ B i) (length w)" by simp
    have "concat w \<in> (\<lambda>i. A i @ B i) ` set [2 ..< length w + 1]"
      unfolding e using m by (rule imageI)
    then show "has_key (produceTrivialGrammar w) (concat w)"
      unfolding eq fold_update_has_key by (rule disjI2)
  qed
qed

lemma getSakamotoGrammar_valid:
  assumes oI: "enumerates ordI" and oS: "enumerates ordS" and S: "S \<noteq> []"
  shows "\<exists>G. getSakamotoGrammar ordI ordS S = Some (Inr G) \<and> valid_grammar G
           \<and> distinct (map fst G) \<and> (\<forall>N rhs. map_of G N = Some rhs \<longrightarrow> length rhs = 2)
           \<and> (2 \<le> length S \<longrightarrow> has_key G S)"
proof -
  define w0 where "w0 = map (\<lambda>c. [c]) S"
  have ne0: "\<forall>x \<in> set w0. x \<noteq> []" by (auto simp: w0_def)
  have k0: "\<forall>x \<in> set w0. 2 \<le> length x \<longrightarrow> has_key [] x" by (auto simp: w0_def)
  have c0: "concat w0 = S" by (simp add: w0_def concat_chars)
  from levelwiseRepair_loop_valid [OF oI oS ne0 closed_over_empty k0, of "[]"]
  obtain w' P' where r: "levelwiseRepair_loop ordI ordS w0 [] [] = Some (Inr (w', P'))"
    and c: "concat w' = S" and ne: "\<forall>x \<in> set w'. x \<noteq> []" and cl: "closed_over {} P'"
    and keys: "\<forall>x \<in> set w'. 2 \<le> length x \<longrightarrow> has_key P' x"
    using c0 by auto
  have w'ne: "w' \<noteq> []" using c S by auto
  show ?thesis
  proof (cases "length w' = 1")
    case True
    then obtain x where x: "w' = [x]" by (cases w') auto
    with c have "x = S" by simp
    with keys x have "2 \<le> length S \<longrightarrow> has_key P' S" by simp
    moreover have "getSakamotoGrammar ordI ordS S = Some (Inr P')"
      using True r by (simp add: getSakamotoGrammar_def levelwiseRepair_def w0_def)
    moreover have "distinct (map fst P')" using cl by (simp add: closed_over_def)
    ultimately show ?thesis using closed_over_valid [OF cl] by blast
  next
    case False
    with w'ne have len: "2 \<le> length w'" by (cases w') (auto simp: Suc_le_eq)
    define T where "T = produceTrivialGrammar w'"
    have clT: "closed_over (set w') T" and kT: "has_key T S"
      using produceTrivialGrammar_valid [OF ne] len c by (simp_all add: T_def)
    have "closed_over (set w') P'" using cl by (rule closed_over_weaken) simp
    then have "closed_over (set w') (AList.merge P' T)" using clT by (rule closed_over_merge)
    then have clG: "closed_over {} (AList.merge P' T)"
      by (rule closed_over_weaken) (use keys in \<open>auto simp: has_key_merge\<close>)
    have "getSakamotoGrammar ordI ordS S = Some (Inr (AList.merge P' T))"
      using False r by (simp add: getSakamotoGrammar_def levelwiseRepair_def w0_def T_def)
    moreover have "has_key (AList.merge P' T) S" using kT by (simp add: has_key_merge)
    moreover have "distinct (map fst (AList.merge P' T))" using clG by (simp add: closed_over_def)
    ultimately show ?thesis using closed_over_valid [OF clG] by blast
  qed
qed

end
